(* ===== verification/Prelude.thy ===== *)
theory Prelude
  imports Complex_Main "HOL-Library.Word" "HOL-Library.Sublist" "HOL-Library.Product_Lexorder"
begin

text \<open>
  Shared ground of the development: the machine-integer types of the program, the
  constant \<open>NUM_WORKERS\<close> of \<open>hermes-common/src/lib.rs\<close>, reading a 64-bit word as a set of
  worker ids, signed arithmetic that stays in range, and the few operations of the Rust
  standard library that several components use (\<open>u64::count_ones\<close>, \<open>Iterator::min_by_key\<close>,
  \<open>cmp::Reverse\<close>, \<open>copy_from_slice\<close>).

  An \<open>i64\<close> is a 64-bit word read with \<open>sint\<close>; \<open>+\<close> and \<open>-\<close> wrap, which is what the atomics do
  always and what plain arithmetic does in the release profile the benchmarks run with.
  Where a debug build would panic on overflow, the components prove that no overflow
  happens under their stated bounds.
\<close>

unbundle bit_operations_syntax

type_synonym u8 = "8 word"
type_synonym u16 = "16 word"
type_synonym u32 = "32 word"
type_synonym u64 = "64 word"
type_synonym i64 = "64 word"
type_synonym errno = nat

named_theorems word_model "machine-word facts shared by the components"
named_theorems bitmap_model "facts that read a candidate bitmap as a set of worker ids"

definition NUM_WORKERS :: nat where
  "NUM_WORKERS = 4"

definition DEFAULT_PORT :: u16 where
  "DEFAULT_PORT = 7878"

lemma NUM_WORKERS_pos [simp]: "0 < NUM_WORKERS"
  by (simp add: NUM_WORKERS_def)

lemma NUM_WORKERS_less_64 [simp]: "i < NUM_WORKERS \<Longrightarrow> i < 64"
  by (simp add: NUM_WORKERS_def)

section \<open>Words and bit sets\<close>

lemmas and_bit_test [word_model] = and_exp_eq_0_iff_not_bit

lemma unat_ucast_widen [word_model]:
  "LENGTH('a) \<le> LENGTH('b) \<Longrightarrow> unat (ucast (w :: 'a::len word) :: 'b::len word) = unat w"
  by (simp add: unsigned_ucast_eq take_bit_nat_eq_self_iff)
    (meson less_le_trans one_less_numeral_iff power_increasing semiring_norm(76) unsigned_less less_imp_le)

text \<open>The positions below \<open>n\<close> of the set bits of a word, in increasing order.\<close>

definition set_bits :: "'a::len word \<Rightarrow> nat \<Rightarrow> nat list" where
  "set_bits w n = filter (bit w) [0..<n]"

definition count_ones :: "u64 \<Rightarrow> u32" where
  "count_ones w = of_nat (length (set_bits w 64))"

lemma set_set_bits [simp]: "set (set_bits w n) = {i. i < n \<and> bit w i}"
  by (auto simp: set_bits_def)

lemma distinct_set_bits [simp]: "distinct (set_bits w n)"
  by (simp add: set_bits_def)

lemma sorted_set_bits [simp]: "sorted (set_bits w n)"
  by (simp add: set_bits_def sorted_filter [of id, simplified])

lemma length_set_bits_le: "length (set_bits w n) \<le> n"
  using length_filter_le [of "bit w" "[0..<n]"] by (simp add: set_bits_def)

lemma set_bits_beyond:
  assumes "\<And>i. bit w i \<Longrightarrow> i < n" and "n \<le> m"
  shows "set_bits w m = set_bits w n"
proof -
  have "[0..<m] = [0..<n] @ [n..<m]"
    using assms(2) by (metis le_add_diff_inverse upt_add_eq_append zero_le)
  moreover have "filter (bit w) [n..<m] = []"
    using assms(1) by (auto simp: filter_empty_conv not_le [symmetric])
  ultimately show ?thesis by (simp add: set_bits_def)
qed

lemma unat_count_ones [word_model]: "unat (count_ones w) = length (set_bits w 64)"
  using length_set_bits_le [of w 64] by (simp add: count_ones_def unat_of_nat take_bit_eq_mod)

lemma sint_of_int_i64 [word_model]:
  "- (2 ^ 63) \<le> n \<Longrightarrow> n < 2 ^ 63 \<Longrightarrow> sint (word_of_int n :: i64) = n"
  by (simp add: sint_sbintrunc' signed_take_bit_int_eq_self)

lemma sint_add_i64 [word_model]:
  "- (2 ^ 63) \<le> sint a + sint b \<Longrightarrow> sint a + sint b < 2 ^ 63 \<Longrightarrow>
    sint (a + b) = sint a + sint b" for a b :: i64
  by (simp add: sint_word_add signed_take_bit_int_eq_self)

lemma sint_diff_i64 [word_model]:
  "- (2 ^ 63) \<le> sint a - sint b \<Longrightarrow> sint a - sint b < 2 ^ 63 \<Longrightarrow>
    sint (a - b) = sint a - sint b" for a b :: i64
  by (simp add: sint_word_diff signed_take_bit_int_eq_self)

lemma sint_mult_i64 [word_model]:
  "- (2 ^ 63) \<le> sint a * sint b \<Longrightarrow> sint a * sint b < 2 ^ 63 \<Longrightarrow>
    sint (a * b) = sint a * sint b" for a b :: i64
  by (simp add: sint_word_mult signed_take_bit_int_eq_self)

section \<open>Bitmaps of worker ids\<close>

text \<open>The bitmap a list of bit positions stands for.\<close>

definition bitmap_of :: "nat list \<Rightarrow> u64" where
  "bitmap_of xs = fold (\<lambda>i b. b OR push_bit i 1) xs 0"

lemma bit_fold_or:
  "bit (fold (\<lambda>i b. b OR push_bit i 1) xs (w :: u64)) n \<longleftrightarrow> bit w n \<or> n \<in> set xs \<and> n < 64"
  by (induction xs arbitrary: w) (auto simp: bit_simps)

lemma bit_bitmap_of [bitmap_model]: "bit (bitmap_of xs) n \<longleftrightarrow> n \<in> set xs \<and> n < 64"
  unfolding bitmap_of_def bit_fold_or by simp

lemma set_bits_bitmap_of [bitmap_model]:
  assumes "sorted xs" and "distinct xs" and "\<forall>i\<in>set xs. i < n" and "n \<le> 64"
  shows "set_bits (bitmap_of xs) n = xs"
proof -
  have "set (set_bits (bitmap_of xs) n) = set xs"
    using assms(3,4) by (auto simp: bit_bitmap_of)
  then show ?thesis
    using assms(1,2) by (intro sorted_distinct_set_unique) auto
qed

lemma set_bits_below:
  fixes bm :: u64
  assumes "bm < 2 ^ NUM_WORKERS"
  shows "set (set_bits bm 64) \<subseteq> {..<NUM_WORKERS}"
proof -
  have "take_bit NUM_WORKERS bm = bm"
    using assms
    by (simp add: word_eq_iff_unsigned [where 'a = nat] unsigned_take_bit_eq take_bit_nat_eq_self
        word_less_nat_alt NUM_WORKERS_def)
  then show ?thesis
    by (metis (no_types, lifting) bit_take_bit_iff lessThan_iff mem_Collect_eq set_set_bits subsetI)
qed

section \<open>Standard-library operations\<close>

text \<open>\<open>Iterator::min_by_key\<close> returns the first of several minimal elements.\<close>

fun min_by_key :: "('a \<Rightarrow> 'k::linorder) \<Rightarrow> 'a list \<Rightarrow> 'a option" where
  "min_by_key k [] = None"
| "min_by_key k (x # xs) =
     (case min_by_key k xs of None \<Rightarrow> Some x | Some y \<Rightarrow> Some (if k x \<le> k y then x else y))"

lemma min_by_key_None [simp]: "min_by_key k xs = None \<longleftrightarrow> xs = []"
  by (cases xs) (auto split: option.splits)

lemma min_by_key_Some:
  "min_by_key k xs = Some y \<Longrightarrow> y \<in> set xs \<and> (\<forall>x\<in>set xs. k y \<le> k x)"
  by (induction xs arbitrary: y) (auto split: option.splits if_splits)

text \<open>\<open>std::cmp::Reverse\<close>: the opposite order.\<close>

datatype 'a reverse = Reverse (unreverse: 'a)

instantiation reverse :: (linorder) linorder
begin

definition less_eq_reverse :: "'a reverse \<Rightarrow> 'a reverse \<Rightarrow> bool" where
  "less_eq_reverse a b \<longleftrightarrow> unreverse b \<le> unreverse a"

definition less_reverse :: "'a reverse \<Rightarrow> 'a reverse \<Rightarrow> bool" where
  "less_reverse a b \<longleftrightarrow> unreverse b < unreverse a"

instance
  by standard (auto simp: less_eq_reverse_def less_reverse_def reverse.expand)

end

text \<open>Adding to one element of a list of counters adds to their sum.\<close>

lemma sum_list_bump:
  fixes xs :: "'a::comm_monoid_add list"
  assumes "i < length xs"
  shows "sum_list (xs[i := xs ! i + x]) = sum_list xs + x"
  using assms
proof (induction xs arbitrary: i)
  case (Cons y ys)
  then show ?case by (cases i) (simp_all add: ac_simps)
qed simp

text \<open>The worker ids, as the loops \<open>for i in 0..NUM_WORKERS\<close> run over them.\<close>

lemma workers_upt: "[0..<NUM_WORKERS] = [0, 1, 2, 3]"
  by (simp add: NUM_WORKERS_def upt_conv_Cons eval_nat_numeral)

text \<open>\<open>buf[off..off + bs.len()].copy_from_slice(bs)\<close>.\<close>

definition copy_at :: "nat \<Rightarrow> 'a list \<Rightarrow> 'a list \<Rightarrow> 'a list" where
  "copy_at off bs buf = take off buf @ bs @ drop (off + length bs) buf"

lemma length_copy_at [simp]:
  "off + length bs \<le> length buf \<Longrightarrow> length (copy_at off bs buf) = length buf"
  by (simp add: copy_at_def)

section \<open>Loops over a list of events\<close>

text \<open>
  \<open>for ev in evs\<close> with a body that may not return (\<open>None\<close>), and the loop's contract: a body that
  keeps an invariant, for events that arrive in order, keeps it over the whole loop.
\<close>

fun run_steps :: "('e \<Rightarrow> 's \<Rightarrow> 's option) \<Rightarrow> 'e list \<Rightarrow> 's \<Rightarrow> 's option" where
  "run_steps step [] s = Some s"
| "run_steps step (e # es) s = (case step e s of None \<Rightarrow> None | Some s' \<Rightarrow> run_steps step es s')"

fun steps_ok :: "('e \<Rightarrow> 's \<Rightarrow> bool) \<Rightarrow> ('e \<Rightarrow> 's \<Rightarrow> 's option) \<Rightarrow> 'e list \<Rightarrow> 's \<Rightarrow> bool" where
  "steps_ok ok step [] s = True"
| "steps_ok ok step (e # es) s =
     (ok e s \<and> (case step e s of None \<Rightarrow> True | Some s' \<Rightarrow> steps_ok ok step es s'))"

lemma run_steps_append:
  "run_steps step (xs @ ys) s = (case run_steps step xs s of None \<Rightarrow> None | Some s' \<Rightarrow> run_steps step ys s')"
  by (induction xs arbitrary: s) (auto split: option.splits)

lemma steps_ok_all: "(\<And>e s. e \<in> set es \<Longrightarrow> ok e s) \<Longrightarrow> steps_ok ok step es s"
  by (induction es arbitrary: s) (auto split: option.splits)

locale guarded_steps =
  fixes step :: "'e \<Rightarrow> 's \<Rightarrow> 's option" and ok :: "'e \<Rightarrow> 's \<Rightarrow> bool" and inv :: "'s \<Rightarrow> bool"
  assumes step_inv: "inv s \<Longrightarrow> ok e s \<Longrightarrow> step e s = Some s' \<Longrightarrow> inv s'"
begin

lemma run_steps_inv:
  "inv s \<Longrightarrow> steps_ok ok step es s \<Longrightarrow> run_steps step es s = Some s' \<Longrightarrow> inv s'"
  by (induction es arbitrary: s) (auto split: option.splits intro: step_inv)

end

end
