(* ===== verification/Float64.thy ===== *)
theory Float64
  imports Complex_Main "HOL-Library.Log_Nat"
begin

text \<open>
  IEEE 754 binary64 arithmetic as the scheduler uses it. A finite \<open>f64\<close> is the rational it
  stands for; every operation rounds the exact rational result once, to the nearest value
  with 53 significant bits, ties to even. The exponent is unbounded here: the scheduler's
  values are zero or lie far inside the normal range, so overflow to infinity, subnormals
  and NaN do not arise. The lemmas give the rounding error, monotonicity, exactness on
  dyadic values and the one inexact case the scheduler meets, a division by three.
\<close>

section \<open>Rounding\<close>

text \<open>Round to the nearest integer, ties to even.\<close>

definition round_even :: "rat \<Rightarrow> int" where
  "round_even x =
     (let f = \<lfloor>x\<rfloor>; r = x - of_int f
      in if r < 1 / 2 then f
         else if 1 / 2 < r then f + 1
         else if even f then f else f + 1)"

text \<open>The exponent \<open>e\<close> with \<open>2 ^ e \<le> \<bar>x\<bar> < 2 ^ (e + 1)\<close>.\<close>

definition f64_exp :: "rat \<Rightarrow> int" where
  "f64_exp x =
     (let (p, q) = quotient_of \<bar>x\<bar>; k = bitlen p - bitlen q
      in if 2 powi k \<le> \<bar>x\<bar> then k else k - 1)"

definition f64_round :: "rat \<Rightarrow> rat" where
  "f64_round x =
     (if x = 0 then 0
      else let u = 2 powi (f64_exp x - 52) in of_int (round_even (x / u)) * u)"

lemma round_even_of_int [simp]: "round_even (of_int n) = n"
  by (simp add: round_even_def Let_def)

lemma round_even_0 [simp]: "round_even 0 = 0"
  using round_even_of_int [of 0] by simp

lemma round_even_error: "\<bar>of_int (round_even x) - x\<bar> \<le> 1 / 2"
proof -
  have "of_int \<lfloor>x\<rfloor> \<le> x" and "x < of_int \<lfloor>x\<rfloor> + 1"
    using floor_correct [of x] by simp_all
  then show ?thesis by (auto simp: round_even_def Let_def abs_le_iff)
qed

lemma round_even_near:
  assumes "\<bar>x - of_int n\<bar> < 1 / 2"
  shows "round_even x = n"
proof -
  have "\<bar>of_int (round_even x - n) :: rat\<bar> < 1"
    using round_even_error [of x] assms
    by (simp only: abs_le_iff abs_less_iff of_int_diff) linarith
  then have "\<bar>round_even x - n\<bar> < 1"
    by linarith
  then show ?thesis by simp
qed

lemma round_even_tie:
  assumes "\<bar>x - of_int n\<bar> \<le> 1 / 2" and "even n"
  shows "round_even x = n"
proof (cases "\<bar>x - of_int n\<bar> < 1 / 2")
  case True
  then show ?thesis by (rule round_even_near)
next
  case False
  with assms(1) consider "x = of_int n + 1 / 2" | "x = of_int n - 1 / 2"
    by (auto simp: abs_if split: if_splits)
  then show ?thesis
  proof cases
    case 1
    then have "\<lfloor>x\<rfloor> = n" by (simp add: floor_eq_iff)
    with 1 assms(2) show ?thesis by (simp add: round_even_def)
  next
    case 2
    then have "\<lfloor>x\<rfloor> = n - 1" by (simp add: floor_eq_iff)
    with 2 assms(2) show ?thesis by (simp add: round_even_def)
  qed
qed

lemma round_even_mono:
  assumes "x \<le> y"
  shows "round_even x \<le> round_even y"
proof (cases "\<lfloor>x\<rfloor> = \<lfloor>y\<rfloor>")
  case True
  with assms show ?thesis by (auto simp: round_even_def Let_def)
next
  case False
  with floor_mono [OF assms] have "\<lfloor>x\<rfloor> + 1 \<le> \<lfloor>y\<rfloor>" by linarith
  moreover have "round_even x \<le> \<lfloor>x\<rfloor> + 1" and "\<lfloor>y\<rfloor> \<le> round_even y"
    by (simp_all add: round_even_def Let_def)
  ultimately show ?thesis by linarith
qed

lemma round_even_minus: "round_even (- x) = - round_even x"
proof (cases "x = of_int \<lfloor>x\<rfloor>")
  case True
  then show ?thesis by (metis of_int_minus round_even_of_int)
next
  case False
  then have "of_int \<lfloor>x\<rfloor> < x" using floor_correct [of x] by linarith
  then have "\<lfloor>- x\<rfloor> = - \<lfloor>x\<rfloor> - 1"
    using floor_correct [of x] by (simp add: floor_eq_iff)
  then show ?thesis by (auto simp: round_even_def Let_def)
qed

lemma f64_exp_bounds:
  assumes "x \<noteq> 0"
  shows "2 powi (f64_exp x) \<le> \<bar>x\<bar>" and "\<bar>x\<bar> < 2 powi (f64_exp x + 1)"
proof -
  obtain p q where pq: "quotient_of \<bar>x\<bar> = (p, q)" by fastforce
  have q: "0 < q" using pq by (rule quotient_of_denom_pos)
  have x: "\<bar>x\<bar> = of_int p / of_int q" using pq by (rule quotient_of_div)
  have p: "0 < p"
  proof -
    have "0 < \<bar>x\<bar>" using assms by simp
    with x q show ?thesis by (simp add: zero_less_divide_iff)
  qed
  define a where "a = nat (bitlen p)"
  define b where "b = nat (bitlen q)"
  have a: "bitlen p = int a" and b: "bitlen q = int b"
    by (simp_all add: a_def b_def bitlen_nonneg)
  have a0: "0 < a" and b0: "0 < b"
    using p q a b bitlen_eq_zero_iff bitlen_nonneg
    by (smt (verit, ccfv_SIG) of_nat_0_less_iff)+
  have pb: "2 ^ (a - 1) \<le> p" "p < 2 ^ a"
    using bitlen_bounds [OF p] a0 by (simp_all add: a_def nat_diff_distrib)
  have qb: "2 ^ (b - 1) \<le> q" "q < 2 ^ b"
    using bitlen_bounds [OF q] b0 by (simp_all add: b_def nat_diff_distrib)
  have pr: "2 ^ (a - 1) \<le> (of_int p :: rat)" "of_int p < (2 ^ a :: rat)"
    using pb by (metis of_int_le_iff of_int_numeral of_int_power) (metis pb(2) of_int_less_iff of_int_numeral of_int_power)
  have qr: "2 ^ (b - 1) \<le> (of_int q :: rat)" "of_int q < (2 ^ b :: rat)"
    using qb by (metis of_int_le_iff of_int_numeral of_int_power) (metis qb(2) of_int_less_iff of_int_numeral of_int_power)
  have q0: "0 < (of_int q :: rat)" using q by simp
  have pow: "(2 :: rat) powi (int m - int n) = 2 ^ m / 2 ^ n" for m n
    by (simp add: power_int_diff)
  let ?k = "int a - int b"
  have upper: "\<bar>x\<bar> < 2 powi (?k + 1)"
  proof -
    have "of_int p / of_int q < (2 ^ a :: rat) / of_int q"
      using pr(2) q0 by (simp add: divide_strict_right_mono)
    also have "\<dots> \<le> 2 ^ a / 2 ^ (b - 1)"
      using qr(1) by (simp add: frac_le)
    also have "\<dots> = 2 powi (int a - int (b - 1))" by (simp only: pow)
    also have "\<dots> = 2 powi (?k + 1)" using b0 by (simp add: of_nat_diff algebra_simps)
    finally show ?thesis using x by simp
  qed
  have lower: "2 powi (?k - 1) \<le> \<bar>x\<bar>"
  proof -
    have "(2 :: rat) powi (?k - 1) = 2 powi (int (a - 1) - int b)"
      using a0 by (simp add: of_nat_diff algebra_simps)
    also have "\<dots> = 2 ^ (a - 1) / 2 ^ b" by (simp only: pow)
    also have "\<dots> \<le> of_int p / 2 ^ b" using pr(1) by (simp add: divide_right_mono)
    also have "\<dots> \<le> of_int p / of_int q"
      using qr(2) q0 p by (simp add: frac_le)
    finally show ?thesis using x by simp
  qed
  have e: "f64_exp x = (if 2 powi ?k \<le> \<bar>x\<bar> then ?k else ?k - 1)"
    by (simp add: f64_exp_def pq a b)
  show "2 powi (f64_exp x) \<le> \<bar>x\<bar>" and "\<bar>x\<bar> < 2 powi (f64_exp x + 1)"
    using upper lower by (simp_all add: e)
qed

lemma powi2_strict_mono: "a < b \<Longrightarrow> (2 :: rat) powi a < 2 powi b"
  by (simp add: power_int_strict_increasing)

lemma powi2_mono: "a \<le> b \<Longrightarrow> (2 :: rat) powi a \<le> 2 powi b"
  by (simp add: power_int_increasing)

lemma powi2_pos [simp]: "(0 :: rat) < 2 powi a"
  by simp

lemma powi2_add: "(2 :: rat) powi (a + b) = 2 powi a * 2 powi b"
  by (simp add: power_int_add)

lemma f64_exp_unique:
  assumes "2 powi k \<le> \<bar>x\<bar>" and "\<bar>x\<bar> < 2 powi (k + 1)"
  shows "f64_exp x = k"
proof -
  have "x \<noteq> 0" using assms(1) by (metis abs_zero not_le powi2_pos)
  note b = f64_exp_bounds [OF this]
  have "\<not> f64_exp x + 1 \<le> k"
    using powi2_mono [of "f64_exp x + 1" k] b(2) assms(1) by linarith
  moreover have "\<not> k + 1 \<le> f64_exp x"
    using powi2_mono [of "k + 1" "f64_exp x"] b(1) assms(2) by linarith
  ultimately show ?thesis by linarith
qed

lemma f64_exp_mono:
  assumes "0 < x" and "x \<le> y"
  shows "f64_exp x \<le> f64_exp y"
proof (rule ccontr)
  assume "\<not> f64_exp x \<le> f64_exp y"
  then have "f64_exp y + 1 \<le> f64_exp x" by simp
  from powi2_mono [OF this] f64_exp_bounds(1) [of x] f64_exp_bounds(2) [of y] assms
  show False by auto
qed

lemma f64_exp_minus [simp]: "f64_exp (- x) = f64_exp x"
  by (simp add: f64_exp_def)

text \<open>The unit in the last place of the binade of a value.\<close>

definition ulp :: "rat \<Rightarrow> rat" where
  "ulp x = 2 powi (f64_exp x - 52)"

lemma ulp_pos [simp]: "0 < ulp x"
  by (simp add: ulp_def)

lemma ulp_nonzero [simp]: "ulp x \<noteq> 0"
  using ulp_pos [of x] by linarith

lemma f64_round_ulp: "x \<noteq> 0 \<Longrightarrow> f64_round x = of_int (round_even (x / ulp x)) * ulp x"
  by (simp add: f64_round_def ulp_def Let_def)

lemma f64_round_0 [simp]: "f64_round 0 = 0"
  by (simp add: f64_round_def)

lemma f64_round_minus: "f64_round (- x) = - f64_round x"
  by (simp add: f64_round_def Let_def round_even_minus)

lemma ulp_scale:
  assumes "x \<noteq> 0"
  shows "2 ^ 52 \<le> \<bar>x\<bar> / ulp x" and "\<bar>x\<bar> / ulp x < 2 ^ 53"
proof -
  have lo: "2 powi f64_exp x = 2 ^ 52 * ulp x"
    using powi2_add [of 52 "f64_exp x - 52"] by (simp add: ulp_def)
  have hi: "2 powi (f64_exp x + 1) = 2 ^ 53 * ulp x"
    using powi2_add [of 53 "f64_exp x - 52"] by (simp add: ulp_def add.commute)
  show "2 ^ 52 \<le> \<bar>x\<bar> / ulp x"
    using f64_exp_bounds(1) [OF assms] by (simp add: lo pos_le_divide_eq)
  show "\<bar>x\<bar> / ulp x < 2 ^ 53"
    using f64_exp_bounds(2) [OF assms] by (simp add: hi pos_divide_less_eq)
qed

text \<open>Rounding error: at most half a unit in the last place.\<close>

lemma f64_round_error: "\<bar>f64_round x - x\<bar> \<le> ulp x / 2"
proof (cases "x = 0")
  case True
  then show ?thesis using ulp_pos [of x] by (simp del: ulp_pos)
next
  case False
  have "f64_round x - x = (of_int (round_even (x / ulp x)) - x / ulp x) * ulp x"
    using False by (simp add: f64_round_ulp algebra_simps)
  then have "\<bar>f64_round x - x\<bar> = \<bar>of_int (round_even (x / ulp x)) - x / ulp x\<bar> * ulp x"
    using ulp_pos [of x] by (simp add: abs_mult del: ulp_pos)
  also have "\<dots> \<le> 1 / 2 * ulp x"
    using round_even_error ulp_pos by (intro mult_right_mono) (auto intro: less_imp_le)
  finally show ?thesis by simp
qed

text \<open>A value with at most 53 significant bits is not changed.\<close>

lemma f64_round_exact:
  assumes "\<bar>m\<bar> \<le> 2 ^ 53"
  shows "f64_round (of_int m * 2 powi e) = of_int m * 2 powi e"
proof (cases "m = 0")
  case False
  let ?x = "of_int m * 2 powi e :: rat"
  have x0: "?x \<noteq> 0" using False by simp
  show ?thesis
  proof (cases "\<bar>m\<bar> = 2 ^ 53")
    case True
    have ax: "\<bar>?x\<bar> = 2 powi (53 + e)"
    proof -
      have "\<bar>?x\<bar> = of_int \<bar>m\<bar> * 2 powi e" by (simp add: abs_mult)
      then show ?thesis by (simp add: True powi2_add)
    qed
    have "f64_exp ?x = 53 + e"
      by (rule f64_exp_unique) (unfold ax, auto intro: powi2_strict_mono)
    then have u: "ulp ?x = 2 * 2 powi e"
      using powi2_add [of 1 e] by (simp add: ulp_def)
    have m: "of_int m = (of_int (2 * (m div 2)) :: rat)"
    proof -
      have "m = 2 ^ 53 \<or> m = - (2 ^ 53)" using True by (auto simp: abs_if split: if_splits)
      then show ?thesis by auto
    qed
    have "?x / ulp ?x = of_int (m div 2)"
      unfolding u by (subst m) simp
    then show ?thesis
      using f64_round_ulp [OF x0] by (metis nonzero_eq_divide_eq round_even_of_int ulp_nonzero)
  next
    case False
    with assms have lt: "\<bar>m\<bar> < 2 ^ 53" by simp
    have "\<bar>?x\<bar> < 2 powi (53 + e)"
    proof -
      have "\<bar>?x\<bar> = of_int \<bar>m\<bar> * 2 powi e" by (simp add: abs_mult)
      also have "\<dots> < 2 ^ 53 * 2 powi e"
        using lt by (intro mult_strict_right_mono) (simp_all only: of_int_less_numeral_power_cancel_iff powi2_pos)
      finally show ?thesis by (simp add: powi2_add)
    qed
    with f64_exp_bounds(1) [OF x0] have "(2::rat) powi (f64_exp ?x) < 2 powi (53 + e)" by linarith
    then have "f64_exp ?x < 53 + e"
      by (metis not_le powi2_mono leD)
    then have "0 \<le> e - (f64_exp ?x - 52)" by simp
    then obtain n where n: "e - (f64_exp ?x - 52) = int n"
      by (rule nonneg_int_cases)
    have "?x / ulp ?x = of_int (m * 2 ^ n)"
    proof -
      have "?x / ulp ?x = of_int m * 2 powi (e - (f64_exp ?x - 52))"
        by (simp add: ulp_def power_int_diff)
      then show ?thesis by (simp add: n)
    qed
    then show ?thesis
      using f64_round_ulp [OF x0] by (metis nonzero_eq_divide_eq round_even_of_int ulp_nonzero)
  qed
qed simp

text \<open>Rounding is monotone, so it preserves every comparison up to equality.\<close>

lemma f64_round_pos_mono:
  assumes x: "0 < x" and xy: "x \<le> y"
  shows "f64_round x \<le> f64_round y"
proof (cases "f64_exp x = f64_exp y")
  case True
  then have u: "ulp y = ulp x" by (simp add: ulp_def)
  have "round_even (x / ulp x) \<le> round_even (y / ulp x)"
    using xy by (intro round_even_mono divide_right_mono) (auto intro: less_imp_le)
  then show ?thesis
    using x xy by (auto simp: f64_round_ulp u intro!: mult_right_mono less_imp_le [OF ulp_pos])
next
  case False
  have y: "0 < y" using x xy by simp
  from False f64_exp_mono [OF x xy] have e: "f64_exp x + 1 \<le> f64_exp y" by simp
  have "f64_round x \<le> 2 ^ 53 * ulp x"
  proof -
    have "x / ulp x \<le> of_int (2 ^ 53)" using ulp_scale(2) [of x] x by simp
    then have "round_even (x / ulp x) \<le> 2 ^ 53"
      using round_even_mono round_even_of_int by metis
    then have "of_int (round_even (x / ulp x)) \<le> (2 ^ 53 :: rat)"
      by (metis of_int_le_numeral_power_cancel_iff)
    then show ?thesis
      using x by (simp add: f64_round_ulp mult_right_mono less_imp_le)
  qed
  also have "\<dots> = 2 powi (f64_exp x + 1)"
    using powi2_add [of 53 "f64_exp x - 52"] by (simp add: ulp_def add.commute)
  also have "\<dots> \<le> 2 powi (f64_exp y)" using e by (rule powi2_mono)
  also have "\<dots> = 2 ^ 52 * ulp y"
    using powi2_add [of 52 "f64_exp y - 52"] by (simp add: ulp_def)
  also have "\<dots> \<le> f64_round y"
  proof -
    have "of_int (2 ^ 52) \<le> y / ulp y" using ulp_scale(1) [of y] y by simp
    then have "2 ^ 52 \<le> round_even (y / ulp y)"
      using round_even_mono round_even_of_int by metis
    then have "(2 ^ 52 :: rat) \<le> of_int (round_even (y / ulp y))"
      by (metis numeral_power_le_of_int_cancel_iff)
    then show ?thesis
      using y by (simp add: f64_round_ulp mult_right_mono less_imp_le)
  qed
  finally show ?thesis .
qed

lemma f64_round_nonneg:
  assumes "0 \<le> x"
  shows "0 \<le> f64_round x"
proof (cases "x = 0")
  case False
  have "0 \<le> x / ulp x" using assms less_imp_le [OF ulp_pos] by (rule divide_nonneg_nonneg)
  then have "0 \<le> round_even (x / ulp x)" using round_even_mono round_even_0 by metis
  with False show ?thesis by (simp add: f64_round_ulp less_imp_le)
qed simp

lemma f64_round_mono:
  assumes "x \<le> y"
  shows "f64_round x \<le> f64_round y"
proof -
  consider "0 < x" | "x \<le> 0" "0 \<le> y" | "y < 0" by linarith
  then show ?thesis
  proof cases
    case 1
    then show ?thesis using assms by (rule f64_round_pos_mono)
  next
    case 2
    have "0 \<le> f64_round (- x)" using 2 by (intro f64_round_nonneg) simp
    then show ?thesis using f64_round_nonneg [OF 2(2)] by (simp add: f64_round_minus)
  next
    case 3
    have "f64_round (- y) \<le> f64_round (- x)"
      using 3 assms by (intro f64_round_pos_mono) simp_all
    then show ?thesis by (simp add: f64_round_minus)
  qed
qed

lemma f64_round_of_int: "\<bar>n\<bar> \<le> 2 ^ 53 \<Longrightarrow> f64_round (of_int n) = of_int n"
  using f64_round_exact [of n 0] by simp

lemma powi2_neg: "(2 :: rat) powi (- int k) = 1 / 2 ^ k"
  by (simp add: power_int_minus inverse_eq_divide)

lemma f64_round_dyadic: "\<bar>n\<bar> \<le> 2 ^ 53 \<Longrightarrow> f64_round (of_int n / 2 ^ k) = of_int n / 2 ^ k"
  using f64_round_exact [of n "- int k"] by (simp only: powi2_neg times_divide_eq_right mult_1_right)

lemma f64_round_1 [simp]: "f64_round 1 = 1"
  using f64_round_of_int [of 1] by simp


text \<open>The operations of the code, each rounding the exact result once.\<close>

definition f64_of_int :: "int \<Rightarrow> rat" where
  "f64_of_int n = f64_round (of_int n)"

definition f64_add :: "rat \<Rightarrow> rat \<Rightarrow> rat" where
  "f64_add x y = f64_round (x + y)"

definition f64_mul :: "rat \<Rightarrow> rat \<Rightarrow> rat" where
  "f64_mul x y = f64_round (x * y)"

definition f64_div :: "rat \<Rightarrow> rat \<Rightarrow> rat" where
  "f64_div x y = f64_round (x / y)"

lemma f64_of_int_exact [simp]: "\<bar>n\<bar> \<le> 2 ^ 53 \<Longrightarrow> f64_of_int n = of_int n"
  by (simp add: f64_of_int_def f64_round_of_int del: abs_le_iff)

lemma f64_three_halves_third:
  assumes S: "6 \<le> S" "S \<le> 2 ^ 51"
  shows "f64_round (3 / 2 * f64_round (of_int S / 3)) = of_int S / 2"
proof -
  define x where "x = (of_int S / 3 :: rat)"
  define e where "e = f64_exp x"
  define j where "j = nat (50 - e)"
  define k where "k = round_even (x / ulp x)"
  have x0: "x \<noteq> 0" "0 < x" using S by (simp_all add: x_def)
  have "of_int S \<le> (2 ^ 51 :: rat)" using S(2) by (metis of_int_le_numeral_power_cancel_iff)
  then have "x < 2 powi 51" using x0 by (simp add: x_def)
  then have "(2 :: rat) powi e < 2 powi 51"
    using f64_exp_bounds(1) [OF x0(1)] x0 by (simp add: e_def)
  then have "\<not> 51 \<le> e" using powi2_mono leD by blast
  then have e50: "e \<le> 50" by simp
  have u: "ulp x = 1 / 2 ^ (j + 2)"
  proof -
    have "e - 52 = - int (j + 2)" using e50 by (simp add: j_def)
    then show ?thesis by (simp only: ulp_def powi2_neg flip: e_def)
  qed
  have r: "f64_round x = of_int k / 2 ^ (j + 2)"
    using f64_round_ulp [OF x0(1)] by (simp add: k_def u)
  define d where "d = 3 * k - S * 2 ^ (j + 2)"
  have xu: "x / ulp x = of_int (S * 2 ^ (j + 2)) / 3"
    unfolding u by (simp add: x_def)
  have "\<bar>of_int k - of_int (S * 2 ^ (j + 2)) / 3\<bar> \<le> (1 / 2 :: rat)"
    unfolding k_def xu [symmetric] by (rule round_even_error)
  then have "\<bar>of_int d :: rat\<bar> \<le> 3 / 2"
    unfolding d_def of_int_diff of_int_mult [of 3] by (simp only: abs_le_iff of_int_numeral) linarith
  then have "\<bar>d\<bar> \<le> 1" by linarith
  then have d: "d = - 1 \<or> d = 0 \<or> d = 1" by linarith
  define y where "y = (3 / 2 * f64_round x :: rat)"
  have y: "y / ulp x = of_int (S * 2 ^ (j + 1)) + of_int d / 2"
    by (simp add: y_def r u d_def field_simps)
  have kb: "2 ^ 52 \<le> k" "k \<le> 2 ^ 53"
  proof -
    have "of_int (2 ^ 52) \<le> x / ulp x" and "x / ulp x \<le> of_int (2 ^ 53)"
      using ulp_scale [OF x0(1)] x0(2) by simp_all
    then show "2 ^ 52 \<le> k" and "k \<le> 2 ^ 53"
      unfolding k_def using round_even_mono round_even_of_int by metis+
  qed
  have ky: "y = of_int (3 * k) * (ulp x / 2)" by (simp add: y_def r u)
  have p52: "2 ^ 52 * ulp x = 2 powi e" and p54: "2 ^ 54 * ulp x = 2 powi (e + 2)"
    using powi2_add [of 52 "e - 52"] powi2_add [of 54 "e - 52"]
    by (simp_all add: ulp_def e_def add.commute)
  have kr: "(2 ^ 52 :: rat) \<le> of_int k" "of_int k \<le> (2 ^ 53 :: rat)"
    using kb by (metis numeral_power_le_of_int_cancel_iff) (metis kb(2) of_int_le_numeral_power_cancel_iff)
  have lo: "2 powi e \<le> y"
    unfolding p52 [symmetric] ky using kr(1) by (auto simp: mult_ac intro!: mult_mono less_imp_le [OF ulp_pos])
  have hi: "y < 2 powi (e + 2)"
    unfolding p54 [symmetric] ky using kr(2) ulp_pos [of x] by (simp add: field_simps)
  have "0 < y" using lo powi2_pos less_le_trans by blast
  with lo hi have yb: "2 powi e \<le> \<bar>y\<bar>" "\<bar>y\<bar> < 2 powi (e + 2)"
    by simp_all
  have y0: "y \<noteq> 0" using yb(1) by (metis abs_zero not_le powi2_pos)
  consider (low) "\<bar>y\<bar> < 2 powi (e + 1)" | (up) "2 powi (e + 1) \<le> \<bar>y\<bar>" by linarith
  then have "f64_round y = of_int S / 2"
  proof cases
    case low
    then have uy: "ulp y = ulp x"
      using f64_exp_unique [OF yb(1)] by (simp add: ulp_def e_def)
    have "round_even (y / ulp x) = S * 2 ^ (j + 1)"
      using d by (intro round_even_tie) (auto simp: y)
    then show ?thesis
      using f64_round_ulp [OF y0] by (simp add: uy u)
  next
    case up
    then have "f64_exp y = e + 1"
      using yb(2) by (intro f64_exp_unique) (simp_all add: add.assoc)
    then have uy: "ulp y = 2 * ulp x"
      using powi2_add [of 1 "e - 52"] by (simp add: ulp_def e_def algebra_simps)
    have "y / ulp y = of_int (S * 2 ^ j) + of_int d / 4"
      using y by (simp add: uy field_simps)
    then have "round_even (y / ulp y) = S * 2 ^ j"
      using d by (intro round_even_near) auto
    then show ?thesis
      using f64_round_ulp [OF y0] by (simp add: uy u)
  qed
  then show ?thesis by (simp add: y_def x_def)
qed

lemma f64_round_halve: "f64_round (f64_round x / 2) = f64_round x / 2"
proof (cases "x = 0")
  case False
  have "\<bar>x / ulp x\<bar> < 2 ^ 53"
    using ulp_scale(2) [OF False] abs_of_pos [OF ulp_pos] by (simp add: abs_divide)
  then have "x / ulp x \<le> of_int (2 ^ 53)" and "of_int (- (2 ^ 53)) \<le> x / ulp x"
    unfolding abs_less_iff by auto
  then have "round_even (x / ulp x) \<le> 2 ^ 53" and "- (2 ^ 53) \<le> round_even (x / ulp x)"
    using round_even_mono round_even_of_int by metis+
  then have "\<bar>round_even (x / ulp x)\<bar> \<le> 2 ^ 53" by (simp add: abs_le_iff)
  from f64_round_exact [OF this, of "f64_exp x - 52 - 1"] show ?thesis
    using False by (simp add: f64_round_ulp ulp_def power_int_diff)
qed simp

lemma of_int_less_between:
  fixes b :: rat
  assumes "of_int c < b" and "b \<le> of_int c + 1"
  shows "of_int m < b \<longleftrightarrow> m \<le> c"
proof
  assume "of_int m < b"
  with assms(2) have "of_int m < (of_int (c + 1) :: rat)" by simp
  then show "m \<le> c" by (simp only: of_int_less_iff)
next
  assume "m \<le> c"
  then have "of_int m \<le> (of_int c :: rat)" by simp
  with assms(1) show "of_int m < b" by simp
qed

end
