(* ===== verification/Std_Time.thy ===== *)
theory Std_Time
  imports Float64 Prelude
begin

text \<open>
  The parts of \<open>std::time::Duration\<close> the program uses. A duration is its number of nanoseconds;
  \<open>as_micros\<close>, \<open>as_millis\<close> and the casts of their results truncate. \<open>from_secs_f64\<close> rounds the
  binary64 number of seconds to the nearest nanosecond and panics (\<open>None\<close>) on a negative value or
  one of at least \<open>2 ^ 64\<close> seconds.
\<close>

type_synonym duration = nat

definition from_secs :: "u64 \<Rightarrow> duration" where
  "from_secs s = unat s * 1000000000"

definition from_millis :: "u64 \<Rightarrow> duration" where
  "from_millis ms = unat ms * 1000000"

definition from_micros :: "u64 \<Rightarrow> duration" where
  "from_micros us = unat us * 1000"

definition as_micros :: "duration \<Rightarrow> nat" where
  "as_micros d = d div 1000"

definition as_millis :: "duration \<Rightarrow> nat" where
  "as_millis d = d div 1000000"

definition as_nanos :: "duration \<Rightarrow> nat" where
  "as_nanos d = d"

definition from_secs_f64 :: "rat \<Rightarrow> duration option" where
  "from_secs_f64 x =
     (let n = round_even (x * 1000000000)
      in if x < 0 \<or> 2 ^ 64 * 1000000000 \<le> n then None else Some (nat n))"

named_theorems duration_model "unfolding durations given in seconds, milliseconds and microseconds"

declare from_secs_def [duration_model] from_millis_def [duration_model] from_micros_def [duration_model]
  as_micros_def [duration_model] as_millis_def [duration_model] as_nanos_def [duration_model]

end
