(* ===== verification/Status_Table.thy ===== *)
theory Status_Table
  imports Prelude
begin

text \<open>
  The Worker Status Table of \<open>hermes/src/wst.rs\<close>: one slot of three \<open>AtomicI64\<close> metrics per worker, the
  snapshot the scheduler takes of it, and the atomic updates the workers apply to their own
  slot. The padding to a cache line has no behaviour and is left out. Indexing
  \<open>slots[worker_id]\<close> beyond the table panics; \<open>wst_slot\<close> is \<open>None\<close> there.
\<close>

section \<open>Slots and snapshots\<close>

record worker_slot =
  last_loop_entry :: i64
  pending_events :: i64
  accumulated_conns :: i64

record worker_snapshot =
  snap_last_loop_entry :: i64
  snap_pending_events :: i64
  snap_accumulated_conns :: i64

record wst =
  slots :: "worker_slot list"

definition worker_slot_new :: worker_slot where
  "worker_slot_new = \<lparr>last_loop_entry = 0, pending_events = 0, accumulated_conns = 0\<rparr>"

definition slot_snapshot :: "worker_slot \<Rightarrow> worker_snapshot" where
  "slot_snapshot s =
     \<lparr>snap_last_loop_entry = last_loop_entry s,
      snap_pending_events = pending_events s,
      snap_accumulated_conns = accumulated_conns s\<rparr>"

definition wst_slot :: "wst \<Rightarrow> nat \<Rightarrow> worker_slot option" where
  "wst_slot w i = (if i < length (slots w) then Some (slots w ! i) else None)"

definition snapshot_all :: "wst \<Rightarrow> worker_snapshot list" where
  "snapshot_all w = map (\<lambda>i. slot_snapshot (slots w ! i)) [0..<NUM_WORKERS]"

text \<open>A fresh table is a zero-filled mapping; \<open>mmap\<close> may fail, which panics.\<close>

datatype map_error = MmapFailed

definition mmap_wst :: "bool \<Rightarrow> map_error + wst" where
  "mmap_wst map_failed =
     (if map_failed then Inl MmapFailed
      else Inr \<lparr>slots = replicate NUM_WORKERS
        \<lparr>last_loop_entry = 0, pending_events = 0, accumulated_conns = 0\<rparr>\<rparr>)"

text \<open>\<open>clock_gettime\<close> fills the two fields of a \<open>timespec\<close>.\<close>

definition now_monotonic_ns :: "i64 \<Rightarrow> i64 \<Rightarrow> i64" where
  "now_monotonic_ns tv_sec tv_nsec = tv_sec * 1000000000 + tv_nsec"

section \<open>A snapshot, load by load\<close>

text \<open>\<open>snapshot_all\<close> loads the three atomics of every slot in order, slot after slot.\<close>

definition load_nth :: "wst \<Rightarrow> nat \<Rightarrow> i64" where
  "load_nth w k =
     (let s = slots w ! (k div 3)
      in if k mod 3 = 0 then last_loop_entry s
         else if k mod 3 = 1 then pending_events s else accumulated_conns s)"

definition SNAPSHOT_LOADS :: nat where
  "SNAPSHOT_LOADS = 3 * NUM_WORKERS"

definition assemble :: "i64 list \<Rightarrow> worker_snapshot list" where
  "assemble vs = map (\<lambda>i. \<lparr>snap_last_loop_entry = vs ! (3 * i), snap_pending_events = vs ! (3 * i + 1),
     snap_accumulated_conns = vs ! (3 * i + 2)\<rparr>) [0..<NUM_WORKERS]"

definition loads :: "wst \<Rightarrow> nat \<Rightarrow> i64 list" where
  "loads w k = map (load_nth w) [0..<k]"

lemma loads_simps [simp]: "loads w 0 = []" "length (loads w k) = k" "loads w k @ [load_nth w k] = loads w (Suc k)"
  by (simp_all add: loads_def)

lemma nth_assemble:
  "j < NUM_WORKERS \<Longrightarrow> assemble vs ! j = \<lparr>snap_last_loop_entry = vs ! (3 * j), snap_pending_events = vs ! (3 * j + 1),
     snap_accumulated_conns = vs ! (3 * j + 2)\<rparr>"
  by (simp add: assemble_def)

lemma assemble_index:
  "j < NUM_WORKERS \<Longrightarrow> 3 * j < SNAPSHOT_LOADS \<and> Suc (3 * j) < SNAPSHOT_LOADS \<and> Suc (Suc (3 * j)) < SNAPSHOT_LOADS"
  by (simp add: SNAPSHOT_LOADS_def)

lemma div_mod_index:
  "(3 * j) div 3 = j" "Suc (3 * j) div 3 = j" "Suc (Suc (3 * j)) div 3 = j"
  "(3 * j) mod 3 = 0" "Suc (3 * j) mod 3 = 1" "Suc (Suc (3 * j)) mod 3 = 2" for j :: nat
  by presburger+

text \<open>Loads that nothing disturbs give the snapshot of the table.\<close>

lemma assemble_loads: "assemble (loads w SNAPSHOT_LOADS) = snapshot_all w"
  unfolding snapshot_all_def assemble_def
  by (intro map_cong [OF refl])
    (simp add: loads_def assemble_index slot_snapshot_def load_nth_def div_mod_index)

section \<open>Atomic updates of one slot\<close>

definition wst_ok :: "wst \<Rightarrow> bool" where
  "wst_ok w \<longleftrightarrow> length (slots w) = NUM_WORKERS"

definition upd_slot :: "nat \<Rightarrow> (worker_slot \<Rightarrow> worker_slot) \<Rightarrow> wst \<Rightarrow> wst" where
  "upd_slot i f w = w\<lparr>slots := (slots w)[i := f (slots w ! i)]\<rparr>"

definition store_loop_entry :: "i64 \<Rightarrow> worker_slot \<Rightarrow> worker_slot" where
  "store_loop_entry t s = s\<lparr>last_loop_entry := t\<rparr>"

definition add_pending :: "i64 \<Rightarrow> worker_slot \<Rightarrow> worker_slot" where
  "add_pending n s = s\<lparr>pending_events := pending_events s + n\<rparr>"

definition sub_pending :: "i64 \<Rightarrow> worker_slot \<Rightarrow> worker_slot" where
  "sub_pending n s = s\<lparr>pending_events := pending_events s - n\<rparr>"

definition add_conns :: "i64 \<Rightarrow> worker_slot \<Rightarrow> worker_slot" where
  "add_conns n s = s\<lparr>accumulated_conns := accumulated_conns s + n\<rparr>"

definition sub_conns :: "i64 \<Rightarrow> worker_slot \<Rightarrow> worker_slot" where
  "sub_conns n s = s\<lparr>accumulated_conns := accumulated_conns s - n\<rparr>"

lemmas slot_op_defs = store_loop_entry_def add_pending_def sub_pending_def add_conns_def sub_conns_def

lemma wst_ok_upd_slot [simp, intro]: "wst_ok w \<Longrightarrow> wst_ok (upd_slot i f w)"
  by (simp add: wst_ok_def upd_slot_def)

lemma length_snapshot_all [simp]: "length (snapshot_all w) = NUM_WORKERS"
  by (simp add: snapshot_all_def)

lemma nth_snapshot_all: "i < NUM_WORKERS \<Longrightarrow> snapshot_all w ! i = slot_snapshot (slots w ! i)"
  by (simp add: snapshot_all_def)

lemma wst_slot_upd:
  "wst_slot (upd_slot i f w) j = (if i = j then map_option f (wst_slot w j) else wst_slot w j)"
  by (auto simp: wst_slot_def upd_slot_def)

lemma sint_now_monotonic_ns:
  assumes "0 \<le> sint tv_sec" and "sint tv_sec < 2 ^ 33"
    and "0 \<le> sint tv_nsec" and "sint tv_nsec < 1000000000"
  shows "sint (now_monotonic_ns tv_sec tv_nsec) = sint tv_sec * 1000000000 + sint tv_nsec"
  using assms by (simp add: now_monotonic_ns_def word_model)

end
