(* ===== verification/Load_Filter.thy ===== *)
theory Load_Filter
  imports Prelude Float64
begin

text \<open>
  \<open>filter_below_baseline\<close> of \<open>hermes/src/scheduler.rs\<close>: keep the candidates whose metric is
  below the average plus a margin, computed in \<open>f64\<close>. The main lemma is that for the at most
  four candidates of the program, and loads up to \<open>2 ^ 51\<close>, the floating-point comparison
  decides exactly as the comparison over the rationals does, in spite of the rounded
  division by three.
\<close>

section \<open>The filter\<close>

definition THETA_RATIO :: rat where
  "THETA_RATIO = 1 / 2"

definition THETA_MIN :: rat where
  "THETA_MIN = 1"

definition filter_below_baseline :: "nat list \<Rightarrow> (nat \<Rightarrow> i64) \<Rightarrow> nat list" where
  "filter_below_baseline candidates metric =
     (if candidates = [] then []
      else let sum = sum_list (map metric candidates);
               avg = f64_div (f64_of_int (sint sum)) (f64_of_int (int (length candidates)));
               theta = max (f64_mul THETA_RATIO avg) THETA_MIN;
               baseline = f64_add avg theta
           in filter (\<lambda>i. f64_of_int (sint (metric i)) < baseline) candidates)"

section \<open>The filter over exact rationals\<close>

definition load_sum :: "(nat \<Rightarrow> i64) \<Rightarrow> nat list \<Rightarrow> int" where
  "load_sum metric xs = sum_list (map (\<lambda>i. sint (metric i)) xs)"

definition loads_ok :: "(nat \<Rightarrow> i64) \<Rightarrow> nat list \<Rightarrow> bool" where
  "loads_ok metric xs \<longleftrightarrow> (\<forall>i\<in>set xs. 0 \<le> sint (metric i)) \<and> load_sum metric xs \<le> 2 ^ 51"

definition exact_baseline :: "(nat \<Rightarrow> i64) \<Rightarrow> nat list \<Rightarrow> rat" where
  "exact_baseline metric xs =
     (let avg = of_int (load_sum metric xs) / of_int (int (length xs))
      in avg + max (THETA_RATIO * avg) THETA_MIN)"

definition within_margin :: "(nat \<Rightarrow> i64) \<Rightarrow> nat list \<Rightarrow> nat \<Rightarrow> bool" where
  "within_margin metric xs i \<longleftrightarrow> of_int (sint (metric i)) < exact_baseline metric xs"

section \<open>The sum of the loads does not overflow\<close>

lemma load_sum_Cons [simp]: "load_sum metric (x # xs) = sint (metric x) + load_sum metric xs"
  by (simp add: load_sum_def)

lemma load_sum_Nil [simp]: "load_sum metric [] = 0"
  by (simp add: load_sum_def)

lemma load_sum_nonneg: "\<forall>i\<in>set xs. 0 \<le> sint (metric i) \<Longrightarrow> 0 \<le> load_sum metric xs"
  by (induction xs) auto

lemma sint_plus_small:
  fixes a b :: i64
  assumes "0 \<le> sint a" and "0 \<le> sint b" and "sint a + sint b < 2 ^ 63"
  shows "sint (a + b) = sint a + sint b"
  using assms by (simp add: word_model)

lemma sint_sum_list:
  "\<forall>i\<in>set xs. 0 \<le> sint (metric i) \<Longrightarrow> load_sum metric xs < 2 ^ 63 \<Longrightarrow>
    sint (sum_list (map metric xs)) = load_sum metric xs"
proof (induction xs)
  case (Cons x xs)
  then have "sint (sum_list (map metric xs)) = load_sum metric xs" by simp
  with Cons.prems load_sum_nonneg [of xs metric] show ?case
    by (simp add: sint_plus_small)
qed simp

lemma load_le_sum:
  assumes "\<forall>i\<in>set xs. 0 \<le> sint (metric i)" and "i \<in> set xs"
  shows "sint (metric i) \<le> load_sum metric xs"
  using assms
proof (induction xs)
  case (Cons x xs)
  then show ?case using load_sum_nonneg [of xs metric] by auto
qed simp

section \<open>The rounded baseline\<close>

text \<open>The baseline as the code computes it from the sum and the number of candidates.\<close>

definition load_baseline :: "int \<Rightarrow> int \<Rightarrow> rat" where
  "load_baseline s n =
     (let avg = f64_div (f64_of_int s) (f64_of_int n)
      in f64_add avg (max (f64_mul THETA_RATIO avg) THETA_MIN))"

lemma load_baseline_pow2:
  assumes "0 \<le> s" and "s \<le> 2 ^ 51" and "k \<le> 2"
  shows "load_baseline s (2 ^ k) = of_int (2 * s + max s (2 * 2 ^ k)) / 2 ^ Suc k"
proof -
  have "(2 ^ k :: int) \<le> 2 ^ 2" using assms(3) by (intro power_increasing) simp_all
  then have k: "(2 ^ k :: int) \<le> 4" by simp
  have n: "f64_of_int (2 ^ k) = 2 ^ k" using k by simp
  have avg: "f64_div (f64_of_int s) (f64_of_int (2 ^ k)) = of_int s / 2 ^ k"
    using assms f64_round_dyadic [of s k] unfolding n by (simp add: f64_div_def)
  have th: "f64_mul THETA_RATIO (of_int s / 2 ^ k) = of_int s / 2 ^ Suc k"
    using assms f64_round_dyadic [of s "Suc k"] by (simp add: f64_mul_def THETA_RATIO_def)
  have mx: "max (of_int s / 2 ^ Suc k) (1 :: rat) = of_int (max s (2 * 2 ^ k)) / 2 ^ Suc k"
    by (simp add: max_def le_divide_eq flip: of_int_le_iff [where 'a = rat])
  have sum: "of_int s / 2 ^ k + of_int (max s (2 * 2 ^ k)) / 2 ^ Suc k
      = (of_int (2 * s + max s (2 * 2 ^ k)) / 2 ^ Suc k :: rat)"
    by (simp add: field_simps)
  have "\<bar>2 * s + max s (2 * 2 ^ k)\<bar> \<le> 2 ^ 53" using assms k by auto
  from f64_round_dyadic [OF this, of "Suc k"] show ?thesis
    by (simp only: load_baseline_def Let_def avg th THETA_MIN_def mx f64_add_def sum)
qed

lemma load_baseline_three_big:
  assumes "6 \<le> s" and "s \<le> 2 ^ 51"
  shows "load_baseline s 3 = of_int s / 2"
proof -
  define a where "a = f64_round (of_int s / 3)"
  have avg: "f64_div (f64_of_int s) (f64_of_int 3) = a"
    using assms by (simp add: f64_div_def a_def)
  have th: "f64_mul THETA_RATIO a = a / 2"
    using f64_round_halve by (simp add: f64_mul_def THETA_RATIO_def a_def)
  have "f64_round (of_int 2) \<le> a"
    unfolding a_def using assms by (intro f64_round_mono) simp
  then have "2 \<le> a" using f64_round_of_int [of 2] by simp
  then have mx: "a + max (a / 2) 1 = 3 / 2 * a" by simp
  show ?thesis
    unfolding load_baseline_def Let_def avg th THETA_MIN_def f64_add_def mx
    unfolding a_def using assms by (rule f64_three_halves_third)
qed

lemma f64_round_quarters:
  assumes "of_int lo / 4 \<le> x" and "x \<le> of_int hi / 4" and "0 \<le> lo" and "hi \<le> 12"
  shows "of_int lo / 4 \<le> f64_round x" and "f64_round x \<le> of_int hi / 4"
proof -
  have "of_int lo \<le> (of_int hi :: rat)" using assms(1,2) by linarith
  then have "lo \<le> hi" by simp
  then have lo: "\<bar>lo\<bar> \<le> 2 ^ 53" and hi: "\<bar>hi\<bar> \<le> 2 ^ 53" using assms(3,4) by simp_all
  show "of_int lo / 4 \<le> f64_round x"
    using f64_round_mono [OF assms(1)] f64_round_dyadic [OF lo, of 2] by simp
  show "f64_round x \<le> of_int hi / 4"
    using f64_round_mono [OF assms(2)] f64_round_dyadic [OF hi, of 2] by simp
qed

lemma load_baseline_three_small:
  assumes "3 * lo \<le> 4 * s" and "4 * s \<le> 3 * hi" and "0 \<le> lo" and "hi \<le> 8"
  shows "of_int (lo + 4) / 4 \<le> load_baseline s 3" and "load_baseline s 3 \<le> of_int (hi + 4) / 4"
proof -
  define a where "a = f64_round (of_int s / 3)"
  have s: "0 \<le> s" "s \<le> 6" using assms by simp_all
  have avg: "f64_div (f64_of_int s) (f64_of_int 3) = a"
    using s by (simp add: f64_div_def a_def)
  have th: "f64_mul THETA_RATIO a = a / 2"
    using f64_round_halve by (simp add: f64_mul_def THETA_RATIO_def a_def)
  have "of_int (3 * lo) \<le> (of_int (4 * s) :: rat)" and "of_int (4 * s) \<le> (of_int (3 * hi) :: rat)"
    using assms(1,2) by (simp_all only: of_int_le_iff)
  then have x: "of_int lo / 4 \<le> (of_int s / 3 :: rat)" "of_int s / 3 \<le> (of_int hi / 4 :: rat)"
    by simp_all
  have hi: "of_int hi \<le> (8 :: rat)" using assms(4) by simp
  have a: "of_int lo / 4 \<le> a" "a \<le> of_int hi / 4"
    unfolding a_def using f64_round_quarters [OF x] assms(3,4) by simp_all
  then have "max (a / 2) 1 = (1 :: rat)" using hi by simp
  then have b: "load_baseline s 3 = f64_round (a + 1)"
    by (simp only: load_baseline_def Let_def avg th THETA_MIN_def f64_add_def)
  have y: "of_int (lo + 4) / 4 \<le> a + 1" "a + 1 \<le> of_int (hi + 4) / 4"
    using a by simp_all
  then show "of_int (lo + 4) / 4 \<le> load_baseline s 3" and "load_baseline s 3 \<le> of_int (hi + 4) / 4"
    unfolding b using f64_round_quarters [OF y] assms(3,4) by simp_all
qed

lemma below_load_baseline:
  assumes s: "0 \<le> s" "s \<le> 2 ^ 51" and n: "n \<in> {1, 2, 3, 4}"
  shows "of_int m < load_baseline s n \<longleftrightarrow> 2 * n * m < 2 * s + max s (2 * n)"
proof -
  consider k where "n = 2 ^ k" "k \<le> 2" | "n = 3" "6 \<le> s" | "n = 3" "s = 0"
    | "n = 3" "s = 3" | "n = 3" "s \<in> {1, 2}" | "n = 3" "s \<in> {4, 5}"
  proof -
    have "n = 3 \<or> (\<exists>k \<le> 2. n = 2 ^ k)"
      using n by (auto intro: exI [of _ 0] exI [of _ 1] exI [of _ 2])
    moreover have "s = 0 \<or> s = 3 \<or> s \<in> {1, 2} \<or> s \<in> {4, 5} \<or> 6 \<le> s" using s by auto
    ultimately show ?thesis using that by blast
  qed
  then show ?thesis
  proof cases
    case 1
    have "of_int m < load_baseline s n \<longleftrightarrow>
        of_int (2 * n * m) < (of_int (2 * s + max s (2 * n)) :: rat)"
      using load_baseline_pow2 [OF s 1(2)] 1(1) by (simp add: pos_less_divide_eq mult_ac)
    then show ?thesis by (simp only: of_int_less_iff)
  next
    case 2
    have b: "load_baseline s n = of_int s / 2"
      unfolding 2(1) using 2(2) s(2) by (rule load_baseline_three_big)
    have "of_int m < load_baseline s n \<longleftrightarrow> of_int (2 * m) < (of_int s :: rat)"
      unfolding b by (simp add: pos_less_divide_eq mult_ac)
    then show ?thesis using 2 by (simp only: of_int_less_iff) simp
  next
    case 3
    then have "load_baseline s n = of_int 1" using load_baseline_three_small [of 0 0 0] by simp
    then show ?thesis using 3 by (simp only: of_int_less_iff) simp
  next
    case 4
    then have "load_baseline s n = of_int 2" using load_baseline_three_small [of 4 3 4] by simp
    then show ?thesis using 4 by (simp only: of_int_less_iff) simp
  next
    case 5
    then have "of_int m < load_baseline s n \<longleftrightarrow> m \<le> 1"
      using load_baseline_three_small [of 1 s 4] by (intro of_int_less_between) auto
    then show ?thesis using 5 by auto
  next
    case 6
    then have "of_int m < load_baseline s n \<longleftrightarrow> m \<le> 2"
      using load_baseline_three_small [of 5 s 8] by (intro of_int_less_between) auto
    then show ?thesis using 6 by auto
  qed
qed

section \<open>The float filter is the exact filter\<close>

lemma margin_fraction:
  fixes p q :: rat
  assumes "0 < q"
  shows "p / q + max (1 / 2 * (p / q)) 1 = (2 * p + max p (2 * q)) / (2 * q)"
  using assms by (auto simp: max_def field_simps)

lemma within_margin_int:
  assumes "xs \<noteq> []"
  shows "within_margin metric xs i \<longleftrightarrow>
    2 * int (length xs) * sint (metric i)
      < 2 * load_sum metric xs + max (load_sum metric xs) (2 * int (length xs))"
proof -
  define n where "n = int (length xs)"
  define s where "s = load_sum metric xs"
  have n: "0 < (of_int n :: rat)" using assms by (simp add: n_def)
  have mx: "max (of_int s) (2 * of_int n) = (of_int (max s (2 * n)) :: rat)"
    by (simp add: of_int_max)
  have "exact_baseline metric xs = (2 * of_int s + max (of_int s) (2 * of_int n)) / (2 * of_int n)"
    unfolding exact_baseline_def Let_def THETA_RATIO_def THETA_MIN_def n_def [symmetric] s_def [symmetric] using n by (rule margin_fraction)
  also have "\<dots> = of_int (2 * s + max s (2 * n)) / of_int (2 * n)"
    by (simp add: mx)
  finally have eb: "exact_baseline metric xs = of_int (2 * s + max s (2 * n)) / of_int (2 * n)" .
  have "(0 :: rat) < of_int (2 * n)" using n by simp
  then have "within_margin metric xs i \<longleftrightarrow>
      of_int (sint (metric i)) * of_int (2 * n) < (of_int (2 * s + max s (2 * n)) :: rat)"
    by (simp only: within_margin_def eb pos_less_divide_eq)
  also have "\<dots> \<longleftrightarrow> sint (metric i) * (2 * n) < 2 * s + max s (2 * n)"
    by (simp only: of_int_mult [symmetric] of_int_less_iff)
  finally show ?thesis by (simp add: n_def s_def mult_ac)
qed

lemma filter_below_baseline_eq:
  "xs \<noteq> [] \<Longrightarrow> filter_below_baseline xs metric =
    filter (\<lambda>i. f64_of_int (sint (metric i)) <
      load_baseline (sint (sum_list (map metric xs))) (int (length xs))) xs"
  by (simp add: filter_below_baseline_def load_baseline_def Let_def)

lemma loads_ok_le: "loads_ok metric xs \<Longrightarrow> i \<in> set xs \<Longrightarrow> sint (metric i) \<le> 2 ^ 51"
  using load_le_sum [of xs metric i] by (force simp: loads_ok_def)

lemma filter_below_baseline_exact:
  assumes ok: "loads_ok metric xs" and len: "length xs \<le> NUM_WORKERS"
  shows "filter_below_baseline xs metric = filter (within_margin metric xs) xs"
proof (cases "xs = []")
  case False
  have n: "int (length xs) \<in> {1, 2, 3, 4}"
    using False len by (cases "length xs") (auto simp: NUM_WORKERS_def)
  have s: "0 \<le> load_sum metric xs" "load_sum metric xs \<le> 2 ^ 51"
    using ok load_sum_nonneg by (auto simp: loads_ok_def)
  have sum: "sint (sum_list (map metric xs)) = load_sum metric xs"
    using ok s by (intro sint_sum_list) (auto simp: loads_ok_def)
  have "f64_of_int (sint (metric i)) < load_baseline (load_sum metric xs) (int (length xs))
      \<longleftrightarrow> within_margin metric xs i" if "i \<in> set xs" for i
  proof -
    have "f64_of_int (sint (metric i)) = of_int (sint (metric i))"
      using ok that loads_ok_le [OF ok that] by (simp add: loads_ok_def)
    then show ?thesis
      by (simp only: below_load_baseline [OF s n] within_margin_int [OF False])
  qed
  then show ?thesis
    using False by (auto simp: filter_below_baseline_eq sum intro: filter_cong)
qed (simp add: filter_below_baseline_def)

section \<open>Consequences for the candidates\<close>

lemma loads_ok_subseq:
  assumes "subseq ys xs" and "loads_ok metric xs"
  shows "loads_ok metric ys"
proof -
  have "load_sum metric ys \<le> load_sum metric xs \<and> 0 \<le> load_sum metric ys"
    if "\<forall>i\<in>set xs. 0 \<le> sint (metric i)" using assms(1) that
  proof (induction rule: list_emb.induct)
    case (list_emb_Nil ys)
    then show ?case using load_sum_nonneg by auto
  qed auto
  moreover have "set ys \<subseteq> set xs"
    using assms(1) by (metis subseq_conv_nths set_nths_subset)
  ultimately show ?thesis using assms(2) by (auto simp: loads_ok_def)
qed

lemma lightest_within_margin:
  assumes "loads_ok metric xs" and "xs \<noteq> []"
  shows "filter (within_margin metric xs) xs \<noteq> []"
proof -
  obtain i where i: "i \<in> set xs" "\<forall>j\<in>set xs. sint (metric i) \<le> sint (metric j)"
    using assms(2) arg_min_if_finite [of "set xs" "\<lambda>i. sint (metric i)"]
    by (metis (mono_tags, lifting) List.finite_set linorder_le_less_linear set_empty)
  have "int (length ys) * sint (metric i) \<le> load_sum metric ys" if "set ys \<subseteq> set xs" for ys
    using that by (induction ys) (use i(2) in \<open>auto simp: algebra_simps intro: add_mono\<close>)
  then have "int (length xs) * sint (metric i) \<le> load_sum metric xs" by simp
  moreover have "0 < int (length xs)" using assms(2) by simp
  ultimately have "within_margin metric xs i"
    unfolding within_margin_int [OF assms(2)] mult.assoc by linarith
  with i(1) show ?thesis by (auto simp: filter_empty_conv)
qed

lemma equal_within_margin:
  assumes "\<forall>i\<in>set xs. sint (metric i) = m" and "0 \<le> m" and "i \<in> set xs"
  shows "within_margin metric xs i"
proof -
  have "load_sum metric ys = int (length ys) * m" if "set ys \<subseteq> set xs" for ys
    using that by (induction ys) (use assms(1) in \<open>auto simp: algebra_simps\<close>)
  then have "load_sum metric xs = int (length xs) * m" by simp
  moreover have "xs \<noteq> []" using assms(3) by auto
  moreover have "0 < int (length xs)" using calculation(2) by simp
  ultimately show ?thesis
    using assms by (simp add: within_margin_int max_def)
qed

section \<open>Properties\<close>

text \<open>
  C14: On at most \<open>NUM_WORKERS\<close> candidates with non-negative loads of sum at most \<open>2 ^ 51\<close>, the
  \<open>f64\<close> filter keeps exactly the candidates whose load is below \<open>avg + max (avg / 2) 1\<close>, with the
  average taken in exact rational arithmetic: no rounding error of the division, the product or
  the sum ever changes a decision.
\<close>

theorem float_filter_is_exact:
  assumes "\<forall>i\<in>set xs. 0 \<le> sint (metric i)"
    and "sum_list (map (\<lambda>i. sint (metric i)) xs) \<le> 2 ^ 51"
    and "length xs \<le> NUM_WORKERS"
  shows "filter_below_baseline xs metric =
    (let avg = of_int (sum_list (map (\<lambda>i. sint (metric i)) xs)) / of_int (int (length xs)) :: rat
     in filter (\<lambda>i. of_int (sint (metric i)) < avg + max (avg / 2) 1) xs)"
proof -
  have "loads_ok metric xs" using assms(1,2) by (simp add: loads_ok_def load_sum_def)
  moreover have "THETA_RATIO * x = x / 2" for x by (simp add: THETA_RATIO_def)
  ultimately show ?thesis
    using assms(3) filter_below_baseline_exact [of metric xs]
    unfolding within_margin_def exact_baseline_def load_sum_def Let_def THETA_MIN_def by metis
qed

theorem float_filter_is_exact_witness:
  "filter_below_baseline [0, 2, 3] (\<lambda>i. [7, 0, 1, 4] ! i) = [2, 3]"
  by (subst float_filter_is_exact) (simp_all add: NUM_WORKERS_def Let_def)

end
