(* ===== verification/Kernel_Dispatch.thy ===== *)
theory Kernel_Dispatch
  imports Prelude
begin

text \<open>
  The eBPF program of \<open>hermes-ebpf/src/main.rs\<close>: Algorithm 2, run by the kernel on every
  inbound connection of the \<open>SO_REUSEPORT\<close> group. The packet context, the lookup of the array
  map \<open>M_Sel\<close> and the helper \<open>select_reuseport\<close> belong to the kernel: the context is a record of
  the two fields the program reads, the lookup is its result (\<open>None\<close> for an absent element), and
  the helper is a function from worker ids to a socket or an error.
\<close>

section \<open>The program\<close>

record sk_ctx =
  ip_protocol :: u32
  ctx_hash :: u32

datatype sk_action = SK_DROP | SK_PASS

definition IPPROTO_TCP :: u32 where
  "IPPROTO_TCP = 6"

definition reciprocal_scale :: "u32 \<Rightarrow> u32 \<Rightarrow> u32" where
  "reciprocal_scale hash n = ucast (drop_bit 32 ((ucast hash :: u64) * ucast n))"

fun find_nth_loop :: "u64 \<Rightarrow> u32 \<Rightarrow> u32 \<Rightarrow> nat list \<Rightarrow> u32 option" where
  "find_nth_loop bm want seen [] = None"
| "find_nth_loop bm want seen (i # is) =
     (if bm AND push_bit i 1 \<noteq> 0
      then if seen = want then Some (of_nat i) else find_nth_loop bm want (seen + 1) is
      else find_nth_loop bm want seen is)"

definition find_nth_set_bit :: "u64 \<Rightarrow> u32 \<Rightarrow> u32 option" where
  "find_nth_set_bit bm want = find_nth_loop bm want 0 [0..<NUM_WORKERS]"

definition try_select :: "u64 option \<Rightarrow> sk_ctx \<Rightarrow> u32 option" where
  "try_select m_sel ctx =
     (if ip_protocol ctx \<noteq> IPPROTO_TCP then None
      else case m_sel of
        None \<Rightarrow> None
      | Some bm \<Rightarrow>
          let n = count_ones bm
          in if n \<le> 1 then None
             else let want = reciprocal_scale (ctx_hash ctx) n in find_nth_set_bit bm want)"

text \<open>
  The verdict of the program and the socket it selected, if the helper accepted the worker id;
  without a selected socket the kernel falls back to its own hash.
\<close>

definition hermes_select ::
  "(sk_ctx \<Rightarrow> u32 \<Rightarrow> 'e + 'sock) \<Rightarrow> u64 option \<Rightarrow> sk_ctx \<Rightarrow> sk_action \<times> 'sock option" where
  "hermes_select select_reuseport m_sel ctx =
     (case try_select m_sel ctx of
        Some worker_id \<Rightarrow>
          (case select_reuseport ctx worker_id of
             Inr sock \<Rightarrow> (SK_PASS, Some sock)
           | Inl e \<Rightarrow> (SK_PASS, None))
      | None \<Rightarrow> (SK_PASS, None))"

section \<open>The scaled hash\<close>

lemma unat_reciprocal_scale:
  "unat (reciprocal_scale hash n) = unat hash * unat n div 2 ^ 32"
proof -
  have h: "unat hash < 2 ^ 32" and n: "unat n < 2 ^ 32"
    using unsigned_less [of hash] unsigned_less [of n] by simp_all
  have "unat hash * unat n \<le> (2 ^ 32 - 1) * (2 ^ 32 - 1)"
    using h n by (intro mult_le_mono) simp_all
  then have b: "unat hash * unat n < 2 ^ 64" by simp
  have p: "unat ((ucast hash :: u64) * ucast n) = unat hash * unat n"
    using b by (simp add: unat_mult_lem [THEN iffD1] word_model)
  have "unat hash * unat n div 2 ^ 32 < 2 ^ 32"
    using b by (simp add: less_mult_imp_div_less)
  then show ?thesis
    unfolding reciprocal_scale_def unsigned_ucast_eq unat_drop_bit_eq p
    by (simp add: drop_bit_eq_div take_bit_nat_eq_self_iff)
qed

lemma reciprocal_scale_less:
  assumes "0 < unat n"
  shows "unat (reciprocal_scale hash n) < unat n"
proof -
  have "unat hash < 2 ^ 32" using unsigned_less [of hash] by simp
  then have "unat hash * unat n < 2 ^ 32 * unat n" using assms by simp
  then show ?thesis by (simp add: unat_reciprocal_scale less_mult_imp_div_less mult.commute)
qed

text \<open>The hashes of one bucket form an interval, whose size is the bucket's share of the range.\<close>

definition ceil_div :: "nat \<Rightarrow> nat \<Rightarrow> nat" where
  "ceil_div a n = (a + (n - 1)) div n"

lemma ceil_div_le_iff:
  assumes "0 < n"
  shows "ceil_div a n \<le> h \<longleftrightarrow> a \<le> h * n"
proof -
  have "ceil_div a n \<le> h \<longleftrightarrow> a + (n - 1) < Suc h * n"
    using assms by (simp only: ceil_div_def less_Suc_eq_le [symmetric] div_less_iff_less_mult)
  then show ?thesis using assms by (auto simp: algebra_simps)
qed

lemma bucket_interval:
  assumes n: "0 < n" and M: "0 < M"
  shows "h * n div M = k \<longleftrightarrow> ceil_div (k * M) n \<le> h \<and> h < ceil_div (Suc k * M) n"
proof -
  have "h * n div M = k \<longleftrightarrow> k \<le> h * n div M \<and> h * n div M < Suc k" by linarith
  also have "\<dots> \<longleftrightarrow> k * M \<le> h * n \<and> \<not> Suc k * M \<le> h * n"
    by (simp only: less_eq_div_iff_mult_less_eq [OF M] div_less_iff_less_mult [OF M] not_le)
  finally show ?thesis by (simp only: ceil_div_le_iff [OF n, symmetric] not_le)
qed

lemma ceil_div_mult_bounds:
  assumes "0 < n"
  shows "a \<le> ceil_div a n * n" and "ceil_div a n * n < a + n"
proof -
  show "a \<le> ceil_div a n * n" using ceil_div_le_iff [OF assms, of a "ceil_div a n"] by simp
  have "ceil_div a n * n \<le> a + (n - 1)" by (simp add: ceil_div_def div_times_less_eq_dividend)
  then show "ceil_div a n * n < a + n" using assms by linarith
qed

lemma ceil_div_gap:
  assumes n: "0 < n"
  shows "M div n \<le> ceil_div (Suc k * M) n - ceil_div (k * M) n"
    and "ceil_div (Suc k * M) n - ceil_div (k * M) n \<le> M div n + 1"
proof -
  define a where "a = ceil_div (k * M) n"
  define b where "b = ceil_div (Suc k * M) n"
  have A: "k * M \<le> a * n" "a * n < k * M + n"
    unfolding a_def using ceil_div_mult_bounds [OF n] by blast+
  have B: "k * M + M \<le> b * n" "b * n < k * M + M + n"
    unfolding b_def using ceil_div_mult_bounds [OF n, of "Suc k * M"] by (simp_all add: add.commute)
  have "M < (b - a) * n + n" using A B by (simp add: diff_mult_distrib)
  then have "M < Suc (b - a) * n" by simp
  then have "M div n < Suc (b - a)" using n by (simp only: div_less_iff_less_mult)
  moreover have "(b - a) * n < M + n" using A B by (simp add: diff_mult_distrib)
  then have "(b - a - 1) * n \<le> M" by (simp add: diff_mult_distrib)
  then have "b - a - 1 \<le> M div n" using n by (simp add: less_eq_div_iff_mult_less_eq)
  ultimately show "M div n \<le> ceil_div (Suc k * M) n - ceil_div (k * M) n"
    and "ceil_div (Suc k * M) n - ceil_div (k * M) n \<le> M div n + 1"
    unfolding a_def [symmetric] b_def [symmetric] by simp_all
qed

lemma card_u32: "card {w :: u32. P (unat w)} = card {i. i < 2 ^ 32 \<and> P i}"
proof -
  have "unat ` {w :: u32. P (unat w)} = {i. i < 2 ^ 32 \<and> P i}"
  proof (intro equalityI subsetI)
    fix i assume i: "i \<in> {i. i < 2 ^ 32 \<and> P i}"
    then have "unat (of_nat i :: u32) = i" by (simp add: unat_of_nat take_bit_nat_eq_self)
    with i show "i \<in> unat ` {w :: u32. P (unat w)}" by (metis (mono_tags, lifting) image_eqI mem_Collect_eq)
  next
    fix i assume "i \<in> unat ` {w :: u32. P (unat w)}"
    then show "i \<in> {i. i < 2 ^ 32 \<and> P i}" using unsigned_less [where 'b = 32] by auto
  qed
  moreover have "inj_on unat {w :: u32. P (unat w)}"
    by (rule inj_onI) (metis word_eq_iff_unsigned)
  ultimately show ?thesis using card_image by metis
qed

lemma bucket_card:
  assumes "k < n"
  shows "2 ^ 32 div n \<le> card {h :: u32. unat h * n div 2 ^ 32 = k}"
    and "card {h :: u32. unat h * n div 2 ^ 32 = k} \<le> 2 ^ 32 div n + 1"
proof -
  have n: "0 < n" using assms by simp
  have eq: "h * n div 2 ^ 32 = k \<longleftrightarrow> ceil_div (k * 2 ^ 32) n \<le> h \<and> h < ceil_div (Suc k * 2 ^ 32) n" for h
    by (rule bucket_interval [OF n]) simp
  have top: "ceil_div (Suc k * 2 ^ 32) n \<le> 2 ^ 32"
    using assms by (simp only: ceil_div_le_iff [OF n]) simp
  have "{i. i < 2 ^ 32 \<and> i * n div 2 ^ 32 = k} =
      {ceil_div (k * 2 ^ 32) n ..< ceil_div (Suc k * 2 ^ 32) n}"
    unfolding eq using top by auto
  then have "card {h :: u32. unat h * n div 2 ^ 32 = k} =
      ceil_div (Suc k * 2 ^ 32) n - ceil_div (k * 2 ^ 32) n"
    using card_u32 [of "\<lambda>i. i * n div 2 ^ 32 = k"] by simp
  with ceil_div_gap [OF n, where M = "2 ^ 32" and k = k]
  show "2 ^ 32 div n \<le> card {h :: u32. unat h * n div 2 ^ 32 = k}"
    and "card {h :: u32. unat h * n div 2 ^ 32 = k} \<le> 2 ^ 32 div n + 1"
    by simp_all
qed

section \<open>The nth set bit\<close>

lemma find_nth_loop_spec:
  assumes "unat seen + length is < 2 ^ 32"
  shows "find_nth_loop bm want seen is =
    (let cs = filter (bit bm) is; k = unat want - unat seen
     in if unat seen \<le> unat want \<and> k < length cs then Some (of_nat (cs ! k)) else None)"
  using assms
proof (induction "is" arbitrary: seen)
  case Nil
  then show ?case by simp
next
  case (Cons i "is")
  have inc: "unat (seen + 1) = Suc (unat seen)"
    using Cons.prems by (simp add: unat_word_ariths)
  show ?case
  proof (cases "bit bm i")
    case True
    have eq: "seen = want \<longleftrightarrow> unat seen = unat want" by (rule word_eq_iff_unsigned)
    show ?thesis
    proof (cases "seen = want")
      case True
      with \<open>bit bm i\<close> show ?thesis by (simp add: word_model)
    next
      case False
      then have ne: "unat seen \<noteq> unat want" using eq by simp
      have "find_nth_loop bm want seen (i # is) = find_nth_loop bm want (seen + 1) is"
        using True False by (simp add: word_model)
      also have "\<dots> = (let cs = filter (bit bm) is; k = unat want - unat (seen + 1)
          in if unat (seen + 1) \<le> unat want \<and> k < length cs then Some (of_nat (cs ! k)) else None)"
        using Cons.prems inc by (intro Cons.IH) simp
      finally show ?thesis
        using True ne by (auto simp: Let_def inc nth_Cons' split: if_splits)
    qed
  next
    case False
    then show ?thesis
      using Cons.IH [of seen] Cons.prems by (simp add: word_model)
  qed
qed

lemma find_nth_set_bit_spec:
  "find_nth_set_bit bm want =
    (let cs = set_bits bm NUM_WORKERS
     in if unat want < length cs then Some (of_nat (cs ! unat want)) else None)"
  using find_nth_loop_spec [of 0 "[0..<NUM_WORKERS]" bm want]
  by (simp add: find_nth_set_bit_def set_bits_def Let_def NUM_WORKERS_def)

section \<open>The selection as a function of the candidate list\<close>

lemma unat_gt_1: "\<not> n \<le> 1 \<longleftrightarrow> 2 \<le> unat n" for n :: u32
  by (simp add: word_le_nat_alt) linarith

lemma try_select_eq:
  assumes "set (set_bits bm 64) \<subseteq> {..<NUM_WORKERS}"
  shows "try_select (Some bm) ctx =
    (let cs = set_bits bm NUM_WORKERS; n = length cs
     in if ip_protocol ctx = IPPROTO_TCP \<and> 2 \<le> n
        then Some (of_nat (cs ! (unat (ctx_hash ctx) * n div 2 ^ 32))) else None)"
proof -
  have cs: "set_bits bm 64 = set_bits bm NUM_WORKERS"
    using assms bit_imp_le_length [of bm] by (intro set_bits_beyond) (auto simp: NUM_WORKERS_def)
  then have n: "unat (count_ones bm) = length (set_bits bm NUM_WORKERS)"
    by (simp add: word_model)
  show ?thesis
  proof (cases "ip_protocol ctx = IPPROTO_TCP \<and> 2 \<le> length (set_bits bm NUM_WORKERS)")
    case True
    then have big: "\<not> count_ones bm \<le> 1" by (simp only: unat_gt_1 n)
    have "0 < unat (count_ones bm)" using True unfolding n by linarith
    from reciprocal_scale_less [OF this]
    have "unat (reciprocal_scale (ctx_hash ctx) (count_ones bm)) < length (set_bits bm NUM_WORKERS)"
      unfolding n .
    then show ?thesis
      using True big
      by (simp add: try_select_def find_nth_set_bit_spec unat_reciprocal_scale n Let_def)
  next
    case False
    then have "ip_protocol ctx = IPPROTO_TCP \<Longrightarrow> count_ones bm \<le> 1"
      using unat_gt_1 [of "count_ones bm"] n by auto
    with False show ?thesis by (auto simp: try_select_def Let_def)
  qed
qed

lemma try_select_Some:
  assumes "try_select m_sel ctx = Some w"
  shows "\<exists>bm. m_sel = Some bm \<and> ip_protocol ctx = IPPROTO_TCP \<and> 2 \<le> length (set_bits bm 64) \<and>
    unat w \<in> set (set_bits bm NUM_WORKERS)"
proof -
  from assms obtain bm where m: "m_sel = Some bm" and p: "ip_protocol ctx = IPPROTO_TCP"
    and n: "\<not> count_ones bm \<le> 1"
    and f: "find_nth_set_bit bm (reciprocal_scale (ctx_hash ctx) (count_ones bm)) = Some w"
    by (auto simp: try_select_def Let_def split: if_splits option.splits)
  from f obtain i where i: "i \<in> set (set_bits bm NUM_WORKERS)" "w = of_nat i"
    unfolding find_nth_set_bit_spec Let_def by (metis nth_mem option.distinct(1) option.inject)
  then have "unat w = i" by (simp add: NUM_WORKERS_def unat_of_nat take_bit_nat_eq_self)
  with m p n i show ?thesis by (simp only: unat_gt_1 word_model) blast
qed

section \<open>Any source of well-formed bitmaps\<close>

text \<open>
  What the dispatcher needs of whoever publishes \<open>M_Sel\<close>: the bitmap names existing workers only.
\<close>

locale bitmap_publisher =
  fixes publish :: "'s \<Rightarrow> u64"
  assumes publish_workers: "set (set_bits (publish s) 64) \<subseteq> {..<NUM_WORKERS}"
begin

lemma set_bits_publish: "set_bits (publish s) NUM_WORKERS = set_bits (publish s) 64"
  using publish_workers [of s] bit_imp_le_length [of "publish s"]
  by (intro set_bits_beyond [symmetric]) (auto simp: NUM_WORKERS_def)

text \<open>With two or more candidates a TCP connection always gets one of them.\<close>

lemma select_candidate:
  assumes "ip_protocol ctx = IPPROTO_TCP" and "2 \<le> length (set_bits (publish s) 64)"
  shows "\<exists>i \<in> set (set_bits (publish s) 64). try_select (Some (publish s)) ctx = Some (of_nat i)"
proof -
  let ?cs = "set_bits (publish s) 64"
  have "unat (ctx_hash ctx) < 2 ^ 32" using unsigned_less [of "ctx_hash ctx"] by simp
  then have "unat (ctx_hash ctx) * length ?cs div 2 ^ 32 < length ?cs"
    using assms(2) by (auto simp: div_less_iff_less_mult)
  then have "?cs ! (unat (ctx_hash ctx) * length ?cs div 2 ^ 32) \<in> set ?cs"
    by (rule nth_mem)
  moreover have "try_select (Some (publish s)) ctx =
      Some (of_nat (?cs ! (unat (ctx_hash ctx) * length ?cs div 2 ^ 32)))"
    using assms by (simp add: try_select_eq [OF publish_workers] set_bits_publish Let_def)
  ultimately show ?thesis by blast
qed

lemma select_only_candidates:
  assumes "\<not> bit (publish s) i" and "i < NUM_WORKERS"
  shows "try_select (Some (publish s)) ctx \<noteq> Some (of_nat i)"
proof
  assume "try_select (Some (publish s)) ctx = Some (of_nat i)"
  then have "unat (of_nat i :: u32) \<in> set (set_bits (publish s) NUM_WORKERS)"
    using try_select_Some by fastforce
  then show False
    using assms by (simp add: NUM_WORKERS_def unat_of_nat take_bit_nat_eq_self)
qed

end

section \<open>Properties\<close>

text \<open>
  A selection is sound for every content of \<open>M_Sel\<close>: the program picks a worker only for TCP
  traffic and at least two candidates, and the worker it picks is an existing one whose bit is
  set.
\<close>

lemma try_select_sound:
  assumes "try_select (Some bm) ctx = Some w"
  shows "ip_protocol ctx = IPPROTO_TCP \<and> 2 \<le> unat (count_ones bm) \<and>
    bit bm (unat w) \<and> unat w < NUM_WORKERS"
  using try_select_Some [OF assms] by (auto simp: word_model)

lemma try_select_sound_witness:
  "try_select (Some 13) \<lparr>ip_protocol = 6, ctx_hash = 0x60000000\<rparr> = Some 2 \<and>
   (ip_protocol \<lparr>ip_protocol = 6, ctx_hash = 0x60000000\<rparr> = IPPROTO_TCP \<and>
    2 \<le> unat (count_ones 13) \<and> bit (13 :: u64) (unat (2 :: u32)) \<and> unat (2 :: u32) < NUM_WORKERS)"
proof -
  have "try_select (Some 13) \<lparr>ip_protocol = 6, ctx_hash = 0x60000000\<rparr> = Some 2"
    by code_simp
  with try_select_sound [OF this] show ?thesis by simp
qed

text \<open>
  C25: On a bitmap of existing workers the program is the function of Algorithm 2: a TCP connection
  with at least two candidates goes to the candidate at position \<open>hash * n / 2 ^ 32\<close> of the sorted
  candidate list, every other connection falls back to the kernel.
\<close>

theorem try_select_is_algorithm_2:
  assumes "bm < 2 ^ NUM_WORKERS"
  shows "try_select (Some bm) ctx =
    (let cs = set_bits bm NUM_WORKERS; n = length cs
     in if ip_protocol ctx = IPPROTO_TCP \<and> 2 \<le> n
        then Some (of_nat (cs ! (unat (ctx_hash ctx) * n div 2 ^ 32))) else None)"
  by (rule try_select_eq [OF set_bits_below [OF assms]])

theorem try_select_is_algorithm_2_witness:
  "try_select (Some 11) \<lparr>ip_protocol = 6, ctx_hash = 0xffffffff\<rparr> =
    (let cs = set_bits (11 :: u64) NUM_WORKERS; n = length cs
     in if ip_protocol \<lparr>ip_protocol = 6, ctx_hash = 0xffffffff\<rparr> = IPPROTO_TCP \<and> 2 \<le> n
        then Some (of_nat (cs ! (unat (ctx_hash \<lparr>ip_protocol = 6, ctx_hash = 0xffffffff\<rparr>) * n div 2 ^ 32)))
        else None) \<and>
   try_select (Some 11) \<lparr>ip_protocol = 6, ctx_hash = 0xffffffff\<rparr> = Some 3"
proof
  have "(11 :: u64) < 2 ^ NUM_WORKERS" by (simp add: NUM_WORKERS_def)
  then show "try_select (Some 11) \<lparr>ip_protocol = 6, ctx_hash = 0xffffffff\<rparr> =
    (let cs = set_bits (11 :: u64) NUM_WORKERS; n = length cs
     in if ip_protocol \<lparr>ip_protocol = 6, ctx_hash = 0xffffffff\<rparr> = IPPROTO_TCP \<and> 2 \<le> n
        then Some (of_nat (cs ! (unat (ctx_hash \<lparr>ip_protocol = 6, ctx_hash = 0xffffffff\<rparr>) * n div 2 ^ 32)))
        else None)"
    by (rule try_select_is_algorithm_2)
  show "try_select (Some 11) \<lparr>ip_protocol = 6, ctx_hash = 0xffffffff\<rparr> = Some 3"
    by code_simp
qed

text \<open>
  C30: The choice is uniform over the hash: with \<open>n\<close> candidates, each position \<open>k\<close> below \<open>n\<close> is the
  scaled value of \<open>2 ^ 32 div n\<close> or one more of the \<open>2 ^ 32\<close> hashes, so no candidate starves and
  none gets more than one hash above its share.
\<close>

theorem reciprocal_scale_uniform:
  assumes "unat k < unat n"
  shows "card {hash. reciprocal_scale hash n = k} \<in> {2 ^ 32 div unat n, 2 ^ 32 div unat n + 1}"
proof -
  have "{hash. reciprocal_scale hash n = k} = {h :: u32. unat h * unat n div 2 ^ 32 = unat k}"
    by (auto simp: word_eq_iff_unsigned [where 'a = nat] unat_reciprocal_scale)
  with bucket_card [OF assms] show ?thesis by auto
qed

theorem reciprocal_scale_uniform_witness:
  "card {hash. reciprocal_scale hash 3 = 2} \<in> {2 ^ 32 div unat (3 :: u32), 2 ^ 32 div unat (3 :: u32) + 1}"
  by (rule reciprocal_scale_uniform) simp

text \<open>
  The program fails open: its verdict is always \<open>SK_PASS\<close>, and a socket is selected exactly
  when Algorithm 2 picks a worker and the kernel helper accepts that worker's id; in every other
  case the kernel's own hash decides.
\<close>

lemma hermes_select_fails_open:
  "fst (hermes_select select_reuseport m_sel ctx) = SK_PASS \<and>
   (snd (hermes_select select_reuseport m_sel ctx) = Some sock \<longleftrightarrow>
     (\<exists>w. try_select m_sel ctx = Some w \<and> select_reuseport ctx w = Inr sock))"
  by (auto simp: hermes_select_def split: option.splits sum.splits)

end
