(* ===== verification/Scheduler.thy ===== *)
theory Scheduler
  imports Status_Table Load_Filter Kernel_Dispatch
begin

text \<open>
  Algorithm 1 of \<open>hermes/src/scheduler.rs\<close>: three cascading filters over the snapshots of the
  Worker Status Table, and the bitmap of the surviving workers. The filters are instances of
  the locale \<open>pruning\<close>, their composition of \<open>cascade\<close>; the specification \<open>candidates_spec\<close>
  describes the survivors over unbounded integers and exact rationals, and the code is shown
  to compute it.
\<close>

section \<open>The scheduler\<close>

definition HANG_THRESHOLD_NS :: i64 where
  "HANG_THRESHOLD_NS = 200000000"

record schedule_result =
  bitmap :: u64
  after_stage1 :: nat
  after_stage2 :: nat
  after_stage3 :: nat

definition looks_alive :: "i64 \<Rightarrow> i64 \<Rightarrow> worker_snapshot \<Rightarrow> bool" where
  "looks_alive now hang_threshold_ns s =
     (let t = snap_last_loop_entry s in t = 0 \<or> now - t <s hang_threshold_ns)"

definition stage1 :: "worker_snapshot list \<Rightarrow> i64 \<Rightarrow> i64 \<Rightarrow> nat list \<Rightarrow> nat list" where
  "stage1 snapshots now hang_threshold_ns =
     filter (\<lambda>i. looks_alive now hang_threshold_ns (snapshots ! i))"

definition schedule_from_snapshots :: "worker_snapshot list \<Rightarrow> i64 \<Rightarrow> i64 \<Rightarrow> schedule_result" where
  "schedule_from_snapshots snapshots now hang_threshold_ns =
     (let after1 = stage1 snapshots now hang_threshold_ns [0..<NUM_WORKERS];
          after2 = filter_below_baseline after1 (\<lambda>i. snap_accumulated_conns (snapshots ! i));
          after3 = filter_below_baseline after2 (\<lambda>i. snap_pending_events (snapshots ! i))
      in \<lparr>bitmap = fold (\<lambda>i b. b OR push_bit i 1) after3 0,
          after_stage1 = length after1,
          after_stage2 = length after2,
          after_stage3 = length after3\<rparr>)"

definition schedule :: "wst \<Rightarrow> i64 \<Rightarrow> i64 \<Rightarrow> schedule_result" where
  "schedule w now hang_threshold_ns = schedule_from_snapshots (snapshot_all w) now hang_threshold_ns"

section \<open>Pruning a list of candidates\<close>

locale pruning =
  fixes prune :: "nat list \<Rightarrow> nat list"
  assumes prune_subseq: "subseq (prune xs) xs"
begin

lemma prune_subset: "set (prune xs) \<subseteq> set xs"
  using prune_subseq by (metis subseq_conv_nths set_nths_subset)

lemma prune_length: "length (prune xs) \<le> length xs"
  using prune_subseq by (rule list_emb_length)

lemma prune_sorted: "sorted xs \<Longrightarrow> sorted (prune xs)"
  using prune_subseq by (metis subseq_conv_nths sorted_nths)

lemma prune_distinct: "distinct xs \<Longrightarrow> distinct (prune xs)"
  using prune_subseq by (metis subseq_conv_nths distinct_nthsI)

end

locale cascade = first: pruning p + second: pruning q
  for p :: "nat list \<Rightarrow> nat list" and q :: "nat list \<Rightarrow> nat list"

sublocale cascade \<subseteq> both: pruning "\<lambda>xs. q (p xs)"
  by unfold_locales (metis first.prune_subseq second.prune_subseq subseq_order.order_trans)

interpretation hang_filter: pruning "stage1 snapshots now hang" for snapshots now hang
  by unfold_locales (simp add: stage1_def)

interpretation load_filter: pruning "\<lambda>xs. filter_below_baseline xs metric" for metric
  by unfold_locales (simp add: filter_below_baseline_def Let_def)

interpretation stages12: cascade "stage1 snapshots now hang" "\<lambda>xs. filter_below_baseline xs conns"
  for snapshots now hang conns
  by unfold_locales

interpretation stages123: cascade
  "\<lambda>xs. filter_below_baseline (stage1 snapshots now hang xs) conns"
  "\<lambda>xs. filter_below_baseline xs events"
  for snapshots now hang conns events
  by unfold_locales

definition survivors :: "worker_snapshot list \<Rightarrow> i64 \<Rightarrow> i64 \<Rightarrow> nat list" where
  "survivors snapshots now hang =
     filter_below_baseline
       (filter_below_baseline (stage1 snapshots now hang [0..<NUM_WORKERS])
         (\<lambda>i. snap_accumulated_conns (snapshots ! i)))
       (\<lambda>i. snap_pending_events (snapshots ! i))"

lemma bitmap_schedule: "bitmap (schedule_from_snapshots snapshots now hang) = bitmap_of (survivors snapshots now hang)"
  unfolding schedule_from_snapshots_def Let_def survivors_def bitmap_of_def schedule_result.simps ..

lemma survivors_below: "i \<in> set (survivors snapshots now hang) \<Longrightarrow> i < NUM_WORKERS"
  using stages123.both.prune_subset unfolding survivors_def by fastforce

lemma survivors_sorted: "sorted (survivors snapshots now hang)"
  unfolding survivors_def by (rule stages123.both.prune_sorted) simp

lemma survivors_distinct: "distinct (survivors snapshots now hang)"
  unfolding survivors_def by (rule stages123.both.prune_distinct) simp

lemma set_bits_schedule: "set_bits (bitmap (schedule_from_snapshots snapshots now hang)) 64 = survivors snapshots now hang"
  unfolding bitmap_schedule
  by (rule set_bits_bitmap_of) (auto intro: survivors_sorted survivors_distinct dest: survivors_below)

lemma schedule_stage_counts:
  "after_stage3 (schedule_from_snapshots snapshots now hang) = length (survivors snapshots now hang)"
  "after_stage3 (schedule_from_snapshots snapshots now hang) \<le> after_stage2 (schedule_from_snapshots snapshots now hang)"
  "after_stage2 (schedule_from_snapshots snapshots now hang) \<le> after_stage1 (schedule_from_snapshots snapshots now hang)"
  "after_stage1 (schedule_from_snapshots snapshots now hang) \<le> NUM_WORKERS"
  using load_filter.prune_length hang_filter.prune_length [of snapshots now hang "[0..<NUM_WORKERS]"]
  by (simp_all add: schedule_from_snapshots_def Let_def survivors_def)

section \<open>What the scheduler promises\<close>

definition hung :: "i64 \<Rightarrow> i64 \<Rightarrow> worker_snapshot \<Rightarrow> bool" where
  "hung now hang s \<longleftrightarrow>
     sint (snap_last_loop_entry s) \<noteq> 0 \<and> sint hang \<le> sint now - sint (snap_last_loop_entry s)"

definition clocks_ok :: "worker_snapshot list \<Rightarrow> i64 \<Rightarrow> bool" where
  "clocks_ok snapshots now \<longleftrightarrow> 0 \<le> sint now \<and> (\<forall>s\<in>set snapshots. 0 \<le> sint (snap_last_loop_entry s))"

definition table_ok :: "worker_snapshot list \<Rightarrow> bool" where
  "table_ok snapshots \<longleftrightarrow> length snapshots = NUM_WORKERS \<and>
     loads_ok (\<lambda>i. snap_accumulated_conns (snapshots ! i)) [0..<NUM_WORKERS] \<and>
     loads_ok (\<lambda>i. snap_pending_events (snapshots ! i)) [0..<NUM_WORKERS]"

definition candidates_spec :: "worker_snapshot list \<Rightarrow> i64 \<Rightarrow> i64 \<Rightarrow> nat list" where
  "candidates_spec snapshots now hang =
     (let conns = \<lambda>i. snap_accumulated_conns (snapshots ! i);
          events = \<lambda>i. snap_pending_events (snapshots ! i);
          alive = filter (\<lambda>i. \<not> hung now hang (snapshots ! i)) [0..<NUM_WORKERS];
          light = filter (within_margin conns alive) alive
      in filter (within_margin events light) light)"

lemma looks_alive_iff:
  assumes "0 \<le> sint now" and "0 \<le> sint (snap_last_loop_entry s)"
  shows "looks_alive now hang s \<longleftrightarrow> \<not> hung now hang s"
proof -
  have "sint (now - snap_last_loop_entry s) = sint now - sint (snap_last_loop_entry s)"
    using assms sint_lt [of now] sint_lt [of "snap_last_loop_entry s"] by (simp add: word_model)
  then show ?thesis
    by (auto simp: looks_alive_def hung_def word_sless_alt signed_eq_0_iff)
qed

lemma stage1_spec:
  assumes "clocks_ok snapshots now" and "length snapshots = NUM_WORKERS"
  shows "stage1 snapshots now hang [0..<NUM_WORKERS] = filter (\<lambda>i. \<not> hung now hang (snapshots ! i)) [0..<NUM_WORKERS]"
  unfolding stage1_def using assms
  by (intro filter_cong) (auto simp: clocks_ok_def looks_alive_iff)

lemma survivors_meet_spec:
  assumes "table_ok snapshots" and "clocks_ok snapshots now"
  shows "survivors snapshots now hang = candidates_spec snapshots now hang"
proof -
  let ?a = "stage1 snapshots now hang [0..<NUM_WORKERS]"
  let ?c = "\<lambda>i. snap_accumulated_conns (snapshots ! i)"
  let ?e = "\<lambda>i. snap_pending_events (snapshots ! i)"
  let ?l = "filter_below_baseline ?a ?c"
  have la: "subseq ?a [0..<NUM_WORKERS]" and ll: "subseq ?l [0..<NUM_WORKERS]"
    using hang_filter.prune_subseq stages12.both.prune_subseq by auto
  have a: "loads_ok ?c ?a" and l: "loads_ok ?e ?l"
    using loads_ok_subseq [OF la] loads_ok_subseq [OF ll] assms(1) by (auto simp: table_ok_def)
  have na: "length ?a \<le> NUM_WORKERS" and nl: "length ?l \<le> NUM_WORKERS"
    using list_emb_length [OF la] list_emb_length [OF ll] by simp_all
  have alive: "?a = filter (\<lambda>i. \<not> hung now hang (snapshots ! i)) [0..<NUM_WORKERS]"
    using assms by (intro stage1_spec) (simp_all add: table_ok_def)
  show ?thesis
    unfolding survivors_def filter_below_baseline_exact [OF l nl]
    unfolding filter_below_baseline_exact [OF a na]
    unfolding alive candidates_spec_def Let_def ..
qed

lemma candidates_spec_nonempty:
  assumes "table_ok snapshots" and "i < NUM_WORKERS" and "\<not> hung now hang (snapshots ! i)"
  shows "candidates_spec snapshots now hang \<noteq> []"
proof -
  define alive where "alive = filter (\<lambda>i. \<not> hung now hang (snapshots ! i)) [0..<NUM_WORKERS]"
  define conns where "conns = (\<lambda>i. snap_accumulated_conns (snapshots ! i))"
  define events where "events = (\<lambda>i. snap_pending_events (snapshots ! i))"
  define light where "light = filter (within_margin conns alive) alive"
  have sub: "subseq alive [0..<NUM_WORKERS]" "subseq light [0..<NUM_WORKERS]"
    unfolding light_def alive_def using subseq_order.order_trans subseq_filter_left by blast+
  have "loads_ok conns alive" "loads_ok events light"
    using assms(1) loads_ok_subseq [OF sub(1)] loads_ok_subseq [OF sub(2)]
    by (auto simp: table_ok_def conns_def events_def)
  moreover have "alive \<noteq> []"
    using assms(2,3) by (auto simp: alive_def filter_empty_conv)
  ultimately have "filter (within_margin events light) light \<noteq> []"
    by (metis light_def lightest_within_margin)
  then show ?thesis
    unfolding candidates_spec_def Let_def alive_def light_def conns_def events_def .
qed

lemma stage1_survivors: "set (survivors snapshots now hang) \<subseteq> set (stage1 snapshots now hang [0..<NUM_WORKERS])"
  unfolding survivors_def using load_filter.prune_subset by blast

lemma bit_schedule: "bit (bitmap (schedule_from_snapshots snapshots now hang)) i \<longleftrightarrow> i \<in> set (survivors snapshots now hang)"
  using survivors_below by (auto simp: bitmap_schedule bitmap_model)

lemma hung_not_published:
  assumes "clocks_ok (snapshot_all w) now" and "i < NUM_WORKERS" and "hung now threshold (snapshot_all w ! i)"
  shows "\<not> bit (bitmap (schedule w now threshold)) i"
proof -
  have "i \<notin> set (stage1 (snapshot_all w) now threshold [0..<NUM_WORKERS])"
    using assms(3) stage1_spec [OF assms(1), of threshold] by simp
  then show ?thesis using stage1_survivors by (auto simp: schedule_def bit_schedule)
qed

text \<open>The scheduler is a source of bitmaps the kernel program can rely on.\<close>

interpretation scheduler_out: bitmap_publisher "\<lambda>(w, now, hang). bitmap (schedule w now hang)"
proof
  fix s :: "wst \<times> i64 \<times> i64"
  show "set (set_bits (case s of (w, now, hang) \<Rightarrow> bitmap (schedule w now hang)) 64) \<subseteq> {..<NUM_WORKERS}"
    by (cases s) (auto simp only: prod.case schedule_def set_bits_schedule lessThan_iff dest: survivors_below)
qed

section \<open>Properties\<close>

text \<open>A table in which the fourth worker holds far more connections than the others.\<close>

definition sample_table :: wst where
  "sample_table = \<lparr>slots = map (\<lambda>(t, e, c). \<lparr>last_loop_entry = t, pending_events = e, accumulated_conns = c\<rparr>)
     [(900000000, 0, 1), (600000000, 0, 1), (0, 0, 1), (900000000, 0, 100)]\<rparr>"

lemma sample_table_ok:
  "table_ok (snapshot_all sample_table)" "clocks_ok (snapshot_all sample_table) 900000000"
  unfolding table_ok_def clocks_ok_def loads_ok_def load_sum_def snapshot_all_def workers_upt
  by (simp_all add: sample_table_def slot_snapshot_def NUM_WORKERS_def)

text \<open>
  Whatever the table holds, the published bitmap names workers below \<open>NUM_WORKERS\<close> only, its
  number of set bits is \<open>after_stage3\<close>, and the stage counts never grow from one stage to the
  next.
\<close>

lemma schedule_bitmap_well_formed:
  "let r = schedule_from_snapshots snapshots now hang
   in set (set_bits (bitmap r) 64) \<subseteq> {..<NUM_WORKERS} \<and>
      length (set_bits (bitmap r) 64) = after_stage3 r \<and>
      after_stage3 r \<le> after_stage2 r \<and> after_stage2 r \<le> after_stage1 r \<and> after_stage1 r \<le> NUM_WORKERS"
  unfolding Let_def set_bits_schedule
  by (auto simp: schedule_stage_counts(2-4) schedule_stage_counts(1) [symmetric] dest: survivors_below)

text \<open>
  C9: The scheduler implements its specification: for clock readings and load counters that are
  not negative (and loads of sum at most \<open>2 ^ 51\<close>), the workers in the published bitmap are those
  \<open>candidates_spec\<close> keeps, with time differences in unbounded integers and averages in exact
  rationals.
\<close>

theorem schedule_meets_spec:
  assumes "table_ok (snapshot_all w)" and "clocks_ok (snapshot_all w) now"
  shows "set_bits (bitmap (schedule w now hang)) 64 = candidates_spec (snapshot_all w) now hang"
  using survivors_meet_spec [OF assms] by (simp add: schedule_def set_bits_schedule)

theorem schedule_meets_spec_witness:
  "set_bits (bitmap (schedule sample_table 900000000 HANG_THRESHOLD_NS)) 64
     = candidates_spec (snapshot_all sample_table) 900000000 HANG_THRESHOLD_NS \<and>
   bitmap (schedule sample_table 900000000 HANG_THRESHOLD_NS) = 5"
proof
  show "set_bits (bitmap (schedule sample_table 900000000 HANG_THRESHOLD_NS)) 64
     = candidates_spec (snapshot_all sample_table) 900000000 HANG_THRESHOLD_NS"
    by (rule schedule_meets_spec [OF sample_table_ok])
  show "bitmap (schedule sample_table 900000000 HANG_THRESHOLD_NS) = 5"
    by code_simp
qed

text \<open>
  A hung worker is never a candidate: if the last loop entry of worker \<open>i\<close> is set and lies the
  threshold or more in the past, its bit is clear, whatever its counters say.
\<close>

lemma schedule_drops_hung:
  assumes "clocks_ok (snapshot_all w) now" and "i < NUM_WORKERS"
    and "0 < sint (last_loop_entry (slots w ! i))"
    and "sint hang \<le> sint now - sint (last_loop_entry (slots w ! i))"
  shows "\<not> bit (bitmap (schedule w now hang)) i"
  using assms(2-4)
  by (intro hung_not_published [OF assms(1,2)]) (simp add: hung_def nth_snapshot_all slot_snapshot_def)

text \<open>
  C26: As long as one worker is not hung, the published candidate set is not empty: the least
  loaded candidate survives both load filters, also in floating point.
\<close>

theorem schedule_keeps_a_candidate:
  assumes "table_ok snapshots" and "clocks_ok snapshots now"
    and "i < NUM_WORKERS" and "\<not> hung now hang (snapshots ! i)"
  shows "bitmap (schedule_from_snapshots snapshots now hang) \<noteq> 0"
proof
  assume "bitmap (schedule_from_snapshots snapshots now hang) = 0"
  then have "survivors snapshots now hang = []"
    using set_bits_schedule [of snapshots now hang] by (simp add: set_bits_def)
  with candidates_spec_nonempty [OF assms(1,3,4)] survivors_meet_spec [OF assms(1,2)]
  show False by simp
qed

theorem schedule_keeps_a_candidate_witness:
  "bitmap (schedule_from_snapshots (snapshot_all sample_table) 900000000 HANG_THRESHOLD_NS) \<noteq> 0"
  by (rule schedule_keeps_a_candidate [OF sample_table_ok, where i = 2])
    (simp_all add: sample_table_def hung_def nth_snapshot_all slot_snapshot_def NUM_WORKERS_def)

text \<open>
  A balanced table keeps everyone: when no worker is hung and all workers report the same
  number of connections and the same number of events, all four bits are set.
\<close>

lemma schedule_balanced_keeps_all:
  assumes len: "length snapshots = NUM_WORKERS" and clk: "clocks_ok snapshots now"
    and live: "\<forall>s\<in>set snapshots. \<not> hung now hang s"
    and conns: "\<forall>s\<in>set snapshots. sint (snap_accumulated_conns s) = c" "0 \<le> c" "c \<le> 2 ^ 49"
    and events: "\<forall>s\<in>set snapshots. sint (snap_pending_events s) = e" "0 \<le> e" "e \<le> 2 ^ 49"
  shows "bitmap (schedule_from_snapshots snapshots now hang) = 15"
proof -
  have nth: "snapshots ! i \<in> set snapshots" if "i < NUM_WORKERS" for i
    using that len by simp
  have sum: "load_sum m [0..<NUM_WORKERS] = 4 * v" if "\<forall>i<NUM_WORKERS. sint (m i) = v" for m v
    using that by (simp add: NUM_WORKERS_def load_sum_def upt_rec)
  have ok: "table_ok snapshots"
    using len conns events nth sum [of "\<lambda>i. snap_accumulated_conns (snapshots ! i)" c]
      sum [of "\<lambda>i. snap_pending_events (snapshots ! i)" e]
    by (auto simp: table_ok_def loads_ok_def)
  have alive: "filter (\<lambda>i. \<not> hung now hang (snapshots ! i)) [0..<NUM_WORKERS] = [0..<NUM_WORKERS]"
    using live nth by (auto intro: filter_True)
  have keep: "filter (within_margin m [0..<NUM_WORKERS]) [0..<NUM_WORKERS] = [0..<NUM_WORKERS]"
    if "\<forall>i<NUM_WORKERS. sint (m i) = v" "0 \<le> v" for m v
    using that by (intro filter_True) (auto intro: equal_within_margin)
  have "candidates_spec snapshots now hang = [0..<NUM_WORKERS]"
    using conns events nth keep [of "\<lambda>i. snap_accumulated_conns (snapshots ! i)" c]
      keep [of "\<lambda>i. snap_pending_events (snapshots ! i)" e]
    by (simp add: candidates_spec_def Let_def alive del: filter_filter)
  then have "survivors snapshots now hang = [0..<NUM_WORKERS]"
    using survivors_meet_spec [OF ok clk, of hang] by simp
  then have "bitmap (schedule_from_snapshots snapshots now hang) = bitmap_of [0, 1, 2, 3]"
    by (simp only: bitmap_schedule workers_upt)
  then show ?thesis by (simp add: bitmap_of_def)
qed

end
