(* ===== verification/Wire_Protocol.thy ===== *)
theory Wire_Protocol
  imports Prelude "HOL-Library.Monad_Syntax"
begin

text \<open>
  The wire protocol of \<open>hermes-common/src/lib.rs\<close>: little-endian encoding of fixed-width
  integers, the 24-byte request header and the 16-byte response. An encoder overwrites a buffer
  it is given, so it takes the old contents as an argument. The locale \<open>wire_codec\<close> is what
  the workers and the load generator rely on: a frame has a fixed width and decodes to the
  message it was made from, also at the front of a longer stream.
\<close>

section \<open>Little-endian bytes\<close>

text \<open>\<open>to_le_bytes\<close> of an integer of \<open>n\<close> bytes, and \<open>from_le_bytes\<close>.\<close>

definition le_bytes :: "nat \<Rightarrow> 'a::len word \<Rightarrow> u8 list" where
  "le_bytes n w = map (\<lambda>i. ucast (drop_bit (8 * i) w)) [0..<n]"

definition le_word :: "u8 list \<Rightarrow> 'a::len word" where
  "le_word bs = foldr (\<lambda>b acc. ucast b OR push_bit 8 acc) bs 0"

lemma length_le_bytes [simp]: "length (le_bytes n w) = n"
  by (simp add: le_bytes_def)

lemma bit_le_word:
  "bit (le_word bs :: 'a::len word) k \<longleftrightarrow>
    k < LENGTH('a) \<and> k div 8 < length bs \<and> bit (bs ! (k div 8)) (k mod 8)"
proof (induction bs arbitrary: k)
  case Nil
  then show ?case by (simp add: le_word_def)
next
  case (Cons b bs)
  have step: "le_word (b # bs) = (ucast b OR push_bit 8 (le_word bs) :: 'a word)"
    by (simp add: le_word_def)
  show ?case
  proof (cases "k < 8")
    case True
    then show ?thesis by (auto simp: step bit_simps)
  next
    case False
    then have k: "k div 8 = Suc ((k - 8) div 8)" "k mod 8 = (k - 8) mod 8"
      by (simp_all add: le_div_geq le_mod_geq)
    have "\<not> bit b k" using False bit_imp_le_length [of b k] by auto
    with False k show ?thesis by (auto simp: step bit_simps Cons.IH)
  qed
qed

lemma le_word_le_bytes:
  assumes "LENGTH('a) = 8 * n"
  shows "le_word (le_bytes n w) = (w :: 'a::len word)"
proof (rule bit_word_eqI)
  fix k assume k: "k < LENGTH('a)"
  then have d: "k div 8 < n" using assms by simp
  have "k mod 8 < 8" by simp
  then show "bit (le_word (le_bytes n w) :: 'a word) k = bit w k"
    using k d by (simp add: bit_le_word) (simp add: le_bytes_def bit_simps)
qed

lemma le_bytes_le_word:
  assumes "LENGTH('a) = 8 * n" and "length bs = n"
  shows "le_bytes n (le_word bs :: 'a::len word) = bs"
proof (rule nth_equalityI)
  show "length (le_bytes n (le_word bs :: 'a word)) = length bs" using assms by simp
  fix i assume "i < length (le_bytes n (le_word bs :: 'a word))"
  then have i: "i < n" by simp
  show "le_bytes n (le_word bs :: 'a word) ! i = bs ! i"
  proof (rule bit_word_eqI)
    fix j assume "j < LENGTH(8)"
    then have j: "j < 8" by simp
    have "8 * i + j < LENGTH('a)" using i j assms(1) by simp
    moreover have "(8 * i + j) div 8 = i" and "(8 * i + j) mod 8 = j" using j by simp_all
    ultimately show "bit (le_bytes n (le_word bs :: 'a word) ! i) j = bit (bs ! i) j"
      using i j assms(2) by (simp add: le_bytes_def bit_simps bit_le_word)
  qed
qed

section \<open>Requests and responses\<close>

definition REQUEST_MAGIC :: u32 where
  "REQUEST_MAGIC = 0x4845524d"

definition REQUEST_HEADER_LEN :: nat where
  "REQUEST_HEADER_LEN = 24"

definition RESPONSE_LEN :: nat where
  "RESPONSE_LEN = 16"

definition encode_request :: "u32 \<Rightarrow> u32 \<Rightarrow> i64 \<Rightarrow> u8 list \<Rightarrow> u8 list" where
  "encode_request seq service_us send_ns buf =
     (let buf = copy_at 0 (le_bytes 4 REQUEST_MAGIC) buf;
          buf = copy_at 4 (le_bytes 4 seq) buf;
          buf = copy_at 8 (le_bytes 4 service_us) buf;
          buf = copy_at 12 (le_bytes 4 (0 :: u32)) buf
      in copy_at 16 (le_bytes 8 send_ns) buf)"

text \<open>\<open>buf[a..b].try_into().ok()\<close> for an array of \<open>b - a\<close> bytes.\<close>

definition array_of :: "nat \<Rightarrow> nat \<Rightarrow> u8 list \<Rightarrow> u8 list option" where
  "array_of a b buf =
     (let s = take (b - a) (drop a buf) in if length s = b - a then Some s else None)"

definition decode_request :: "u8 list \<Rightarrow> (u32 \<times> u32 \<times> i64) option" where
  "decode_request buf = do {
     m \<leftarrow> array_of 0 4 buf;
     if le_word m \<noteq> REQUEST_MAGIC then None
     else do {
       s \<leftarrow> array_of 4 8 buf;
       c \<leftarrow> array_of 8 12 buf;
       t \<leftarrow> array_of 16 24 buf;
       Some (le_word s, le_word c, le_word t)
     }
   }"

definition encode_response :: "u32 \<Rightarrow> u32 \<Rightarrow> i64 \<Rightarrow> u8 list \<Rightarrow> u8 list" where
  "encode_response seq worker_id send_ns buf =
     (let buf = copy_at 0 (le_bytes 4 seq) buf;
          buf = copy_at 4 (le_bytes 4 worker_id) buf
      in copy_at 8 (le_bytes 8 send_ns) buf)"

text \<open>The decoder unwraps; \<open>None\<close> stands for the panic on a buffer that is too short.\<close>

definition decode_response :: "u8 list \<Rightarrow> (u32 \<times> u32 \<times> i64) option" where
  "decode_response buf = do {
     s \<leftarrow> array_of 0 4 buf;
     w \<leftarrow> array_of 4 8 buf;
     t \<leftarrow> array_of 8 16 buf;
     Some (le_word s, le_word w, le_word t)
   }"

section \<open>The frames as byte lists\<close>

lemma encode_request_bytes:
  assumes "length buf = REQUEST_HEADER_LEN"
  shows "encode_request seq service_us send_ns buf =
    le_bytes 4 REQUEST_MAGIC @ le_bytes 4 seq @ le_bytes 4 service_us
      @ le_bytes 4 (0 :: u32) @ le_bytes 8 send_ns"
  using assms by (simp add: encode_request_def copy_at_def REQUEST_HEADER_LEN_def Let_def)

lemma encode_response_bytes:
  assumes "length buf = RESPONSE_LEN"
  shows "encode_response seq worker_id send_ns buf =
    le_bytes 4 seq @ le_bytes 4 worker_id @ le_bytes 8 send_ns"
  using assms by (simp add: encode_response_def copy_at_def RESPONSE_LEN_def Let_def)

lemma decode_request_bytes:
  assumes "length m = 4" and "length s = 4" and "length c = 4" and "length r = 4" and "length t = 8"
  shows "decode_request (m @ s @ c @ r @ t) =
    (if le_word m = REQUEST_MAGIC then Some (le_word s, le_word c, le_word t) else None)"
  using assms by (simp add: decode_request_def array_of_def)

lemma decode_response_bytes:
  assumes "length s = 4" and "length w = 4" and "length t = 8"
  shows "decode_response (s @ w @ t) = Some (le_word s, le_word w, le_word t)"
  using assms by (simp add: decode_response_def array_of_def)

lemma drop_split: "drop n xs = take m (drop n xs) @ drop (n + m) xs" for n m :: nat
  using append_take_drop_id [of m "drop n xs"] by (simp add: add.commute)

lemma split_request:
  assumes "length buf = REQUEST_HEADER_LEN"
  obtains m s c r t where "buf = m @ s @ c @ r @ t"
    and "length m = 4" "length s = 4" "length c = 4" "length r = 4" "length t = 8"
proof
  show "buf = take 4 buf @ take 4 (drop 4 buf) @ take 4 (drop 8 buf) @ take 4 (drop 12 buf) @ drop 16 buf"
    using drop_split [of 4 buf 4, simplified] drop_split [of 8 buf 4, simplified] drop_split [of 12 buf 4, simplified]
    by (metis append_take_drop_id)
qed (use assms in \<open>simp_all add: REQUEST_HEADER_LEN_def\<close>)

lemma split_response:
  assumes "length buf = RESPONSE_LEN"
  obtains s w t where "buf = s @ w @ t" and "length s = 4" "length w = 4" "length t = 8"
proof
  show "buf = take 4 buf @ take 4 (drop 4 buf) @ drop 8 buf"
    using drop_split [of 4 buf 4, simplified] by (metis append_take_drop_id)
qed (use assms in \<open>simp_all add: RESPONSE_LEN_def\<close>)

section \<open>What both sides rely on\<close>

locale wire_codec =
  fixes enc :: "'m \<Rightarrow> u8 list \<Rightarrow> u8 list"
    and dec :: "u8 list \<Rightarrow> 'm option"
    and width :: nat
  assumes enc_length: "length buf = width \<Longrightarrow> length (enc m buf) = width"
    and dec_enc: "length buf = width \<Longrightarrow> dec (enc m buf) = Some m"
begin

lemma enc_inject:
  "length buf = width \<Longrightarrow> length buf' = width \<Longrightarrow> enc m buf = enc m' buf' \<Longrightarrow> m = m'"
  by (metis dec_enc option.inject)

lemma frame_at_front:
  assumes "length buf = width"
  shows "take width (enc m buf @ rest) = enc m buf" and "drop width (enc m buf @ rest) = rest"
    and "dec (take width (enc m buf @ rest)) = Some m"
  using assms by (simp_all add: enc_length dec_enc)

end

interpretation request_codec: wire_codec
  "\<lambda>(seq, service_us, send_ns). encode_request seq service_us send_ns" decode_request REQUEST_HEADER_LEN
proof (unfold_locales, goal_cases)
  case (1 buf m)
  then show ?case by (cases m) (simp add: encode_request_bytes, simp add: REQUEST_HEADER_LEN_def)
next
  case (2 buf m)
  then show ?case by (cases m) (simp add: encode_request_bytes decode_request_bytes le_word_le_bytes)
qed

interpretation response_codec: wire_codec
  "\<lambda>(seq, worker_id, send_ns). encode_response seq worker_id send_ns" decode_response RESPONSE_LEN
proof (unfold_locales, goal_cases)
  case (1 buf m)
  then show ?case by (cases m) (simp add: encode_response_bytes, simp add: RESPONSE_LEN_def)
next
  case (2 buf m)
  then show ?case by (cases m) (simp add: encode_response_bytes decode_response_bytes le_word_le_bytes)
qed

section \<open>Properties\<close>

text \<open>
  C31: A request survives the wire: whatever the buffer held, decoding the header written into it
  gives back the sequence number, the cost and the client timestamp; and a received header is
  refused exactly when it does not start with the four bytes of the magic.
\<close>

theorem request_round_trip:
  assumes "length buf = REQUEST_HEADER_LEN"
  shows "decode_request (encode_request seq service_us send_ns buf) = Some (seq, service_us, send_ns) \<and>
    (decode_request buf = None \<longleftrightarrow> take 4 buf \<noteq> [0x4d, 0x52, 0x45, 0x48])"
proof
  show "decode_request (encode_request seq service_us send_ns buf) = Some (seq, service_us, send_ns)"
    using request_codec.dec_enc [OF assms, of "(seq, service_us, send_ns)"] by simp
  obtain m s c r t where b: "buf = m @ s @ c @ r @ t"
    and l: "length m = 4" "length s = 4" "length c = 4" "length r = 4" "length t = 8"
    using split_request [OF assms] .
  have "m = le_bytes 4 REQUEST_MAGIC \<longleftrightarrow> le_word m = REQUEST_MAGIC"
    using l(1) le_bytes_le_word [where 'a = 32, of 4 m] le_word_le_bytes [of 4 REQUEST_MAGIC] by auto
  moreover have "le_bytes 4 REQUEST_MAGIC = [0x4d, 0x52, 0x45, 0x48]" by code_simp
  ultimately show "decode_request buf = None \<longleftrightarrow> take 4 buf \<noteq> [0x4d, 0x52, 0x45, 0x48]"
    using l by (simp add: b decode_request_bytes)
qed

theorem request_round_trip_witness:
  "decode_request (encode_request 3 1500 (- 7) (replicate 24 0xff)) = Some (3, 1500, - 7) \<and>
   (decode_request (replicate 24 0xff) = None \<longleftrightarrow> take 4 (replicate 24 (0xff :: u8)) \<noteq> [0x4d, 0x52, 0x45, 0x48])"
  by (rule request_round_trip) (simp add: REQUEST_HEADER_LEN_def)

text \<open>
  Decoding loses nothing but the reserved field: re-encoding the three fields of an accepted
  header reproduces it, with the reserved bytes 12 to 15 set to zero.
\<close>

lemma decoded_request_reencodes:
  assumes "length buf = REQUEST_HEADER_LEN" and "length buf' = REQUEST_HEADER_LEN"
    and "decode_request buf = Some (seq, service_us, send_ns)"
  shows "encode_request seq service_us send_ns buf' = take 12 buf @ [0, 0, 0, 0] @ drop 16 buf"
proof -
  obtain m s c r t where b: "buf = m @ s @ c @ r @ t"
    and l: "length m = 4" "length s = 4" "length c = 4" "length r = 4" "length t = 8"
    using split_request [OF assms(1)] .
  have "le_word m = REQUEST_MAGIC" and f: "seq = le_word s" "service_us = le_word c" "send_ns = le_word t"
    using assms(3) l by (simp_all add: b decode_request_bytes split: if_splits)
  then have "m = le_bytes 4 REQUEST_MAGIC"
    using l(1) le_bytes_le_word [where 'a = 32, of 4 m] by simp
  moreover have "le_bytes 4 (0 :: u32) = [0, 0, 0, 0]" by code_simp
  ultimately show ?thesis
    using l by (simp add: encode_request_bytes [OF assms(2)] b f le_bytes_le_word)
qed

lemma decoded_request_reencodes_witness:
  "encode_request 1 2 3 (replicate 24 9) =
     take 12 (encode_request 1 2 3 (replicate 24 0)) @ [0, 0, 0, 0] @
     drop 16 (encode_request 1 2 3 (replicate 24 0))"
  by (rule decoded_request_reencodes) (simp_all add: REQUEST_HEADER_LEN_def, code_simp+)

text \<open>
  Responses and 16-byte buffers correspond one to one: decoding undoes encoding, and
  encoding what was decoded restores the received bytes.
\<close>

lemma response_round_trip:
  assumes "length buf = RESPONSE_LEN" and "length buf' = RESPONSE_LEN"
  shows "decode_response (encode_response seq worker_id send_ns buf) = Some (seq, worker_id, send_ns) \<and>
    map_option (\<lambda>(s, w, t). encode_response s w t buf') (decode_response buf) = Some buf"
proof
  show "decode_response (encode_response seq worker_id send_ns buf) = Some (seq, worker_id, send_ns)"
    using response_codec.dec_enc [OF assms(1), of "(seq, worker_id, send_ns)"] by simp
  obtain s w t where "buf = s @ w @ t" "length s = 4" "length w = 4" "length t = 8"
    using split_response [OF assms(1)] .
  then show "map_option (\<lambda>(s, w, t). encode_response s w t buf') (decode_response buf) = Some buf"
    by (simp add: decode_response_bytes encode_response_bytes [OF assms(2)] le_bytes_le_word)
qed

lemma response_round_trip_witness:
  "decode_response (encode_response 5 2 99 (replicate 16 1)) = Some (5, 2, 99) \<and>
   map_option (\<lambda>(s, w, t). encode_response s w t (replicate 16 0)) (decode_response (replicate 16 1))
     = Some (replicate 16 1)"
  by (rule response_round_trip) (simp_all add: RESPONSE_LEN_def)

end
