(* ===== verification/Sim_Queue.thy ===== *)
theory Sim_Queue
  imports Prelude
begin

text \<open>
  The simulated accept queue of \<open>userspace_simulation/src/shm.rs\<close>: a ring buffer of
  \<open>QUEUE_CAP\<close> slots with 32-bit indices that wrap. This theory has the operations as a caller
  sees them, and shows that they are a bounded first-in first-out queue, the interface
  \<open>bounded_fifo\<close>. The single memory accesses of the two processes are in \<open>Sim_Spsc\<close>.
\<close>

section \<open>The ring\<close>

definition QUEUE_CAP :: nat where
  "QUEUE_CAP = 512"

record conn_desc =
  conn_id :: u64
  desc_hash :: u64
  arrival_ns :: i64
  service_us :: u32
  lifetime_ms :: u32

record conn_queue =
  q_tail :: u32
  q_head :: u32
  q_slots :: "conn_desc list"

definition push :: "conn_queue \<Rightarrow> conn_desc \<Rightarrow> bool \<times> conn_queue" where
  "push q desc =
     (let tail = q_tail q; head = q_head q
      in if QUEUE_CAP \<le> unat (tail - head) then (False, q)
         else (True, q\<lparr>q_slots := (q_slots q)[unat tail mod QUEUE_CAP := desc], q_tail := tail + 1\<rparr>))"

definition pop :: "conn_queue \<Rightarrow> conn_desc option \<times> conn_queue" where
  "pop q =
     (let head = q_head q; tail = q_tail q
      in if head = tail then (None, q)
         else let desc = q_slots q ! (unat head mod QUEUE_CAP)
              in (Some desc, q\<lparr>q_head := head + 1\<rparr>))"

definition queue_len :: "conn_queue \<Rightarrow> nat" where
  "queue_len q = (let tail = q_tail q; head = q_head q in unat (tail - head))"

definition queue_is_empty :: "conn_queue \<Rightarrow> bool" where
  "queue_is_empty q \<longleftrightarrow> queue_len q = 0"

section \<open>A bounded first-in first-out queue\<close>

locale bounded_fifo =
  fixes enq :: "'q \<Rightarrow> 'a \<Rightarrow> bool \<times> 'q"
    and deq :: "'q \<Rightarrow> 'a option \<times> 'q"
    and len :: "'q \<Rightarrow> nat"
    and items :: "'q \<Rightarrow> 'a list"
    and inv :: "'q \<Rightarrow> bool"
    and cap :: nat
  assumes len_items: "inv q \<Longrightarrow> len q = length (items q)"
    and len_cap: "inv q \<Longrightarrow> len q \<le> cap"
    and enq_full: "inv q \<Longrightarrow> len q = cap \<Longrightarrow> enq q x = (False, q)"
    and enq_ok: "inv q \<Longrightarrow> len q < cap \<Longrightarrow>
      fst (enq q x) \<and> items (snd (enq q x)) = items q @ [x] \<and> inv (snd (enq q x))"
    and deq_empty: "inv q \<Longrightarrow> items q = [] \<Longrightarrow> deq q = (None, q)"
    and deq_ok: "inv q \<Longrightarrow> items q = x # xs \<Longrightarrow>
      fst (deq q) = Some x \<and> items (snd (deq q)) = xs \<and> inv (snd (deq q))"
begin

lemma enq_cases:
  assumes "inv q"
  shows "inv (snd (enq q x)) \<and>
    items (snd (enq q x)) = (if length (items q) < cap then items q @ [x] else items q) \<and>
    fst (enq q x) = (length (items q) < cap)"
proof (cases "len q < cap")
  case True
  with assms show ?thesis using enq_ok [OF assms] by (simp add: len_items)
next
  case False
  with assms have "len q = cap" using len_cap [OF assms] by simp
  with assms enq_full [OF assms] show ?thesis by (simp add: len_items)
qed

lemma deq_cases:
  assumes "inv q"
  shows "inv (snd (deq q)) \<and> items (snd (deq q)) = tl (items q) \<and>
    fst (deq q) = (case items q of [] \<Rightarrow> None | x # _ \<Rightarrow> Some x)"
  using assms deq_empty [OF assms] deq_ok [OF assms] by (cases "items q") auto

end

text \<open>Running a script of operations, on any queue and on the abstract list.\<close>

datatype 'a qop = Enq 'a | Deq

fun run_queue ::
  "('q \<Rightarrow> 'a \<Rightarrow> bool \<times> 'q) \<Rightarrow> ('q \<Rightarrow> 'a option \<times> 'q) \<Rightarrow> 'q \<Rightarrow> 'a qop list \<Rightarrow> (bool + 'a option) list \<times> 'q" where
  "run_queue enq deq q [] = ([], q)"
| "run_queue enq deq q (Enq x # ops) =
     (let (ok, q) = enq q x; (rs, q) = run_queue enq deq q ops in (Inl ok # rs, q))"
| "run_queue enq deq q (Deq # ops) =
     (let (r, q) = deq q; (rs, q) = run_queue enq deq q ops in (Inr r # rs, q))"

definition list_enq :: "nat \<Rightarrow> 'a list \<Rightarrow> 'a \<Rightarrow> bool \<times> 'a list" where
  "list_enq cap xs x = (if length xs < cap then (True, xs @ [x]) else (False, xs))"

definition list_deq :: "'a list \<Rightarrow> 'a option \<times> 'a list" where
  "list_deq xs = (case xs of [] \<Rightarrow> (None, []) | x # ys \<Rightarrow> (Some x, ys))"

context bounded_fifo
begin

lemma run_refines:
  assumes "inv q"
  shows "inv (snd (run_queue enq deq q ops)) \<and>
    run_queue (list_enq cap) list_deq (items q) ops =
      (fst (run_queue enq deq q ops), items (snd (run_queue enq deq q ops)))"
  using assms
proof (induction ops arbitrary: q)
  case Nil
  then show ?case by simp
next
  case (Cons op ops)
  show ?case
  proof (cases op)
    case (Enq x)
    then show ?thesis
      using Cons.IH [of "snd (enq q x)"] enq_cases [OF Cons.prems, of x]
      by (auto simp: list_enq_def Let_def split: prod.splits if_splits)
  next
    case Deq
    then show ?thesis
      using Cons.IH [of "snd (deq q)"] deq_cases [OF Cons.prems]
      by (auto simp: list_deq_def Let_def split: prod.splits list.splits)
  qed
qed

end

section \<open>The ring is such a queue\<close>

definition slot_of :: "u32 \<Rightarrow> nat \<Rightarrow> nat" where
  "slot_of idx i = (unat idx + i) mod QUEUE_CAP"

definition queue_list :: "conn_queue \<Rightarrow> conn_desc list" where
  "queue_list q = map (\<lambda>i. q_slots q ! slot_of (q_head q) i) [0..<queue_len q]"

definition queue_inv :: "conn_queue \<Rightarrow> bool" where
  "queue_inv q \<longleftrightarrow> length (q_slots q) = QUEUE_CAP \<and> queue_len q \<le> QUEUE_CAP"

lemma QUEUE_CAP_pos [simp]: "0 < QUEUE_CAP"
  by (simp add: QUEUE_CAP_def)

lemma QUEUE_CAP_neq_0 [simp]: "QUEUE_CAP \<noteq> 0"
  by (simp add: QUEUE_CAP_def)

lemma slot_of_less [simp]: "slot_of idx i < QUEUE_CAP"
  by (simp add: slot_of_def)

text \<open>The capacity divides the range of the indices, so wrapping does not disturb the slots.\<close>

lemma unat_add_mod_cap: "unat (idx + of_nat i) mod QUEUE_CAP = slot_of idx i" for idx :: u32
proof -
  have "QUEUE_CAP dvd 2 ^ 32" by (simp add: QUEUE_CAP_def)
  moreover have "unat (idx + of_nat i) = (unat idx + i) mod 2 ^ 32"
    by (simp add: unat_word_ariths unat_of_nat take_bit_eq_mod mod_simps)
  ultimately show ?thesis by (simp add: slot_of_def mod_mod_cancel)
qed

lemma slot_of_0: "unat idx mod QUEUE_CAP = slot_of idx 0"
  by (simp add: slot_of_def)

lemma slot_of_Suc: "slot_of (idx + 1) i = slot_of idx (Suc i)" for idx :: u32
proof -
  have "slot_of (idx + 1) i = unat (idx + of_nat (Suc i)) mod QUEUE_CAP"
    unfolding unat_add_mod_cap [symmetric] by (simp add: add.assoc)
  then show ?thesis by (simp only: unat_add_mod_cap)
qed

lemma slot_of_distinct:
  assumes "i < j" and "j < i + QUEUE_CAP"
  shows "slot_of idx i \<noteq> slot_of idx j"
proof
  assume "slot_of idx i = slot_of idx j"
  then have "QUEUE_CAP dvd (unat idx + j) - (unat idx + i)"
    unfolding slot_of_def using mod_eq_dvd_iff_nat assms(1) by (metis add_le_cancel_left less_imp_le)
  then have "QUEUE_CAP \<le> j - i" using assms(1) by (auto dest: dvd_imp_le)
  then show False using assms by simp
qed

lemma tail_slot: "unat (q_tail q) mod QUEUE_CAP = slot_of (q_head q) (queue_len q)"
proof -
  have "q_tail q = q_head q + of_nat (queue_len q)"
    by (simp add: queue_len_def)
  then show ?thesis by (metis unat_add_mod_cap)
qed

lemma length_queue_list [simp]: "length (queue_list q) = queue_len q"
  by (simp add: queue_list_def)

lemma unat_plus_1: "unat w < 2 ^ 32 - 1 \<Longrightarrow> unat (w + 1) = Suc (unat w)" for w :: u32
  by (simp add: unat_word_ariths)

lemma unat_tail_inc:
  fixes t h :: u32
  assumes "unat (t - h) < QUEUE_CAP"
  shows "unat (t + 1 - h) = Suc (unat (t - h))"
proof -
  have "t + 1 - h = (t - h) + 1" by simp
  moreover have "unat ((t - h) + 1) = Suc (unat (t - h))"
    using assms by (intro unat_plus_1) (simp add: QUEUE_CAP_def)
  ultimately show ?thesis by (simp only:)
qed

lemma unat_head_inc:
  fixes t h :: u32
  assumes "h \<noteq> t"
  shows "Suc (unat (t - (h + 1))) = unat (t - h)"
proof -
  have "t - h \<noteq> 0" using assms by simp
  then have "unat (t - h - 1) = unat (t - h) - 1" and "0 < unat (t - h)"
    using unat_minus_one [of "t - h"] unat_gt_0 [of "t - h"] by blast+
  moreover have "t - (h + 1) = t - h - 1" by simp
  ultimately show ?thesis by (simp only: Suc_diff_1)
qed

lemma queue_len_tail_inc:
  assumes "queue_len q < QUEUE_CAP"
  shows "queue_len (q\<lparr>q_slots := xs, q_tail := q_tail q + 1\<rparr>) = Suc (queue_len q)"
  using assms unat_tail_inc [of "q_tail q" "q_head q"] by (simp add: queue_len_def Let_def)

lemma queue_len_head_inc:
  assumes "q_head q \<noteq> q_tail q"
  shows "Suc (queue_len (q\<lparr>q_head := q_head q + 1\<rparr>)) = queue_len q"
  using unat_head_inc [OF assms] by (simp add: queue_len_def Let_def)

lemma queue_len_0_iff: "queue_len q = 0 \<longleftrightarrow> q_head q = q_tail q"
  by (simp add: queue_len_def unsigned_eq_0_iff) (metis right_minus_eq)

lemma queue_list_write_tail:
  assumes "queue_inv q" and "queue_len q < QUEUE_CAP"
  shows "queue_list (q\<lparr>q_slots := (q_slots q)[unat (q_tail q) mod QUEUE_CAP := d]\<rparr>) = queue_list q"
proof -
  have "slot_of (q_head q) i \<noteq> slot_of (q_head q) (queue_len q)" if "i < queue_len q" for i
    using that assms(2) by (intro slot_of_distinct) simp_all
  moreover have "queue_len (q\<lparr>q_slots := xs\<rparr>) = queue_len q" for xs
    by (simp add: queue_len_def Let_def)
  ultimately show ?thesis
    by (simp add: queue_list_def tail_slot nth_list_update_neq [OF not_sym])
qed

lemma queue_list_push:
  assumes "queue_inv q" and "queue_len q < QUEUE_CAP"
  shows "queue_list (q\<lparr>q_slots := (q_slots q)[unat (q_tail q) mod QUEUE_CAP := d], q_tail := q_tail q + 1\<rparr>)
    = queue_list q @ [d]"
proof -
  let ?q = "q\<lparr>q_slots := (q_slots q)[unat (q_tail q) mod QUEUE_CAP := d], q_tail := q_tail q + 1\<rparr>"
  have "map (\<lambda>i. q_slots ?q ! slot_of (q_head q) i) [0..<queue_len q] = queue_list q"
    using queue_list_write_tail [OF assms, of d] by (simp add: queue_list_def queue_len_def)
  moreover have "q_slots ?q ! slot_of (q_head q) (queue_len q) = d"
    using assms(1) by (simp add: tail_slot queue_inv_def)
  ultimately show ?thesis
    using queue_len_tail_inc [OF assms(2)] by (simp add: queue_list_def)
qed

lemma queue_list_pop:
  assumes "q_head q \<noteq> q_tail q"
  shows "queue_list q = q_slots q ! (unat (q_head q) mod QUEUE_CAP) # queue_list (q\<lparr>q_head := q_head q + 1\<rparr>)"
proof -
  let ?q = "q\<lparr>q_head := q_head q + 1\<rparr>"
  have "queue_list q = map (\<lambda>i. q_slots q ! slot_of (q_head q) i) [0..<Suc (queue_len ?q)]"
    using queue_len_head_inc [OF assms] by (simp only: queue_list_def)
  also have "\<dots> = q_slots q ! slot_of (q_head q) 0 #
      map (\<lambda>i. q_slots q ! slot_of (q_head q) (Suc i)) [0..<queue_len ?q]"
    by (simp only: upt_conv_Cons zero_less_Suc list.map map_Suc_upt [symmetric] map_map comp_def)
  finally show ?thesis
    by (simp add: queue_list_def slot_of_0 slot_of_Suc)
qed

lemma queue_inv_push:
  assumes "queue_inv q" and "queue_len q < QUEUE_CAP"
  shows "queue_inv (q\<lparr>q_slots := (q_slots q)[k := d], q_tail := q_tail q + 1\<rparr>)"
  using assms queue_len_tail_inc [OF assms(2)] by (simp add: queue_inv_def)

lemma queue_inv_pop:
  assumes "queue_inv q" and "q_head q \<noteq> q_tail q"
  shows "queue_inv (q\<lparr>q_head := q_head q + 1\<rparr>)"
  using assms queue_len_head_inc [OF assms(2)] by (simp add: queue_inv_def)

interpretation ring: bounded_fifo push pop queue_len queue_list queue_inv QUEUE_CAP
proof (unfold_locales, goal_cases)
  case (1 q)
  then show ?case by simp
next
  case (2 q)
  then show ?case by (simp add: queue_inv_def)
next
  case (3 q x)
  then show ?case by (simp add: push_def queue_len_def Let_def)
next
  case (4 q x)
  then have "\<not> QUEUE_CAP \<le> unat (q_tail q - q_head q)" by (simp add: queue_len_def Let_def)
  with 4 show ?case by (simp add: push_def Let_def queue_list_push queue_inv_push)
next
  case (5 q)
  then have "q_head q = q_tail q" by (metis length_queue_list list.size(3) queue_len_0_iff)
  then show ?case by (simp add: pop_def Let_def)
next
  case (6 q x xs)
  then have "q_head q \<noteq> q_tail q" by (metis length_queue_list list.size(3) list.distinct(1) length_0_conv queue_len_0_iff)
  with 6 show ?case by (simp add: pop_def Let_def queue_list_pop queue_inv_pop)
qed

text \<open>
  The accept queue is a bounded first-in first-out queue: whatever the two 32-bit indices of
  a well-formed ring are, every sequence of \<open>push\<close> and \<open>pop\<close> calls returns exactly what a list of
  capacity \<open>QUEUE_CAP\<close> returns (a push is refused when the list is full, a pop gives the oldest
  element), and the ring stays well formed; this includes the moments where an index wraps
  around to zero.
\<close>

lemma ring_refines_bounded_list:
  assumes "queue_inv q"
  shows "run_queue (list_enq QUEUE_CAP) list_deq (queue_list q) ops =
      (fst (run_queue push pop q ops), queue_list (snd (run_queue push pop q ops))) \<and>
    queue_inv (snd (run_queue push pop q ops))"
  using ring.run_refines [OF assms, of ops] by simp

definition sample_desc :: "u64 \<Rightarrow> conn_desc" where
  "sample_desc k = \<lparr>conn_id = k, desc_hash = 7 * k, arrival_ns = 1000, service_us = 50, lifetime_ms = 10\<rparr>"

definition sample_queue :: conn_queue where
  "sample_queue = \<lparr>q_tail = - 1, q_head = - 1, q_slots = replicate QUEUE_CAP (sample_desc 0)\<rparr>"

lemma sample_queue_facts: "queue_inv sample_queue" "queue_list sample_queue = []"
  by (simp_all add: queue_inv_def queue_list_def queue_len_def sample_queue_def Let_def)

text \<open>Both indices start at the largest 32-bit value, so the second push finds a wrapped tail.\<close>

lemma ring_refines_bounded_list_witness:
  "fst (run_queue push pop sample_queue
      [Enq (sample_desc 1), Enq (sample_desc 2), Deq, Deq, Deq]) =
    [Inl True, Inl True, Inr (Some (sample_desc 1)), Inr (Some (sample_desc 2)), Inr None]"
  using ring_refines_bounded_list [OF sample_queue_facts(1),
      of "[Enq (sample_desc 1), Enq (sample_desc 2), Deq, Deq, Deq]"]
  by (simp add: sample_queue_facts(2) list_enq_def list_deq_def QUEUE_CAP_def)

end
