(* ===== verification/Sim_Spsc.thy ===== *)
theory Sim_Spsc
  imports Sim_Queue
begin

text \<open>
  The accept queue of \<open>userspace_simulation/src/shm.rs\<close> under concurrency. \<open>push\<close> and \<open>pop\<close> are
  split into their single accesses of the shared memory, in program order; the producer (the
  generator) and the consumer (the owning worker) interleave them arbitrarily. The indices are
  published with release stores and read with acquire loads, so an access is seen by the other
  side no later than the index store that follows it, which \<open>Sim_Weak_Queue\<close> models; here whole
  accesses are interleaved.
\<close>

section \<open>One access at a time\<close>

datatype push_pc =
    P_Start conn_desc
  | P_Tail conn_desc u32
  | P_Both conn_desc u32 u32
  | P_Written conn_desc u32
  | P_Done bool

fun push_access :: "push_pc \<Rightarrow> conn_queue \<Rightarrow> push_pc \<times> conn_queue" where
  "push_access (P_Start desc) q = (P_Tail desc (q_tail q), q)"
| "push_access (P_Tail desc tail) q = (P_Both desc tail (q_head q), q)"
| "push_access (P_Both desc tail head) q =
     (if QUEUE_CAP \<le> unat (tail - head) then (P_Done False, q)
      else (P_Written desc tail, q\<lparr>q_slots := (q_slots q)[unat tail mod QUEUE_CAP := desc]\<rparr>))"
| "push_access (P_Written desc tail) q = (P_Done True, q\<lparr>q_tail := tail + 1\<rparr>)"
| "push_access (P_Done ok) q = (P_Done ok, q)"

datatype pop_pc =
    C_Start
  | C_Head u32
  | C_Both u32 u32
  | C_Read u32 conn_desc
  | C_Done "conn_desc option"

fun pop_access :: "pop_pc \<Rightarrow> conn_queue \<Rightarrow> pop_pc \<times> conn_queue" where
  "pop_access C_Start q = (C_Head (q_head q), q)"
| "pop_access (C_Head head) q = (C_Both head (q_tail q), q)"
| "pop_access (C_Both head tail) q =
     (if head = tail then (C_Done None, q)
      else (C_Read head (q_slots q ! (unat head mod QUEUE_CAP)), q))"
| "pop_access (C_Read head desc) q = (C_Done (Some desc), q\<lparr>q_head := head + 1\<rparr>)"
| "pop_access (C_Done r) q = (C_Done r, q)"

text \<open>Running a routine alone: with no interference the accesses add up to the operation.\<close>

definition push_alone :: "conn_desc \<Rightarrow> conn_queue \<Rightarrow> push_pc \<times> conn_queue" where
  "push_alone desc q = ((\<lambda>(pc, q). push_access pc q) ^^ 4) (P_Start desc, q)"

definition pop_alone :: "conn_queue \<Rightarrow> pop_pc \<times> conn_queue" where
  "pop_alone q = ((\<lambda>(pc, q). pop_access pc q) ^^ 4) (C_Start, q)"

section \<open>The two processes\<close>

record spsc =
  ring :: conn_queue
  producer :: push_pc
  consumer :: pop_pc
  sent :: "conn_desc list"
  got :: "conn_desc list"

text \<open>
  The lists \<open>sent\<close> and \<open>got\<close> record the descriptors for which \<open>push\<close> returned true and those \<open>pop\<close>
  returned; no step reads them.
\<close>

inductive spsc_step :: "spsc \<Rightarrow> spsc \<Rightarrow> bool" where
  push_call: "producer s = P_Done ok \<Longrightarrow> spsc_step s (s\<lparr>producer := P_Start desc\<rparr>)"
| pop_call: "consumer s = C_Done r \<Longrightarrow> spsc_step s (s\<lparr>consumer := C_Start\<rparr>)"
| push_load: "push_access (producer s) (ring s) = (pc, q) \<Longrightarrow> pc \<noteq> P_Done True \<Longrightarrow>
    spsc_step s (s\<lparr>producer := pc, ring := q\<rparr>)"
| push_publish: "producer s = P_Written desc tail \<Longrightarrow>
    push_access (producer s) (ring s) = (pc, q) \<Longrightarrow>
    spsc_step s (s\<lparr>producer := pc, ring := q, sent := sent s @ [desc]\<rparr>)"
| pop_load: "pop_access (consumer s) (ring s) = (pc, q) \<Longrightarrow> (\<forall>desc. pc \<noteq> C_Done (Some desc)) \<Longrightarrow>
    spsc_step s (s\<lparr>consumer := pc, ring := q\<rparr>)"
| pop_publish: "consumer s = C_Read head desc \<Longrightarrow>
    pop_access (consumer s) (ring s) = (pc, q) \<Longrightarrow>
    spsc_step s (s\<lparr>consumer := pc, ring := q, got := got s @ [desc]\<rparr>)"

definition spsc_init :: "conn_queue \<Rightarrow> spsc" where
  "spsc_init q = \<lparr>ring = q, producer = P_Done True, consumer = C_Done None, sent = queue_list q, got = []\<rparr>"

inductive spsc_reachable :: "spsc \<Rightarrow> bool" where
  init: "queue_inv q \<Longrightarrow> spsc_reachable (spsc_init q)"
| step: "spsc_reachable s \<Longrightarrow> spsc_step s s' \<Longrightarrow> spsc_reachable s'"

section \<open>The invariant\<close>

fun producer_ok :: "conn_queue \<Rightarrow> push_pc \<Rightarrow> bool" where
  "producer_ok q (P_Start desc) = True"
| "producer_ok q (P_Tail desc tail) = (tail = q_tail q)"
| "producer_ok q (P_Both desc tail head) =
     (tail = q_tail q \<and> queue_len q \<le> unat (tail - head) \<and> unat (tail - head) \<le> QUEUE_CAP)"
| "producer_ok q (P_Written desc tail) =
     (tail = q_tail q \<and> queue_len q < QUEUE_CAP \<and> q_slots q ! (unat tail mod QUEUE_CAP) = desc)"
| "producer_ok q (P_Done ok) = True"

fun consumer_ok :: "conn_queue \<Rightarrow> pop_pc \<Rightarrow> bool" where
  "consumer_ok q C_Start = True"
| "consumer_ok q (C_Head head) = (head = q_head q)"
| "consumer_ok q (C_Both head tail) = (head = q_head q \<and> unat (tail - head) \<le> queue_len q)"
| "consumer_ok q (C_Read head desc) =
     (head = q_head q \<and> queue_list q \<noteq> [] \<and> desc = hd (queue_list q))"
| "consumer_ok q (C_Done r) = True"

definition spsc_inv :: "spsc \<Rightarrow> bool" where
  "spsc_inv s \<longleftrightarrow> queue_inv (ring s) \<and> producer_ok (ring s) (producer s) \<and>
     consumer_ok (ring s) (consumer s) \<and> sent s = got s @ queue_list (ring s)"

text \<open>What each effect of one side does to the other side's assertion.\<close>

lemma queue_len_slots [simp]: "queue_len (q\<lparr>q_slots := xs\<rparr>) = queue_len q"
  by (simp add: queue_len_def)

lemma consumer_ok_write:
  assumes "queue_inv q" and "queue_len q < QUEUE_CAP" and "consumer_ok q pc"
  shows "consumer_ok (q\<lparr>q_slots := (q_slots q)[unat (q_tail q) mod QUEUE_CAP := desc]\<rparr>) pc"
  using assms(3) by (cases pc) (simp_all add: queue_list_write_tail [OF assms(1,2)])

text \<open>Publishing a written slot appends it.\<close>

lemma queue_list_publish:
  assumes "queue_inv q" and "queue_len q < QUEUE_CAP"
  shows "queue_list (q\<lparr>q_tail := q_tail q + 1\<rparr>) =
    queue_list q @ [q_slots q ! (unat (q_tail q) mod QUEUE_CAP)]"
  using queue_list_push [OF assms, of "q_slots q ! (unat (q_tail q) mod QUEUE_CAP)"]
  by (simp add: list_update_id)

lemma queue_len_publish:
  assumes "queue_len q < QUEUE_CAP"
  shows "queue_len (q\<lparr>q_tail := q_tail q + 1\<rparr>) = Suc (queue_len q)"
  using queue_len_tail_inc [OF assms, of "q_slots q"] by simp

lemma queue_inv_publish:
  assumes "queue_inv q" and "queue_len q < QUEUE_CAP"
  shows "queue_inv (q\<lparr>q_tail := q_tail q + 1\<rparr>)"
  using assms queue_len_publish [OF assms(2)] by (simp add: queue_inv_def)

lemma consumer_ok_publish:
  assumes "queue_inv q" and "queue_len q < QUEUE_CAP" and "consumer_ok q pc"
  shows "consumer_ok (q\<lparr>q_tail := q_tail q + 1\<rparr>) pc"
  using assms(3) by (cases pc)
    (simp_all add: queue_list_publish [OF assms(1,2)] queue_len_publish [OF assms(2)])

lemma producer_ok_consume:
  assumes "q_head q \<noteq> q_tail q" and "producer_ok q pc"
  shows "producer_ok (q\<lparr>q_head := q_head q + 1\<rparr>) pc"
  using assms(2) queue_len_head_inc [OF assms(1)] by (cases pc) auto

text \<open>One access of either side, from any reachable control point.\<close>

lemma push_access_ok:
  assumes "queue_inv q" and "producer_ok q pc" and "consumer_ok q c" and "push_access pc q = (pc', q')"
  shows "queue_inv q' \<and> producer_ok q' pc' \<and> consumer_ok q' c \<and>
    queue_list q' = queue_list q @ (case pc of P_Written desc tail \<Rightarrow> [desc] | _ \<Rightarrow> [])"
proof (cases pc)
  case (P_Tail desc tail)
  then show ?thesis using assms by (auto simp: queue_len_def queue_inv_def Let_def)
next
  case (P_Both desc tail head)
  show ?thesis
  proof (cases "QUEUE_CAP \<le> unat (tail - head)")
    case True
    then show ?thesis using assms P_Both by auto
  next
    case False
    with assms P_Both have lt: "queue_len q < QUEUE_CAP" by auto
    then show ?thesis
      using assms P_Both False lt consumer_ok_write [OF assms(1) lt assms(3)]
        queue_list_write_tail [OF assms(1) lt]
      by (auto simp: queue_inv_def)
  qed
next
  case (P_Written desc tail)
  with assms have lt: "queue_len q < QUEUE_CAP" by simp
  show ?thesis
    using assms P_Written queue_inv_publish [OF assms(1) lt] queue_list_publish [OF assms(1) lt]
      consumer_ok_publish [OF assms(1) lt assms(3)]
    by auto
qed (use assms in auto)

lemma pop_access_ok:
  assumes "queue_inv q" and "producer_ok q p" and "consumer_ok q pc" and "pop_access pc q = (pc', q')"
  shows "queue_inv q' \<and> producer_ok q' p \<and> consumer_ok q' pc' \<and>
    queue_list q = (case pc of C_Read head desc \<Rightarrow> [desc] | _ \<Rightarrow> []) @ queue_list q'"
proof (cases pc)
  case (C_Head head)
  then show ?thesis using assms by (auto simp: queue_len_def Let_def)
next
  case (C_Both head tail)
  show ?thesis
  proof (cases "head = tail")
    case True
    then show ?thesis using assms C_Both by auto
  next
    case False
    then have "0 < unat (tail - head)"
      by (metis eq_iff_diff_eq_0 unat_gt_0)
    then have ne: "q_head q \<noteq> q_tail q"
      using assms(3) C_Both queue_len_0_iff [of q] by auto
    then show ?thesis
      using assms C_Both False queue_list_pop [OF ne] by auto
  qed
next
  case (C_Read head desc)
  with assms(3) have ne: "q_head q \<noteq> q_tail q"
    by (metis consumer_ok.simps(4) length_0_conv length_queue_list queue_len_0_iff)
  show ?thesis
    using assms C_Read queue_inv_pop [OF assms(1) ne] producer_ok_consume [OF ne assms(2)]
      queue_list_pop [OF ne]
    by auto
qed (use assms in auto)

lemma spsc_step_inv:
  assumes "spsc_step s s'" and "spsc_inv s"
  shows "spsc_inv s'"
  using assms
proof (induction rule: spsc_step.induct)
  case (push_load s pc q)
  then have "\<not> (\<exists>desc tail. producer s = P_Written desc tail)" by auto
  with push_load show ?case
    using push_access_ok [of "ring s" "producer s" "consumer s" pc q]
    by (auto simp: spsc_inv_def split: push_pc.splits)
next
  case (push_publish s desc tail pc q)
  then show ?case
    using push_access_ok [of "ring s" "producer s" "consumer s" pc q]
    by (auto simp: spsc_inv_def)
next
  case (pop_load s pc q)
  then have "\<not> (\<exists>head desc. consumer s = C_Read head desc)" by auto
  with pop_load show ?case
    using pop_access_ok [of "ring s" "producer s" "consumer s" pc q]
    by (auto simp: spsc_inv_def split: pop_pc.splits)
next
  case (pop_publish s head desc pc q)
  then show ?case
    using pop_access_ok [of "ring s" "producer s" "consumer s" pc q]
    by (simp add: spsc_inv_def)
qed (simp_all add: spsc_inv_def)

lemma spsc_reachable_inv: "spsc_reachable s \<Longrightarrow> spsc_inv s"
proof (induction rule: spsc_reachable.induct)
  case (init q)
  then show ?case by (simp add: spsc_init_def spsc_inv_def)
next
  case (step s s')
  then show ?case by (blast intro: spsc_step_inv)
qed

section \<open>Executing an interleaving\<close>

text \<open>The interleaving as a list of moves; a move that is not possible changes nothing.\<close>

datatype spsc_move = Call_Push conn_desc | Call_Pop | Push_Access | Pop_Access

fun do_move :: "spsc_move \<Rightarrow> spsc \<Rightarrow> spsc" where
  "do_move (Call_Push desc) s =
     (case producer s of P_Done ok \<Rightarrow> s\<lparr>producer := P_Start desc\<rparr> | _ \<Rightarrow> s)"
| "do_move Call_Pop s =
     (case consumer s of C_Done r \<Rightarrow> s\<lparr>consumer := C_Start\<rparr> | _ \<Rightarrow> s)"
| "do_move Push_Access s =
     (case push_access (producer s) (ring s) of (pc, q) \<Rightarrow>
       (case producer s of
          P_Written desc tail \<Rightarrow> s\<lparr>producer := pc, ring := q, sent := sent s @ [desc]\<rparr>
        | P_Done ok \<Rightarrow> s
        | _ \<Rightarrow> s\<lparr>producer := pc, ring := q\<rparr>))"
| "do_move Pop_Access s =
     (case pop_access (consumer s) (ring s) of (pc, q) \<Rightarrow>
       (case consumer s of
          C_Read head desc \<Rightarrow> s\<lparr>consumer := pc, ring := q, got := got s @ [desc]\<rparr>
        | C_Done r \<Rightarrow> s
        | _ \<Rightarrow> s\<lparr>consumer := pc, ring := q\<rparr>))"

lemma push_access_not_published:
  "push_access pc q = (pc', q') \<Longrightarrow> (\<forall>desc tail. pc \<noteq> P_Written desc tail) \<Longrightarrow> (\<forall>ok. pc \<noteq> P_Done ok) \<Longrightarrow>
    pc' \<noteq> P_Done True"
  by (cases pc) (auto split: if_splits)

lemma pop_access_not_published:
  "pop_access pc q = (pc', q') \<Longrightarrow> (\<forall>head desc. pc \<noteq> C_Read head desc) \<Longrightarrow> (\<forall>r. pc \<noteq> C_Done r) \<Longrightarrow>
    pc' \<noteq> C_Done (Some desc)"
  by (cases pc) (auto split: if_splits)

lemma do_move_step: "do_move m s = s \<or> spsc_step s (do_move m s)"
proof (cases m)
  case (Call_Push desc)
  then show ?thesis by (auto intro: spsc_step.push_call split: push_pc.splits)
next
  case Call_Pop
  then show ?thesis by (auto intro: spsc_step.pop_call split: pop_pc.splits)
next
  case Push_Access
  obtain pc q where a: "push_access (producer s) (ring s) = (pc, q)" by fastforce
  then show ?thesis
    using Push_Access push_access_not_published [OF a] spsc_step.push_load [OF a]
      spsc_step.push_publish [OF _ a]
    by (cases "producer s") (auto simp del: push_access.simps)
next
  case Pop_Access
  obtain pc q where a: "pop_access (consumer s) (ring s) = (pc, q)" by fastforce
  then show ?thesis
    using Pop_Access pop_access_not_published [OF a] spsc_step.pop_load [OF a]
      spsc_step.pop_publish [OF _ a]
    by (cases "consumer s") (auto simp del: pop_access.simps)
qed

lemma moves_reachable: "spsc_reachable s \<Longrightarrow> spsc_reachable (fold do_move ms s)"
proof (induction ms arbitrary: s)
  case (Cons m ms)
  then show ?case using do_move_step [of m s] by (auto intro: spsc_reachable.step)
qed simp

text \<open>
  A run on the ring whose indices are about to wrap: one descriptor is pushed, a second push and
  a pop are both about to touch a slot.
\<close>

definition sample_moves :: "spsc_move list" where
  "sample_moves =
     [Call_Push (sample_desc 1), Push_Access, Push_Access, Push_Access, Push_Access,
      Call_Push (sample_desc 2), Call_Pop, Push_Access, Pop_Access, Push_Access, Pop_Access]"

definition sample_spsc :: "spsc_move list \<Rightarrow> spsc" where
  "sample_spsc ms = fold do_move ms (spsc_init sample_queue)"

lemma sample_reachable: "spsc_reachable (sample_spsc ms)"
  unfolding sample_spsc_def
  by (intro moves_reachable spsc_reachable.init) (rule sample_queue_facts)

lemma unat_minus_1_u32: "unat (- 1 :: u32) = 4294967295"
  by (simp add: unsigned_minus_1_eq_mask mask_eq_exp_minus_1)

lemmas sample_model = unat_minus_1_u32 sample_spsc_def sample_moves_def spsc_init_def sample_queue_def QUEUE_CAP_def

section \<open>Properties\<close>

text \<open>The slot each side is about to access, when it has decided to.\<close>

fun writes_slot :: "push_pc \<Rightarrow> nat option" where
  "writes_slot (P_Both desc tail head) =
     (if QUEUE_CAP \<le> unat (tail - head) then None else Some (unat tail mod QUEUE_CAP))"
| "writes_slot _ = None"

fun reads_slot :: "pop_pc \<Rightarrow> nat option" where
  "reads_slot (C_Both head tail) = (if head = tail then None else Some (unat head mod QUEUE_CAP))"
| "reads_slot _ = None"

lemma slots_disjoint:
  assumes inv: "spsc_inv s" and w: "writes_slot (producer s) = Some k" and r: "reads_slot (consumer s) = Some l"
  shows "k \<noteq> l"
proof -
  from w obtain desc tail head where p: "producer s = P_Both desc tail head"
    and room: "\<not> QUEUE_CAP \<le> unat (tail - head)" and k: "k = unat tail mod QUEUE_CAP"
    by (cases "producer s") (auto split: if_splits)
  from r obtain head' tail' where c: "consumer s = C_Both head' tail'"
    and ne: "head' \<noteq> tail'" and l: "l = unat head' mod QUEUE_CAP"
    by (cases "consumer s") (auto split: if_splits)
  have tail: "tail = q_tail (ring s)" and lt: "queue_len (ring s) < QUEUE_CAP"
    using inv p room by (auto simp: spsc_inv_def)
  have "0 < unat (tail' - head')" using ne by (metis eq_iff_diff_eq_0 unat_gt_0)
  then have head: "head' = q_head (ring s)" and pos: "0 < queue_len (ring s)"
    using inv c by (auto simp: spsc_inv_def)
  have "slot_of (q_head (ring s)) 0 \<noteq> slot_of (q_head (ring s)) (queue_len (ring s))"
    using lt pos by (intro slot_of_distinct) simp_all
  then show ?thesis unfolding k l head tail tail_slot slot_of_0 [of "q_head (ring s)"] by (rule not_sym)
qed

text \<open>
  No descriptor is lost, duplicated or reordered between the generator and a worker: at every
  moment of every interleaving of their memory accesses, the descriptors whose push succeeded
  are those already popped followed by those in the ring, in order, and the ring never holds
  more than \<open>QUEUE_CAP\<close>.
\<close>

lemma spsc_fifo:
  assumes "spsc_reachable s"
  shows "sent s = got s @ queue_list (ring s) \<and> queue_len (ring s) \<le> QUEUE_CAP"
  using spsc_reachable_inv [OF assms] by (simp add: spsc_inv_def queue_inv_def)

lemma spsc_fifo_witness:
  "sent (sample_spsc (sample_moves @ [Push_Access, Pop_Access, Push_Access, Pop_Access])) =
      [sample_desc 1, sample_desc 2] \<and>
   got (sample_spsc (sample_moves @ [Push_Access, Pop_Access, Push_Access, Pop_Access])) = [sample_desc 1] \<and>
   queue_list (ring (sample_spsc (sample_moves @ [Push_Access, Pop_Access, Push_Access, Pop_Access]))) =
      [sample_desc 2]"
proof -
  let ?s = "sample_spsc (sample_moves @ [Push_Access, Pop_Access, Push_Access, Pop_Access])"
  have "sent ?s = [sample_desc 1, sample_desc 2]" and "got ?s = [sample_desc 1]" 
    using sample_queue_facts(2) by (simp_all add: sample_model)
  then show ?thesis using spsc_fifo [OF sample_reachable, of "sample_moves @ [Push_Access, Pop_Access, Push_Access, Pop_Access]"]
    by simp
qed

text \<open>
  The unsynchronised slots are free of data races: when the producer is about to write a slot
  and the consumer is about to read one, in any interleaving, they are different slots. This is
  the claim of the comment on \<open>unsafe impl Sync for ConnQueue\<close>.
\<close>

lemma spsc_no_data_race:
  assumes "spsc_reachable s" and "writes_slot (producer s) = Some k" and "reads_slot (consumer s) = Some l"
  shows "k \<noteq> l"
  by (rule slots_disjoint [OF spsc_reachable_inv [OF assms(1)] assms(2,3)])

lemma spsc_no_data_race_witness:
  "writes_slot (producer (sample_spsc sample_moves)) = Some 0 \<and>
   reads_slot (consumer (sample_spsc sample_moves)) = Some 511 \<and> (0::nat) \<noteq> 511"
proof -
  have "writes_slot (producer (sample_spsc sample_moves)) = Some 0"
    and "reads_slot (consumer (sample_spsc sample_moves)) = Some 511" 
    by (simp_all add: sample_model)
  then show ?thesis using spsc_no_data_race [OF sample_reachable, of sample_moves 0 511] by blast
qed

text \<open>
  Split into its memory accesses and run without interference, each routine is the operation:
  the four accesses of a push give the result and the ring of \<open>push\<close>, those of a pop of \<open>pop\<close>.
\<close>

lemma accesses_implement_operations:
  "push_alone desc q = (case push q desc of (ok, q') \<Rightarrow> (P_Done ok, q')) \<and>
   pop_alone q = (case pop q of (r, q') \<Rightarrow> (C_Done r, q'))"
  by (auto simp: push_alone_def pop_alone_def push_def pop_def eval_nat_numeral Let_def)

end
