(* ===== verification/Sim_Shared.thy ===== *)
theory Sim_Shared
  imports Sim_Queue Status_Table
begin

text \<open>
  The shared memory of the simulation, \<open>SharedState\<close> of \<open>userspace_simulation/src/shm.rs\<close>: the
  status table, the simulated \<open>M_Sel\<close> element, the shutdown flag, the drop counters and one accept
  queue per worker. Everything is zero-filled by \<open>mmap\<close>, and \<open>shared_ok\<close> is what every component
  keeps of it.
\<close>

section \<open>The shared state\<close>

record sel_map =
  sel_bitmap :: u64

definition sel_store :: "u64 \<Rightarrow> sel_map \<Rightarrow> sel_map" where
  "sel_store bm m = m\<lparr>sel_bitmap := bm\<rparr>"

definition sel_load :: "sel_map \<Rightarrow> u64" where
  "sel_load m = sel_bitmap m"

record shared_state =
  sh_wst :: wst
  sh_msel :: sel_map
  sh_shutdown :: u32
  sh_drops :: "u64 list"
  sh_queues :: "conn_queue list"

definition shutdown_requested :: "shared_state \<Rightarrow> bool" where
  "shutdown_requested sh \<longleftrightarrow> sh_shutdown sh = 1"

definition request_shutdown :: "shared_state \<Rightarrow> shared_state" where
  "request_shutdown sh = sh\<lparr>sh_shutdown := 1\<rparr>"

definition zeroed_desc :: conn_desc where
  "zeroed_desc = \<lparr>conn_id = 0, desc_hash = 0, arrival_ns = 0, service_us = 0, lifetime_ms = 0\<rparr>"

definition zeroed_queue :: conn_queue where
  "zeroed_queue = \<lparr>q_tail = 0, q_head = 0, q_slots = replicate QUEUE_CAP zeroed_desc\<rparr>"

definition zeroed_state :: shared_state where
  "zeroed_state =
     \<lparr>sh_wst = \<lparr>slots = replicate NUM_WORKERS worker_slot_new\<rparr>,
      sh_msel = \<lparr>sel_bitmap = 0\<rparr>, sh_shutdown = 0, sh_drops = replicate NUM_WORKERS 0,
      sh_queues = replicate NUM_WORKERS zeroed_queue\<rparr>"

definition mmap_shared_state :: "bool \<Rightarrow> map_error + shared_state" where
  "mmap_shared_state map_failed =
     (if map_failed then Inl MmapFailed
      else Inr zeroed_state)"

section \<open>What stays true of it\<close>

definition shared_ok :: "shared_state \<Rightarrow> bool" where
  "shared_ok sh \<longleftrightarrow> wst_ok (sh_wst sh) \<and> length (sh_drops sh) = NUM_WORKERS \<and>
     length (sh_queues sh) = NUM_WORKERS \<and> (\<forall>q\<in>set (sh_queues sh). queue_inv q)"

lemma zeroed_queue_empty [simp]: "queue_inv zeroed_queue" "queue_list zeroed_queue = []" "queue_len zeroed_queue = 0"
  by (simp_all add: queue_inv_def queue_list_def queue_len_def zeroed_queue_def Let_def)

lemma shared_ok_queue: "shared_ok sh \<Longrightarrow> i < NUM_WORKERS \<Longrightarrow> queue_inv (sh_queues sh ! i)"
  by (simp add: shared_ok_def)

lemma shared_ok_upd_queue:
  assumes "shared_ok sh" and "queue_inv q"
  shows "shared_ok (sh\<lparr>sh_queues := (sh_queues sh)[i := q]\<rparr>)"
  using assms set_update_subset_insert [of "sh_queues sh" i q] by (auto simp: shared_ok_def)

lemma shared_ok_upd_slot: "shared_ok sh \<Longrightarrow> shared_ok (sh\<lparr>sh_wst := upd_slot i f (sh_wst sh)\<rparr>)"
  by (simp add: shared_ok_def)

lemma shared_ok_store: "shared_ok sh \<Longrightarrow> shared_ok (sh\<lparr>sh_msel := m\<rparr>)"
  by (simp add: shared_ok_def)

lemma shared_ok_shutdown: "shared_ok sh \<Longrightarrow> shared_ok (request_shutdown sh)"
  by (simp add: shared_ok_def request_shutdown_def)

lemma shared_ok_drops: "shared_ok sh \<Longrightarrow> length xs = NUM_WORKERS \<Longrightarrow> shared_ok (sh\<lparr>sh_drops := xs\<rparr>)"
  by (simp add: shared_ok_def)

lemmas shared_ok_intros = shared_ok_upd_queue shared_ok_upd_slot shared_ok_store shared_ok_shutdown shared_ok_drops

text \<open>The zero-filled pages are a valid initial state with empty queues.\<close>

lemma zeroed_state_ok:
  "shared_ok zeroed_state" "\<forall>q\<in>set (sh_queues zeroed_state). queue_list q = []"
  "\<not> shutdown_requested zeroed_state" "shutdown_requested (request_shutdown sh)"
  by (simp_all add: zeroed_state_def shared_ok_def wst_ok_def shutdown_requested_def request_shutdown_def)

end
