(* ===== verification/Sim_Dispatcher.thy ===== *)
theory Sim_Dispatcher
  imports Sim_Shared Kernel_Dispatch
begin

text \<open>
  The simulated kernel side of dispatch, \<open>userspace_simulation/src/dispatcher.rs\<close>: Algorithm 2
  over the simulated map, and the two baselines. The lemmas relate it to the eBPF program of
  \<open>Kernel_Dispatch\<close>, and \<open>steering\<close> is what the generator needs of any dispatch mechanism.
\<close>

section \<open>The mechanisms\<close>

datatype policy = Hermes | Lifo | ReuseportHash

definition policy_as_str :: "policy \<Rightarrow> string" where
  "policy_as_str p =
     (case p of Hermes \<Rightarrow> ''hermes'' | Lifo \<Rightarrow> ''lifo'' | ReuseportHash \<Rightarrow> ''reuseport'')"

definition sim_reciprocal_scale :: "u64 \<Rightarrow> u32 \<Rightarrow> u32" where
  "sim_reciprocal_scale hash n = ucast (drop_bit 32 (ucast (ucast hash :: u32) * ucast n :: u64))"

fun sim_find_nth_loop :: "u64 \<Rightarrow> u32 \<Rightarrow> u32 \<Rightarrow> nat list \<Rightarrow> nat" where
  "sim_find_nth_loop bm want seen [] = NUM_WORKERS - 1"
| "sim_find_nth_loop bm want seen (i # is) =
     (if bm AND push_bit i 1 \<noteq> 0
      then if seen = want then i else sim_find_nth_loop bm want (seen + 1) is
      else sim_find_nth_loop bm want seen is)"

definition sim_find_nth_set_bit :: "u64 \<Rightarrow> u32 \<Rightarrow> nat" where
  "sim_find_nth_set_bit bm want = sim_find_nth_loop bm want 0 [0..<NUM_WORKERS]"

definition reuseport_hash :: "u64 \<Rightarrow> nat" where
  "reuseport_hash conn_hash = unat (sim_reciprocal_scale conn_hash (of_nat NUM_WORKERS))"

definition dispatch_hermes :: "u64 \<Rightarrow> u64 \<Rightarrow> nat" where
  "dispatch_hermes bm conn_hash =
     (let n = count_ones bm
      in if n \<le> 1 then reuseport_hash conn_hash
         else let want = sim_reciprocal_scale conn_hash n in sim_find_nth_set_bit bm want)"

text \<open>A worker blocked in \<open>epoll_wait\<close>: nothing queued and nothing pending.\<close>

definition is_idle :: "shared_state \<Rightarrow> nat \<Rightarrow> bool" where
  "is_idle sh i \<longleftrightarrow> queue_is_empty (sh_queues sh ! i) \<and> pending_events (slots (sh_wst sh) ! i) = 0"

definition dispatch_lifo :: "shared_state \<Rightarrow> nat" where
  "dispatch_lifo sh =
     (case find (is_idle sh) (rev [0..<NUM_WORKERS]) of
        Some worker \<Rightarrow> worker
      | None \<Rightarrow> the (min_by_key (\<lambda>i. (queue_len (sh_queues sh ! i), Reverse i)) [0..<NUM_WORKERS]))"

definition dispatch :: "shared_state \<Rightarrow> policy \<Rightarrow> u64 \<Rightarrow> nat" where
  "dispatch sh p conn_hash =
     (case p of
        Hermes \<Rightarrow> dispatch_hermes (sel_load (sh_msel sh)) conn_hash
      | Lifo \<Rightarrow> dispatch_lifo sh
      | ReuseportHash \<Rightarrow> reuseport_hash conn_hash)"

section \<open>Relation to the eBPF program\<close>

lemma sim_reciprocal_scale_eq: "sim_reciprocal_scale hash n = reciprocal_scale (ucast hash) n"
  by (simp only: sim_reciprocal_scale_def reciprocal_scale_def)

lemma sim_find_nth_loop_eq:
  assumes "\<forall>i\<in>set is. i < 2 ^ 32"
  shows "sim_find_nth_loop bm want seen is =
    (case find_nth_loop bm want seen is of Some w \<Rightarrow> unat w | None \<Rightarrow> NUM_WORKERS - 1)"
  using assms
proof (induction "is" arbitrary: seen)
  case (Cons i "is")
  then have "unat (of_nat i :: u32) = i" by (simp add: unat_of_nat take_bit_nat_eq_self)
  with Cons show ?case by simp
qed simp

lemma sim_find_nth_set_bit_eq:
  "sim_find_nth_set_bit bm want =
    (case find_nth_set_bit bm want of Some w \<Rightarrow> unat w | None \<Rightarrow> NUM_WORKERS - 1)"
  unfolding sim_find_nth_set_bit_def find_nth_set_bit_def
  by (rule sim_find_nth_loop_eq) (simp add: NUM_WORKERS_def)

lemma sim_find_nth_set_bit_less: "sim_find_nth_set_bit bm want < NUM_WORKERS"
proof -
  have "i < NUM_WORKERS \<Longrightarrow> unat (of_nat i :: u32) < NUM_WORKERS" for i
    by (simp add: NUM_WORKERS_def unat_of_nat take_bit_nat_eq_self)
  moreover have "set_bits bm NUM_WORKERS ! k < NUM_WORKERS" if "k < length (set_bits bm NUM_WORKERS)" for k
    using nth_mem [OF that] by simp
  ultimately show ?thesis
    by (simp add: sim_find_nth_set_bit_eq find_nth_set_bit_spec Let_def)
qed

lemma unat_num_workers: "unat (of_nat NUM_WORKERS :: u32) = NUM_WORKERS"
  by (simp add: NUM_WORKERS_def)

lemma reuseport_hash_less: "reuseport_hash conn_hash < NUM_WORKERS"
  using reciprocal_scale_less [of "of_nat NUM_WORKERS" "ucast conn_hash"]
  by (simp only: reuseport_hash_def sim_reciprocal_scale_eq unat_num_workers NUM_WORKERS_pos)

lemma dispatch_hermes_less: "dispatch_hermes bm conn_hash < NUM_WORKERS"
  by (simp add: dispatch_hermes_def Let_def reuseport_hash_less sim_find_nth_set_bit_less)

section \<open>The epoll-exclusive baseline\<close>

lemma find_rev_Some:
  "find P (rev [0..<n]) = Some w \<longleftrightarrow> w < n \<and> P w \<and> (\<forall>i. w < i \<and> i < n \<longrightarrow> \<not> P i)"
  by (induction n) (auto simp: less_Suc_eq)

lemma find_rev_None: "find P (rev [0..<n]) = None \<longleftrightarrow> (\<forall>i<n. \<not> P i)"
  by (induction n) (auto simp: less_Suc_eq)

lemma min_workers:
  obtains w where "min_by_key k [0..<NUM_WORKERS] = Some w" and "w < NUM_WORKERS"
    and "\<forall>i<NUM_WORKERS. k w \<le> k i"
proof -
  obtain w where w: "min_by_key k [0..<NUM_WORKERS] = Some w"
    by (metis min_by_key_None not_None_eq upt_eq_Nil_conv NUM_WORKERS_pos not_less0 le_zero_eq less_numeral_extra(3))
  from min_by_key_Some [OF this] show thesis by (intro that [OF w]) auto
qed

lemma dispatch_lifo_cases:
  "dispatch_lifo sh < NUM_WORKERS \<and>
   (if \<exists>i<NUM_WORKERS. is_idle sh i
    then is_idle sh (dispatch_lifo sh) \<and> (\<forall>i. dispatch_lifo sh < i \<and> i < NUM_WORKERS \<longrightarrow> \<not> is_idle sh i)
    else \<forall>i<NUM_WORKERS. queue_len (sh_queues sh ! dispatch_lifo sh) < queue_len (sh_queues sh ! i) \<or>
      queue_len (sh_queues sh ! dispatch_lifo sh) = queue_len (sh_queues sh ! i) \<and> i \<le> dispatch_lifo sh)"
proof (cases "find (is_idle sh) (rev [0..<NUM_WORKERS])")
  case None
  obtain w where w: "min_by_key (\<lambda>i. (queue_len (sh_queues sh ! i), Reverse i)) [0..<NUM_WORKERS] = Some w"
    "w < NUM_WORKERS"
    and least: "\<forall>i<NUM_WORKERS. (queue_len (sh_queues sh ! w), Reverse w) \<le> (queue_len (sh_queues sh ! i), Reverse i)"
    by (rule min_workers)
  have "dispatch_lifo sh = w" using None w by (simp add: dispatch_lifo_def)
  moreover have "\<not> (\<exists>i<NUM_WORKERS. is_idle sh i)" using None by (simp add: find_rev_None)
  ultimately show ?thesis
    using w(2) least by (auto simp: less_eq_reverse_def less_eq_prod_def)
next
  case (Some w)
  then have "dispatch_lifo sh = w" by (simp add: dispatch_lifo_def)
  with Some show ?thesis by (auto simp: find_rev_Some)
qed

section \<open>What the generator needs\<close>

locale steering =
  fixes pick :: "'s \<Rightarrow> 'h \<Rightarrow> nat"
  assumes pick_worker: "pick s h < NUM_WORKERS"
begin

text \<open>Counting each connection at the picked worker counts every connection once.\<close>

lemma count_pick:
  fixes counts :: "u64 list"
  assumes "length counts = NUM_WORKERS"
  shows "sum_list (counts[pick s h := counts ! pick s h + 1]) = sum_list counts + 1"
  using assms pick_worker [of s h] by (simp add: sum_list_bump)

lemma pick_index:
  assumes "length xs = NUM_WORKERS"
  shows "pick s h < length xs"
  using assms pick_worker by simp

end

lemma dispatch_less: "dispatch sh p conn_hash < NUM_WORKERS"
  using dispatch_lifo_cases [of sh]
  by (simp add: dispatch_def reuseport_hash_less dispatch_hermes_less split: policy.splits)

interpretation sim_dispatch: steering "\<lambda>sh (p, conn_hash). dispatch sh p conn_hash"
  by unfold_locales (simp add: dispatch_less split: prod.splits)

section \<open>Properties\<close>

text \<open>
  C15: The simulated dispatcher is the eBPF program: for every bitmap and hash, \<open>dispatch_hermes\<close>
  returns the worker the program selects for a TCP packet with the low 32 bits of the hash. When
  the program falls back to the kernel's own hash, the simulation computes that hash if there is
  at most one candidate; only a bitmap with bits beyond the workers makes it return the last
  worker instead.
\<close>

theorem dispatch_hermes_simulates_kernel:
  "dispatch_hermes bm conn_hash =
    (case try_select (Some bm) \<lparr>ip_protocol = IPPROTO_TCP, ctx_hash = ucast conn_hash\<rparr> of
       Some w \<Rightarrow> unat w
     | None \<Rightarrow> if count_ones bm \<le> 1 then reuseport_hash conn_hash else NUM_WORKERS - 1)"
  by (simp add: dispatch_hermes_def try_select_def sim_find_nth_set_bit_eq sim_reciprocal_scale_eq Let_def
      split: option.splits)

text \<open>
  On a bitmap of existing workers the simulation and the program never differ: a connection
  goes to the candidate at position \<open>hash * n / 2 ^ 32\<close> of the sorted candidates, which is a
  candidate, or, with fewer than two candidates, to the worker of the plain hash.
\<close>

lemma dispatch_hermes_picks_candidate:
  assumes "bm < 2 ^ NUM_WORKERS"
  shows "if 2 \<le> length (set_bits bm NUM_WORKERS)
    then dispatch_hermes bm conn_hash =
        set_bits bm NUM_WORKERS ! (unat (ucast conn_hash :: u32) * length (set_bits bm NUM_WORKERS) div 2 ^ 32) \<and>
      bit bm (dispatch_hermes bm conn_hash)
    else dispatch_hermes bm conn_hash = reuseport_hash conn_hash"
proof -
  let ?cs = "set_bits bm NUM_WORKERS" and ?h = "unat (ucast conn_hash :: u32)"
  let ?ctx = "\<lparr>ip_protocol = IPPROTO_TCP, ctx_hash = ucast conn_hash\<rparr>"
  note sub = set_bits_below [OF assms]
  have cs: "set_bits bm 64 = ?cs"
    using sub bit_imp_le_length [of bm] by (intro set_bits_beyond) (auto simp: NUM_WORKERS_def)
  have n: "count_ones bm \<le> 1 \<longleftrightarrow> \<not> 2 \<le> length ?cs"
    using unat_gt_1 [of "count_ones bm"] unat_count_ones [of bm] cs by metis
  show ?thesis
  proof (cases "2 \<le> length ?cs")
    case True
    have "?h < 2 ^ 32" using unsigned_less [of "ucast conn_hash :: u32"] by simp
    then have "?h * length ?cs div 2 ^ 32 < length ?cs"
      using True by (auto simp: div_less_iff_less_mult)
    then have "?cs ! (?h * length ?cs div 2 ^ 32) \<in> set ?cs" by (rule nth_mem)
    moreover have "dispatch_hermes bm conn_hash = unat (of_nat (?cs ! (?h * length ?cs div 2 ^ 32)) :: u32)"
      using True
      by (simp add: dispatch_hermes_def Let_def n sim_find_nth_set_bit_eq sim_reciprocal_scale_eq
          find_nth_set_bit_spec unat_reciprocal_scale unat_count_ones cs calculation)
        (use \<open>?h * length ?cs div 2 ^ 32 < length ?cs\<close> in simp)
    ultimately show ?thesis
      using True by (simp add: NUM_WORKERS_def unat_of_nat take_bit_nat_eq_self)
  next
    case False
    then show ?thesis by (simp add: dispatch_hermes_def n)
  qed
qed

lemma dispatch_hermes_picks_candidate_witness:
  "if 2 \<le> length (set_bits (13 :: u64) NUM_WORKERS)
    then dispatch_hermes 13 0x9e3779b97f4a7c15 =
        set_bits (13 :: u64) NUM_WORKERS !
          (unat (ucast (0x9e3779b97f4a7c15 :: u64) :: u32) * length (set_bits (13 :: u64) NUM_WORKERS) div 2 ^ 32) \<and>
      bit (13 :: u64) (dispatch_hermes 13 0x9e3779b97f4a7c15)
    else dispatch_hermes 13 0x9e3779b97f4a7c15 = reuseport_hash 0x9e3779b97f4a7c15"
  by (rule dispatch_hermes_picks_candidate) (simp add: NUM_WORKERS_def)

text \<open>
  The epoll-exclusive baseline wakes the registered worker nearest the head of the wait queue:
  the idle worker of highest index if any is idle, otherwise the worker of shortest backlog, the
  highest index among equals.
\<close>

lemma dispatch_lifo_head_first:
  "dispatch_lifo sh < NUM_WORKERS \<and>
   (if \<exists>i<NUM_WORKERS. is_idle sh i
    then is_idle sh (dispatch_lifo sh) \<and> (\<forall>i. dispatch_lifo sh < i \<and> i < NUM_WORKERS \<longrightarrow> \<not> is_idle sh i)
    else \<forall>i<NUM_WORKERS. queue_len (sh_queues sh ! dispatch_lifo sh) < queue_len (sh_queues sh ! i) \<or>
      queue_len (sh_queues sh ! dispatch_lifo sh) = queue_len (sh_queues sh ! i) \<and> i \<le> dispatch_lifo sh)"
  by (rule dispatch_lifo_cases)

lemma dispatch_lifo_head_first_witness: "dispatch_lifo zeroed_state = 3"
proof -
  have idle: "is_idle zeroed_state 3"
    by (simp add: is_idle_def zeroed_state_def queue_is_empty_def NUM_WORKERS_def worker_slot_new_def)
  have "(3 :: nat) < NUM_WORKERS" and top: "\<And>i. i < NUM_WORKERS \<Longrightarrow> i \<le> 3" by (simp_all add: NUM_WORKERS_def)
  then have "\<not> dispatch_lifo zeroed_state < 3" and "dispatch_lifo zeroed_state < NUM_WORKERS"
    using dispatch_lifo_head_first [of zeroed_state] idle by (auto split: if_splits)
  then show ?thesis using top [of "dispatch_lifo zeroed_state"] by simp
qed

end
