(* ===== verification/Sim_Workload.thy ===== *)
theory Sim_Workload
  imports Std_Time
begin

text \<open>
  The traffic profiles of \<open>userspace_simulation/src/workload.rs\<close>: the processing-cost
  distribution with its deterministic sampler, the load levels and the five cases. The two
  decimal probabilities of the source are rounded to binary64 as the compiler does.
\<close>

section \<open>Processing costs\<close>

datatype processing_time =
    Fixed duration
  | Bimodal (bim_fast: duration) (bim_slow: duration) (slow_probability: rat)

definition lcg_float :: "u64 \<Rightarrow> rat" where
  "lcg_float seed =
     (let x = seed * 6364136223846793005 + 1442695040888963407
      in f64_div (f64_of_int (uint (drop_bit 11 x))) (f64_of_int (uint (push_bit 53 1 :: u64))))"

definition sample :: "processing_time \<Rightarrow> u64 \<Rightarrow> duration" where
  "sample p seed =
     (case p of
        Fixed d \<Rightarrow> d
      | Bimodal fast slow p_slow \<Rightarrow>
          if lcg_float seed < p_slow then slow else fast)"

section \<open>Load levels and cases\<close>

datatype load_level = Light | Medium | Heavy

definition load_level_from_env_str :: "string \<Rightarrow> load_level option" where
  "load_level_from_env_str s =
     (if s = ''light'' then Some Light
      else if s = ''medium'' then Some Medium
      else if s = ''heavy'' then Some Heavy
      else None)"

datatype workload_case = Case1 | Case2 | Case3 | Case4 | Case5

record hang_spec =
  hang_worker :: nat
  hang_at :: duration
  hang_duration :: duration

record burst_spec =
  burst_at :: duration
  burst_service :: duration

record workload_config =
  cps :: u32
  duration_of :: duration
  service :: processing_time
  lifetime :: duration
  hang :: "hang_spec option"
  burst :: "burst_spec option"

section \<open>The profiles\<close>

definition base_case :: "workload_case \<Rightarrow> workload_config" where
  "base_case c =
     (case c of
        Case1 \<Rightarrow> \<lparr>cps = 400, duration_of = from_secs 3,
           service = Fixed (from_millis 1),
           lifetime = from_millis 150,
           hang = None, burst = None\<rparr>
      | Case2 \<Rightarrow> \<lparr>cps = 100, duration_of = from_secs 4,
           service = Bimodal (from_millis 10) (from_millis 150) (f64_round (25 / 100)),
           lifetime = from_millis 200,
           hang = Some \<lparr>hang_worker = 0, hang_at = from_millis 1500, hang_duration = from_millis 400\<rparr>, burst = None\<rparr>
      | Case3 \<Rightarrow> \<lparr>cps = 60, duration_of = from_secs 4,
           service = Fixed (from_millis 2),
           lifetime = from_secs 60,
           hang = None, burst = None\<rparr>
      | Case4 \<Rightarrow> \<lparr>cps = 40, duration_of = from_secs 4,
           service = Bimodal (from_millis 20) (from_millis 200) (f64_round (3 / 10)),
           lifetime = from_millis 400,
           hang = None, burst = None\<rparr>
      | Case5 \<Rightarrow> \<lparr>cps = 60, duration_of = from_secs 4,
           service = Fixed (from_millis 2),
           lifetime = from_secs 60,
           hang = None, burst = Some \<lparr>burst_at = from_millis 2500, burst_service = from_millis 5\<rparr>\<rparr>)"

definition for_case_with_load :: "workload_case \<Rightarrow> load_level \<Rightarrow> workload_config" where
  "for_case_with_load c load =
     (let config = base_case c
      in config\<lparr>cps :=
        (case c of
           Case1 \<Rightarrow> (case load of Light \<Rightarrow> 400 | Medium \<Rightarrow> 1600 | Heavy \<Rightarrow> 3000)
         | Case2 \<Rightarrow> (case load of Light \<Rightarrow> 40 | Medium \<Rightarrow> 75 | Heavy \<Rightarrow> 100)
         | Case3 \<Rightarrow> (case load of Light \<Rightarrow> 30 | Medium \<Rightarrow> 60 | Heavy \<Rightarrow> 150)
         | Case4 \<Rightarrow> (case load of Light \<Rightarrow> 15 | Medium \<Rightarrow> 40 | Heavy \<Rightarrow> 50)
         | Case5 \<Rightarrow> cps config)\<rparr>)"

definition for_case :: "workload_case \<Rightarrow> workload_config" where
  "for_case c =
     (let level = (case c of Case1 \<Rightarrow> Light | Case2 \<Rightarrow> Heavy | _ \<Rightarrow> Medium)
      in for_case_with_load c level)"

definition default_case :: workload_config where
  "default_case =
     \<lparr>cps = 150, duration_of = from_millis 2500,
           service = Bimodal (from_millis 2) (from_millis 40) (f64_round (1 / 10)),
           lifetime = from_millis 250,
           hang = None, burst = None\<rparr>"

section \<open>The sampler\<close>

text \<open>A multiplication by an odd constant permutes the words, and so does adding a constant.\<close>

lemma bij_affine_word:
  fixes a b c :: "'a::len word"
  assumes "a * b = 1"
  shows "bij (\<lambda>x. x * a + c)"
proof (rule bij_betw_byWitness [where f' = "\<lambda>y. (y - c) * b"])
  have ba: "b * a = 1" using assms by (simp add: mult.commute)
  show "\<forall>x\<in>UNIV. (x * a + c - c) * b = x"
    by (simp add: mult.assoc assms)
  show "\<forall>y\<in>UNIV. (y - c) * b * a + c = y"
    by (simp add: mult.assoc ba)
qed simp_all

definition lcg_step :: "u64 \<Rightarrow> u64" where
  "lcg_step seed = seed * 6364136223846793005 + 1442695040888963407"

lemma bij_lcg_step: "bij lcg_step"
  unfolding lcg_step_def [abs_def]
  by (rule bij_affine_word [where b = 13877824140714322085]) simp

lemma lcg_float_eq: "lcg_float seed = of_nat (unat (lcg_step seed) div 2 ^ 11) / 2 ^ 53"
proof -
  have "unat (lcg_step seed) < 2 ^ 64" using unsigned_less [of "lcg_step seed"] by simp
  then have lt: "unat (lcg_step seed) div 2 ^ 11 < 2 ^ 53" by (simp add: div_less_iff_less_mult)
  have "uint (drop_bit 11 (lcg_step seed)) = int (unat (lcg_step seed) div 2 ^ 11)"
    unfolding uint_nat unat_drop_bit_eq by (simp only: drop_bit_eq_div)
  moreover have "uint (push_bit 53 1 :: u64) = 2 ^ 53" by simp
  moreover define m where "m = unat (lcg_step seed) div 2 ^ 11"
  ultimately have "lcg_float seed = f64_div (f64_of_int (int m)) (f64_of_int (2 ^ 53))"
    by (simp only: lcg_float_def lcg_step_def [symmetric] Let_def)
  moreover have "f64_of_int (int m) = of_int (int m)"
    using lt unfolding m_def [symmetric] by (intro f64_of_int_exact) simp
  moreover have "f64_of_int (2 ^ 53) = of_int (2 ^ 53)"
    by (intro f64_of_int_exact) simp
  moreover have "f64_round (of_int (int m) / 2 ^ 53) = of_int (int m) / 2 ^ 53"
    using lt unfolding m_def [symmetric] by (intro f64_round_dyadic) simp
  ultimately show ?thesis
    unfolding m_def [symmetric] by (simp only: f64_div_def of_int_power of_int_numeral of_int_of_nat_eq)
qed

lemma lcg_float_range: "0 \<le> lcg_float seed" "lcg_float seed < 1"
proof -
  have "unat (lcg_step seed) < 2 ^ 64" using unsigned_less [of "lcg_step seed"] by simp
  then have "unat (lcg_step seed) div 2 ^ 11 < 2 ^ 53" by (simp add: div_less_iff_less_mult)
  then have "(of_nat (unat (lcg_step seed) div 2 ^ 11) :: rat) < of_nat (2 ^ 53)"
    by (simp only: of_nat_less_iff)
  then show "0 \<le> lcg_float seed" "lcg_float seed < 1"
    by (simp_all add: lcg_float_eq del: of_nat_div)
qed

lemma card_words_below:
  assumes "n \<le> 2 ^ LENGTH('a)"
  shows "card {w :: 'a::len word. unat w < n} = n"
proof -
  have "unat ` {w :: 'a word. unat w < n} = {..<n}"
  proof (intro equalityI subsetI)
    fix i assume "i \<in> {..<n}"
    then have "unat (of_nat i :: 'a word) = i"
      using assms by (simp add: unat_of_nat take_bit_nat_eq_self)
    with \<open>i \<in> {..<n}\<close> show "i \<in> unat ` {w :: 'a word. unat w < n}"
      by (intro image_eqI [where x = "of_nat i"]) simp_all
  qed auto
  moreover have "inj_on unat {w :: 'a word. unat w < n}"
    by (rule inj_onI) (metis word_eq_iff_unsigned)
  ultimately show ?thesis by (metis card_image card_lessThan)
qed

lemma card_lcg_below:
  assumes "0 \<le> p" and "p \<le> 1"
  shows "card {seed. lcg_float seed < p} = nat \<lceil>p * 2 ^ 53\<rceil> * 2 ^ 11"
proof -
  define K where "K = nat \<lceil>p * 2 ^ 53\<rceil>"
  have "\<lceil>p * 2 ^ 53\<rceil> \<le> 2 ^ 53" using assms(2) by (simp add: ceiling_le_iff)
  then have K: "K \<le> 2 ^ 53" unfolding K_def by (simp only: nat_le_iff) simp
  have "lcg_float seed < p \<longleftrightarrow> unat (lcg_step seed) < K * 2 ^ 11" for seed
  proof -
    let ?m = "unat (lcg_step seed) div 2 ^ 11"
    have "lcg_float seed < p \<longleftrightarrow> of_int (int ?m) < p * 2 ^ 53"
      by (simp add: lcg_float_eq field_simps del: of_nat_div)
    also have "\<dots> \<longleftrightarrow> int ?m < \<lceil>p * 2 ^ 53\<rceil>" by (simp only: less_ceiling_iff)
    also have "\<dots> \<longleftrightarrow> ?m < K" unfolding K_def by (simp only: zless_nat_eq_int_zless)
    also have "\<dots> \<longleftrightarrow> unat (lcg_step seed) < K * 2 ^ 11"
      by (simp only: div_less_iff_less_mult zero_less_power zero_less_numeral)
    finally show ?thesis .
  qed
  then have "{seed. lcg_float seed < p} = lcg_step -` {w. unat w < K * 2 ^ 11}" by auto
  moreover have "card (lcg_step -` {w. unat w < K * 2 ^ 11}) = card {w :: u64. unat w < K * 2 ^ 11}"
    using bij_lcg_step by (intro card_vimage_inj) (auto simp: bij_def)
  moreover have "K * 2 ^ 11 \<le> 2 ^ LENGTH(64)" using K by simp
  ultimately show ?thesis using card_words_below [where 'a = 64] by (simp add: K_def)
qed

section \<open>Load levels are ordered\<close>

instantiation load_level :: linorder
begin

fun level_rank :: "load_level \<Rightarrow> nat" where
  "level_rank Light = 0" | "level_rank Medium = 1" | "level_rank Heavy = 2"

definition less_eq_load_level :: "load_level \<Rightarrow> load_level \<Rightarrow> bool" where
  "less_eq_load_level a b \<longleftrightarrow> level_rank a \<le> level_rank b"

definition less_load_level :: "load_level \<Rightarrow> load_level \<Rightarrow> bool" where
  "less_load_level a b \<longleftrightarrow> level_rank a < level_rank b"

instance
proof
  fix a b :: load_level
  assume "a \<le> b" "b \<le> a"
  then show "a = b"
    by (cases a; cases b) (simp_all add: less_eq_load_level_def)
qed (auto simp: less_eq_load_level_def less_load_level_def)

end

section \<open>Properties\<close>

text \<open>
  The sampler draws the slow cost with exactly the probability it is given, rounded up to a
  multiple of \<open>2 ^ -53\<close>: of the \<open>2 ^ 64\<close> seeds, \<open>\<lceil>p * 2 ^ 53\<rceil> * 2 ^ 11\<close> give the slow cost and all
  others the fast one.
\<close>

lemma sample_slow_share:
  assumes "0 \<le> p" and "p \<le> 1" and "fast \<noteq> slow"
  shows "card {seed. sample (Bimodal fast slow p) seed = slow} = nat \<lceil>p * 2 ^ 53\<rceil> * 2 ^ 11 \<and>
    (\<forall>seed. sample (Bimodal fast slow p) seed \<in> {fast, slow})"
proof -
  have "{seed. sample (Bimodal fast slow p) seed = slow} = {seed. lcg_float seed < p}"
    using assms(3) by (auto simp: sample_def)
  then show ?thesis using card_lcg_below [OF assms(1,2)] by (simp add: sample_def)
qed

lemma sample_slow_share_witness:
  "card {seed. sample (Bimodal 10 150 (1 / 4)) seed = 150} = 2 ^ 62"
  using sample_slow_share [of "1 / 4" 10 150] by simp

text \<open>
  The load level changes the arrival rate and nothing else: a higher level never lowers it,
  and at its characteristic level each case is its base profile.
\<close>

lemma load_level_scales_arrivals:
  assumes "low \<le> high"
  shows "cps (for_case_with_load c low) \<le> cps (for_case_with_load c high) \<and>
    (for_case_with_load c low)\<lparr>cps := cps (base_case c)\<rparr> = base_case c \<and>
    for_case c = base_case c"
  using assms
  by (cases c; cases low; cases high)
    (simp_all add: for_case_with_load_def for_case_def base_case_def less_eq_load_level_def)

end
