(* ===== verification/Bench_Workload.thy ===== *)
theory Bench_Workload
  imports Std_Time
begin

text \<open>
  The traffic profiles of \<open>hermes-bench/src/workload.rs\<close>, as the load generator for the eBPF
  version reads them. They repeat those of the simulation without the injected hang;
  \<open>Workloads_Agree\<close> shows that they are the same traffic.
\<close>

section \<open>Processing costs\<close>

datatype processing_time =
    Fixed duration
  | Bimodal (bim_fast: duration) (bim_slow: duration) (slow_probability: rat)

definition lcg_float :: "u64 \<Rightarrow> rat" where
  "lcg_float seed =
     (let x = seed * 6364136223846793005 + 1442695040888963407
      in f64_div (f64_of_int (uint (drop_bit 11 x))) (f64_of_int (uint (push_bit 53 1 :: u64))))"

definition sample :: "processing_time \<Rightarrow> u64 \<Rightarrow> duration" where
  "sample p seed =
     (case p of
        Fixed d \<Rightarrow> d
      | Bimodal fast slow p_slow \<Rightarrow>
          if lcg_float seed < p_slow then slow else fast)"

section \<open>Load levels and cases\<close>

datatype load_level = Light | Medium | Heavy

definition load_level_from_str :: "string \<Rightarrow> load_level option" where
  "load_level_from_str s =
     (if s = ''light'' then Some Light
      else if s = ''medium'' then Some Medium
      else if s = ''heavy'' then Some Heavy
      else None)"

datatype workload_case = Case1 | Case2 | Case3 | Case4 | Case5

definition workload_case_from_str :: "string \<Rightarrow> workload_case option" where
  "workload_case_from_str s =
     (if s = ''1'' then Some Case1
      else if s = ''2'' then Some Case2
      else if s = ''3'' then Some Case3
      else if s = ''4'' then Some Case4
      else if s = ''5'' then Some Case5
      else None)"

record burst_spec =
  burst_at :: duration
  burst_service :: duration

record workload_config =
  cps :: u32
  duration_of :: duration
  service :: processing_time
  lifetime :: duration
  burst :: "burst_spec option"

section \<open>The profiles\<close>

definition base_case :: "workload_case \<Rightarrow> workload_config" where
  "base_case c =
     (case c of
        Case1 \<Rightarrow> \<lparr>cps = 400, duration_of = from_secs 3,
           service = Fixed (from_millis 1),
           lifetime = from_millis 150, burst = None\<rparr>
      | Case2 \<Rightarrow> \<lparr>cps = 100, duration_of = from_secs 4,
           service = Bimodal (from_millis 10) (from_millis 150) (f64_round (25 / 100)),
           lifetime = from_millis 200, burst = None\<rparr>
      | Case3 \<Rightarrow> \<lparr>cps = 60, duration_of = from_secs 4,
           service = Fixed (from_millis 2),
           lifetime = from_secs 60, burst = None\<rparr>
      | Case4 \<Rightarrow> \<lparr>cps = 40, duration_of = from_secs 4,
           service = Bimodal (from_millis 20) (from_millis 200) (f64_round (3 / 10)),
           lifetime = from_millis 400, burst = None\<rparr>
      | Case5 \<Rightarrow> \<lparr>cps = 60, duration_of = from_secs 4,
           service = Fixed (from_millis 2),
           lifetime = from_secs 60, burst = Some \<lparr>burst_at = from_millis 2500, burst_service = from_millis 5\<rparr>\<rparr>)"

definition for_case_with_load :: "workload_case \<Rightarrow> load_level \<Rightarrow> workload_config" where
  "for_case_with_load c load =
     (let config = base_case c
      in config\<lparr>cps :=
        (case c of
           Case1 \<Rightarrow> (case load of Light \<Rightarrow> 400 | Medium \<Rightarrow> 1600 | Heavy \<Rightarrow> 3000)
         | Case2 \<Rightarrow> (case load of Light \<Rightarrow> 40 | Medium \<Rightarrow> 75 | Heavy \<Rightarrow> 100)
         | Case3 \<Rightarrow> (case load of Light \<Rightarrow> 30 | Medium \<Rightarrow> 60 | Heavy \<Rightarrow> 150)
         | Case4 \<Rightarrow> (case load of Light \<Rightarrow> 15 | Medium \<Rightarrow> 40 | Heavy \<Rightarrow> 50)
         | Case5 \<Rightarrow> cps config)\<rparr>)"

definition for_case :: "workload_case \<Rightarrow> workload_config" where
  "for_case c =
     (let level = (case c of Case1 \<Rightarrow> Light | Case2 \<Rightarrow> Heavy | _ \<Rightarrow> Medium)
      in for_case_with_load c level)"

definition default_case :: workload_config where
  "default_case =
     \<lparr>cps = 150, duration_of = from_millis 2500,
           service = Bimodal (from_millis 2) (from_millis 40) (f64_round (1 / 10)),
           lifetime = from_millis 250, burst = None\<rparr>"

end
