(* ===== verification/Workloads_Agree.thy ===== *)
theory Workloads_Agree
  imports Sim_Workload Bench_Workload
begin

text \<open>
  The two copies of the traffic profiles, \<open>userspace_simulation/src/workload.rs\<close> and
  \<open>hermes-bench/src/workload.rs\<close>: "the traffic-side numbers match the phase 1 simulator", and the
  hang of Case 2 is the only thing the second copy leaves out.
\<close>

fun bench_case :: "Sim_Workload.workload_case \<Rightarrow> Bench_Workload.workload_case" where
  "bench_case Sim_Workload.Case1 = Bench_Workload.Case1"
| "bench_case Sim_Workload.Case2 = Bench_Workload.Case2"
| "bench_case Sim_Workload.Case3 = Bench_Workload.Case3"
| "bench_case Sim_Workload.Case4 = Bench_Workload.Case4"
| "bench_case Sim_Workload.Case5 = Bench_Workload.Case5"

fun bench_level :: "Sim_Workload.load_level \<Rightarrow> Bench_Workload.load_level" where
  "bench_level Sim_Workload.Light = Bench_Workload.Light"
| "bench_level Sim_Workload.Medium = Bench_Workload.Medium"
| "bench_level Sim_Workload.Heavy = Bench_Workload.Heavy"

fun bench_time :: "Sim_Workload.processing_time \<Rightarrow> Bench_Workload.processing_time" where
  "bench_time (Sim_Workload.Fixed d) = Bench_Workload.Fixed d"
| "bench_time (Sim_Workload.Bimodal fast slow p) = Bench_Workload.Bimodal fast slow p"

definition bench_burst :: "Sim_Workload.burst_spec \<Rightarrow> Bench_Workload.burst_spec" where
  "bench_burst b =
     \<lparr>burst_at = Sim_Workload.burst_at b,
      burst_service = Sim_Workload.burst_service b\<rparr>"

definition without_hang :: "Sim_Workload.workload_config \<Rightarrow> Bench_Workload.workload_config" where
  "without_hang cfg =
     \<lparr>cps = Sim_Workload.cps cfg,
      duration_of = Sim_Workload.duration_of cfg,
      service = bench_time (Sim_Workload.service cfg),
      lifetime = Sim_Workload.lifetime cfg,
      burst = map_option bench_burst (Sim_Workload.burst cfg)\<rparr>"

lemma base_cases_agree: "Bench_Workload.base_case (bench_case c) = without_hang (Sim_Workload.base_case c)"
  by (cases c)
    (simp_all add: Bench_Workload.base_case_def Sim_Workload.base_case_def without_hang_def bench_burst_def)

lemma with_load_agree:
  "Bench_Workload.for_case_with_load (bench_case c) (bench_level l) =
    without_hang (Sim_Workload.for_case_with_load c l)"
  by (cases c; cases l)
    (simp_all add: Bench_Workload.for_case_with_load_def Sim_Workload.for_case_with_load_def
      Bench_Workload.base_case_def Sim_Workload.base_case_def without_hang_def bench_burst_def)

lemma for_cases_agree: "Bench_Workload.for_case (bench_case c) = without_hang (Sim_Workload.for_case c)"
  unfolding Bench_Workload.for_case_def Sim_Workload.for_case_def Let_def
  using with_load_agree [of c Sim_Workload.Light] with_load_agree [of c Sim_Workload.Medium]
    with_load_agree [of c Sim_Workload.Heavy]
  by (cases c) simp_all

lemma samples_agree: "Bench_Workload.sample (bench_time p) seed = Sim_Workload.sample p seed"
  by (cases p)
    (simp_all add: Bench_Workload.sample_def Sim_Workload.sample_def
      Bench_Workload.lcg_float_def Sim_Workload.lcg_float_def)

text \<open>
  The load generator of the eBPF version offers the traffic of the simulation: every case at
  every load level, the characteristic profiles and the smoke-test profile are the simulation's
  with the injected hang erased, the same seed draws the same cost, the same words name the
  levels, and Case 2 is the only case with a hang to erase.
\<close>

lemma bench_traffic_matches_simulation:
  "Bench_Workload.for_case_with_load (bench_case c) (bench_level l) =
      without_hang (Sim_Workload.for_case_with_load c l) \<and>
   Bench_Workload.for_case (bench_case c) = without_hang (Sim_Workload.for_case c) \<and>
   Bench_Workload.default_case = without_hang Sim_Workload.default_case \<and>
   Bench_Workload.sample (bench_time p) seed = Sim_Workload.sample p seed \<and>
   load_level_from_str s = map_option bench_level (load_level_from_env_str s) \<and>
   (hang (Sim_Workload.for_case_with_load c l) = None \<longleftrightarrow> c \<noteq> Sim_Workload.Case2)"
proof (intro conjI)
  show "Bench_Workload.default_case = without_hang Sim_Workload.default_case"
    by (simp add: Bench_Workload.default_case_def Sim_Workload.default_case_def without_hang_def)
  show "load_level_from_str s = map_option bench_level (load_level_from_env_str s)"
    by (simp add: load_level_from_str_def load_level_from_env_str_def)
  show "hang (Sim_Workload.for_case_with_load c l) = None \<longleftrightarrow> c \<noteq> Sim_Workload.Case2"
    by (cases c; cases l) (simp_all add: Sim_Workload.for_case_with_load_def Sim_Workload.base_case_def)
qed (rule with_load_agree for_cases_agree samples_agree)+

end
