(* ===== verification/Sim_Generator.thy ===== *)
theory Sim_Generator
  imports Sim_Dispatcher Sim_Workload
begin

text \<open>
  The connection generator of \<open>userspace_simulation/src/generator.rs\<close>. Real time only paces the
  loop: the condition compares \<open>next_arrival - start\<close>, a multiple of the interval, with the
  duration, so the offset is kept and the sleeps are left out. Between two connections the
  worker processes change the shared memory; \<open>others k\<close> is their effect before connection \<open>k\<close>,
  and \<open>clock k\<close> the monotonic clock read for it. The loop is a partial function: with an interval
  of zero nanoseconds it would not end.
\<close>

section \<open>One connection\<close>

record gen_stats =
  generated :: u64
  dropped :: u64
  dispatched_per_worker :: "u64 list"

definition gen_hash :: "u64 \<Rightarrow> u64 \<Rightarrow> u64" where
  "gen_hash cid seed = (cid XOR (seed * 0xff51afd7ed558ccd)) * 0x9e3779b97f4a7c15"

definition gen_desc :: "workload_config \<Rightarrow> u64 \<Rightarrow> u64 \<Rightarrow> i64 \<Rightarrow> conn_desc" where
  "gen_desc cfg cid hash now =
     \<lparr>conn_id = cid, desc_hash = hash, arrival_ns = now,
      service_us = of_nat (as_micros (sample (service cfg) hash)),
      lifetime_ms = of_nat (as_millis (lifetime cfg))\<rparr>"

definition gen_conn ::
  "workload_config \<Rightarrow> policy \<Rightarrow> u64 \<Rightarrow> i64 \<Rightarrow> gen_stats \<times> shared_state \<Rightarrow> gen_stats \<times> shared_state" where
  "gen_conn cfg p seed now = (\<lambda>(stats, sh).
     let cid = generated stats;
         hash = gen_hash cid seed;
         target = dispatch sh p hash;
         desc = gen_desc cfg cid hash now;
         stats = stats\<lparr>dispatched_per_worker :=
           (dispatched_per_worker stats)[target := dispatched_per_worker stats ! target + 1]\<rparr>;
         (ok, q) = push (sh_queues sh ! target) desc;
         sh = sh\<lparr>sh_queues := (sh_queues sh)[target := q]\<rparr>;
         (stats, sh) =
           (if ok then (stats, sh)
            else (stats\<lparr>dropped := dropped stats + 1\<rparr>,
              sh\<lparr>sh_drops := (sh_drops sh)[target := sh_drops sh ! target + 1]\<rparr>))
     in (stats\<lparr>generated := generated stats + 1\<rparr>, sh))"

section \<open>The run\<close>

definition gen_interval :: "u32 \<Rightarrow> duration option" where
  "gen_interval c = (if c = 0 then None else from_secs_f64 (f64_div 1 (f64_of_int (uint c))))"

record gen_env =
  others :: "nat \<Rightarrow> shared_state \<Rightarrow> shared_state"
  clock :: "nat \<Rightarrow> i64"

partial_function (option) gen_loop ::
  "gen_env \<Rightarrow> workload_config \<Rightarrow> policy \<Rightarrow> u64 \<Rightarrow> duration \<Rightarrow> nat \<Rightarrow> duration \<Rightarrow> gen_stats \<times> shared_state \<Rightarrow>
    (gen_stats \<times> shared_state) option" where
  "gen_loop env cfg p seed interval k offset s =
     (if offset < duration_of cfg
      then gen_loop env cfg p seed interval (Suc k) (offset + interval)
        (gen_conn cfg p seed (clock env k) (fst s, others env k (snd s)))
      else Some s)"

definition gen_start :: gen_stats where
  "gen_start = \<lparr>generated = 0, dropped = 0, dispatched_per_worker = replicate NUM_WORKERS 0\<rparr>"

datatype gen_panic = IntervalPanic

definition run ::
  "gen_env \<Rightarrow> shared_state \<Rightarrow> workload_config \<Rightarrow> policy \<Rightarrow> u64 \<Rightarrow>
    (gen_panic + gen_stats \<times> shared_state) option" where
  "run env sh cfg p seed =
     (case gen_interval (cps cfg) of
        None \<Rightarrow> Some (Inl IntervalPanic)
      | Some interval \<Rightarrow>
          map_option (\<lambda>(stats, sh). Inr (stats, request_shutdown sh))
            (gen_loop env cfg p seed interval 0 0 (gen_start, sh)))"

section \<open>The loop as a bounded iteration\<close>

fun gen_iter ::
  "gen_env \<Rightarrow> workload_config \<Rightarrow> policy \<Rightarrow> u64 \<Rightarrow> nat \<Rightarrow> nat \<Rightarrow> gen_stats \<times> shared_state \<Rightarrow> gen_stats \<times> shared_state" where
  "gen_iter env cfg p seed 0 k s = s"
| "gen_iter env cfg p seed (Suc n) k s =
     gen_iter env cfg p seed n (Suc k) (gen_conn cfg p seed (clock env k) (fst s, others env k (snd s)))"

text \<open>Rounded-up quotients count the rounds of a loop that adds the interval to an offset.\<close>

lemma ceil_div_zero: "0 < interval \<Longrightarrow> ceil_div a interval = 0 \<longleftrightarrow> a = 0"
  using ceil_div_le_iff [of interval a 0] by simp

lemma ceil_div_step:
  assumes "0 < interval" and "ceil_div (whole - offset) interval = Suc n"
  shows "offset < whole" and "ceil_div (whole - (offset + interval)) interval = n"
proof -
  show "offset < whole"
  proof (rule ccontr)
    assume "\<not> offset < whole"
    then have "ceil_div (whole - offset) interval = 0" by (simp only: ceil_div_zero [OF assms(1)])
    with assms(2) show False by simp
  qed
  show "ceil_div (whole - (offset + interval)) interval = n"
  proof (rule antisym)
    have "whole - offset \<le> Suc n * interval"
      using assms(2) by (simp only: ceil_div_le_iff [OF assms(1), symmetric])
    then show "ceil_div (whole - (offset + interval)) interval \<le> n"
      by (simp only: ceil_div_le_iff [OF assms(1)]) simp
  next
    let ?m = "ceil_div (whole - (offset + interval)) interval"
    have "whole - (offset + interval) \<le> ?m * interval"
      by (simp only: ceil_div_le_iff [OF assms(1), symmetric])
    then have "whole - offset \<le> Suc ?m * interval" by simp
    then have "Suc n \<le> Suc ?m"
      using assms(2) by (simp only: ceil_div_le_iff [OF assms(1), symmetric])
    then show "n \<le> ?m" by simp
  qed
qed

lemma gen_loop_iter:
  assumes "0 < interval"
  shows "gen_loop env cfg p seed interval k offset s =
    Some (gen_iter env cfg p seed (ceil_div (duration_of cfg - offset) interval) k s)"
proof (induction "ceil_div (duration_of cfg - offset) interval" arbitrary: k offset s)
  case 0
  then have "duration_of cfg - offset = 0" using ceil_div_zero [OF assms] by metis
  then show ?case using 0 [symmetric] by (subst gen_loop.simps) simp
next
  case (Suc n)
  note s = ceil_div_step [OF assms Suc.hyps(2) [symmetric]]
  then show ?case
    using Suc.hyps by (subst gen_loop.simps) (simp add: Suc.hyps(2) [symmetric])
qed

section \<open>Bookkeeping\<close>

text \<open>
  One connection, seen from its target: it is counted there, and it is appended to the target's
  queue or, if that queue is full, counted as dropped there.
\<close>

lemma gen_conn_counts:
  assumes "length (dispatched_per_worker stats) = NUM_WORKERS"
  shows "let stats' = fst (gen_conn cfg p seed now (stats, sh))
    in length (dispatched_per_worker stats') = NUM_WORKERS \<and>
      sum_list (dispatched_per_worker stats') = sum_list (dispatched_per_worker stats) + 1 \<and>
      generated stats' = generated stats + 1"
  using assms sim_dispatch.count_pick [OF assms, of sh "(p, gen_hash (generated stats) seed)"]
  by (simp add: gen_conn_def Let_def split: prod.splits)

lemma gen_conn_drops:
  assumes "length (sh_drops sh) = NUM_WORKERS"
  shows "let (stats', sh') = gen_conn cfg p seed now (stats, sh)
    in length (sh_drops sh') = NUM_WORKERS \<and>
      sum_list (sh_drops sh') - sum_list (sh_drops sh) = dropped stats' - dropped stats"
  using assms sim_dispatch.count_pick [OF assms, of sh "(p, gen_hash (generated stats) seed)"]
  by (simp add: gen_conn_def Let_def split: prod.splits)

lemma gen_conn_dropped_le:
  "dropped (fst (gen_conn cfg p seed now (stats, sh))) \<in> {dropped stats, dropped stats + 1}"
  by (simp add: gen_conn_def Let_def split: prod.splits)

lemma gen_iter_counts:
  assumes "length (dispatched_per_worker (fst s)) = NUM_WORKERS"
  shows "let stats' = fst (gen_iter env cfg p seed n k s)
    in sum_list (dispatched_per_worker stats') = sum_list (dispatched_per_worker (fst s)) + of_nat n \<and>
      generated stats' = generated (fst s) + of_nat n"
  using assms
proof (induction n arbitrary: k s)
  case (Suc n)
  let ?s = "gen_conn cfg p seed (clock env k) (fst s, others env k (snd s))"
  have step: "length (dispatched_per_worker (fst ?s)) = NUM_WORKERS"
    "sum_list (dispatched_per_worker (fst ?s)) = sum_list (dispatched_per_worker (fst s)) + 1"
    "generated (fst ?s) = generated (fst s) + 1"
    using gen_conn_counts [OF Suc.prems, of cfg p seed "clock env k" "others env k (snd s)"]
    by (simp_all add: Let_def)
  show ?case using Suc.IH [OF step(1), of "Suc k"] step(2,3) by (simp add: Let_def add.assoc)
qed simp

lemma telescope:
  fixes a b c x y z :: "'a::ab_group_add"
  assumes "b - a = y - x" and "c - b = z - y"
  shows "c - a = z - x"
proof -
  have "c - a = (c - b) + (b - a)" by simp
  also have "\<dots> = z - x" by (simp add: assms)
  finally show ?thesis .
qed

lemma gen_iter_drops:
  assumes "\<And>k sh. sh_drops (others env k sh) = sh_drops sh"
    and "length (sh_drops (snd s)) = NUM_WORKERS"
  shows "let (stats', sh') = gen_iter env cfg p seed n k s
    in sum_list (sh_drops sh') - sum_list (sh_drops (snd s)) = dropped stats' - dropped (fst s)"
  using assms(2)
proof (induction n arbitrary: k s)
  case (Suc n)
  let ?s = "gen_conn cfg p seed (clock env k) (fst s, others env k (snd s))"
  have step: "length (sh_drops (snd ?s)) = NUM_WORKERS"
    "sum_list (sh_drops (snd ?s)) - sum_list (sh_drops (snd s)) = dropped (fst ?s) - dropped (fst s)"
    using gen_conn_drops [of "others env k (snd s)" cfg p seed "clock env k" "fst s"] Suc.prems
    by (simp_all add: assms(1) Let_def split: prod.splits)
  let ?r = "gen_iter env cfg p seed n (Suc k) ?s"
  have "sum_list (sh_drops (snd ?r)) - sum_list (sh_drops (snd ?s)) = dropped (fst ?r) - dropped (fst ?s)"
    using Suc.IH [OF step(1), of "Suc k"] by (simp only: split_beta Let_def)
  with step(2) show ?case
    by (auto simp only: gen_iter.simps split_beta Let_def intro: telescope)
qed (simp add: split_beta)

section \<open>The pacing interval\<close>

lemma round_even_ge: "of_int n \<le> x \<Longrightarrow> n \<le> round_even x"
  using round_even_mono [of "of_int n" x] by simp

lemma tick_of_rate:
  assumes "0 < m" and "m \<le> 1000000000"
  shows "0 \<le> f64_div 1 (f64_of_int (int m)) \<and>
    0 < round_even (f64_div 1 (f64_of_int (int m)) * 1000000000) \<and>
    round_even (f64_div 1 (f64_of_int (int m)) * 1000000000) \<le> 1000000000"
proof -
  have "f64_of_int (int m) = rat_of_nat m"
    using assms(2) by (subst f64_of_int_exact) simp_all
  then have x: "f64_div 1 (f64_of_int (int m)) = f64_round (1 / rat_of_nat m)" (is "?x = _")
    by (simp add: f64_div_def)
  have m: "0 < rat_of_nat m" "rat_of_nat m \<le> 1000000000"
    using assms by simp_all
  have low: "f64_round (1 / 1000000000) \<le> ?x"
    unfolding x using m by (intro f64_round_mono) (simp add: field_simps)
  have "?x \<le> f64_round 1"
    unfolding x using m assms(1) by (intro f64_round_mono) (simp add: field_simps)
  then have high: "?x * 1000000000 \<le> of_int 1000000000" by simp
  have "0 < round_even (f64_round (1 / 1000000000) * 1000000000)"
    by code_simp
  then have pos: "0 < round_even (?x * 1000000000)"
    using round_even_mono [of "f64_round (1 / 1000000000) * 1000000000" "?x * 1000000000"] low
    by linarith
  have "0 \<le> ?x" unfolding x using m by (intro f64_round_nonneg) simp
  moreover have "round_even (?x * 1000000000) \<le> 1000000000"
    using round_even_mono [OF high] unfolding round_even_of_int .
  ultimately show ?thesis using pos by blast
qed

lemma gen_interval_pos:
  assumes "0 < unat c" and "unat c \<le> 1000000000"
  shows "\<exists>interval. gen_interval c = Some interval \<and> 0 < interval"
proof -
  have "c \<noteq> 0" using assms(1) by auto
  then show ?thesis
    using tick_of_rate [OF assms] unfolding gen_interval_def uint_nat from_secs_f64_def Let_def
    by (auto simp: not_le)
qed

section \<open>Properties\<close>

lemma run_eq:
  assumes "0 < unat (cps cfg)" and "unat (cps cfg) \<le> 1000000000"
  obtains interval stats sh' where "gen_interval (cps cfg) = Some interval" and "0 < interval"
    and "gen_iter env cfg p seed (ceil_div (duration_of cfg) interval) 0 (gen_start, sh) = (stats, sh')"
    and "run env sh cfg p seed = Some (Inr (stats, request_shutdown sh'))"
proof -
  from gen_interval_pos [OF assms] obtain interval where i: "gen_interval (cps cfg) = Some interval" "0 < interval"
    by blast
  obtain stats sh' where
    s: "gen_iter env cfg p seed (ceil_div (duration_of cfg) interval) 0 (gen_start, sh) = (stats, sh')"
    by fastforce
  have "run env sh cfg p seed = Some (Inr (stats, request_shutdown sh'))"
    using i gen_loop_iter [OF i(2), of env cfg p seed 0 0 "(gen_start, sh)"] s by (simp add: run_def)
  with i s show thesis by (intro that)
qed

text \<open>
  A run ends and counts what it sent: for every rate from 1 to \<open>10 ^ 9\<close> connections per second,
  whatever the workers do in between, the loop terminates after the smallest number of intervals
  that covers the duration, every connection is dispatched to exactly one worker, and shutdown is
  requested at the end.
\<close>

lemma run_terminates_and_counts:
  assumes "0 < unat (cps cfg)" and "unat (cps cfg) \<le> 1000000000"
  shows "\<exists>interval stats sh'. gen_interval (cps cfg) = Some interval \<and>
    run env sh cfg p seed = Some (Inr (stats, sh')) \<and>
    generated stats = of_nat (ceil_div (duration_of cfg) interval) \<and>
    sum_list (dispatched_per_worker stats) = generated stats \<and> shutdown_requested sh'"
proof -
  obtain interval stats sh' where r: "gen_interval (cps cfg) = Some interval"
    "gen_iter env cfg p seed (ceil_div (duration_of cfg) interval) 0 (gen_start, sh) = (stats, sh')"
    "run env sh cfg p seed = Some (Inr (stats, request_shutdown sh'))"
    using run_eq [OF assms] by metis
  have start: "length (dispatched_per_worker gen_start) = NUM_WORKERS"
    "sum_list (dispatched_per_worker gen_start) = 0" "generated gen_start = 0"
    by (simp_all add: gen_start_def sum_list_replicate)
  have "sum_list (dispatched_per_worker stats) = of_nat (ceil_div (duration_of cfg) interval)"
    and "generated stats = of_nat (ceil_div (duration_of cfg) interval)"
    using gen_iter_counts [of "(gen_start, sh)" env cfg p seed "ceil_div (duration_of cfg) interval" 0]
    unfolding r(2) fst_conv Let_def start by simp_all
  with r show ?thesis by (auto simp: shutdown_requested_def request_shutdown_def)
qed

text \<open>The medium level of Case 3: 60 connections per second for 4 seconds.\<close>

lemma run_terminates_and_counts_witness:
  "\<exists>stats sh'. run \<lparr>others = \<lambda>k sh. sh, clock = of_nat\<rparr> zeroed_state (base_case Case3) Hermes 7 =
      Some (Inr (stats, sh')) \<and>
    generated stats = 240"
proof -
  have c: "cps (base_case Case3) = 60" "duration_of (base_case Case3) = 4000000000"
    by (simp_all add: base_case_def from_secs_def)
  have "round_even (f64_div 1 (f64_of_int 60) * 1000000000) = 16666667" by code_simp
  then have "gen_interval 60 = Some 16666667"
    using tick_of_rate [of 60] by (simp add: gen_interval_def from_secs_f64_def)
  then show ?thesis
    using run_terminates_and_counts [of "base_case Case3" "\<lparr>others = \<lambda>k sh. sh, clock = of_nat\<rparr>"
        zeroed_state Hermes 7]
    by (auto simp: c ceil_div_def)
qed

text \<open>
  Overflow of an accept queue is accounted for twice and consistently: provided the workers
  leave the drop counters alone, the counters of the shared memory grow during a run by exactly
  the number of drops the run reports.
\<close>

lemma run_accounts_for_drops:
  assumes "0 < unat (cps cfg)" and "unat (cps cfg) \<le> 1000000000"
    and "\<And>k sh. sh_drops (others env k sh) = sh_drops sh" and "length (sh_drops sh) = NUM_WORKERS"
  shows "\<exists>stats sh'. run env sh cfg p seed = Some (Inr (stats, sh')) \<and>
    sum_list (sh_drops sh') - sum_list (sh_drops sh) = dropped stats"
proof -
  obtain interval stats sh' where r:
    "gen_iter env cfg p seed (ceil_div (duration_of cfg) interval) 0 (gen_start, sh) = (stats, sh')"
    "run env sh cfg p seed = Some (Inr (stats, request_shutdown sh'))"
    using run_eq [OF assms(1,2)] by metis
  have "sum_list (sh_drops sh') - sum_list (sh_drops sh) = dropped stats"
    using gen_iter_drops [where s = "(gen_start, sh)" and env = env and n = "ceil_div (duration_of cfg) interval"
        and cfg = cfg and p = p and seed = seed and k = 0, OF assms(3)] assms(4) r(1)
    by (simp add: gen_start_def)
  with r(2) show ?thesis by (auto simp: request_shutdown_def)
qed

lemma run_accounts_for_drops_witness:
  "\<exists>stats sh'. run \<lparr>others = \<lambda>k sh. sh, clock = of_nat\<rparr> (zeroed_state\<lparr>sh_drops := [0, 2, 0, 0]\<rparr>)
      (base_case Case3) Lifo 7 = Some (Inr (stats, sh')) \<and>
    sum_list (sh_drops sh') - 2 = dropped stats"
  using run_accounts_for_drops [of "base_case Case3" "\<lparr>others = \<lambda>k sh. sh, clock = of_nat\<rparr>"
      "zeroed_state\<lparr>sh_drops := [0, 2, 0, 0]\<rparr>" Lifo 7]
  by (simp add: base_case_def NUM_WORKERS_def)

text \<open>
  One connection changes exactly what it should: its descriptor is appended to the queue of the
  dispatched worker, or, if that queue is full, the worker's drop counter and the whole go up by
  one; the other queues and counters, the status table, the bitmap and the shutdown flag are
  untouched, and the shared state stays well formed.
\<close>

lemma gen_conn_delivers_or_drops:
  assumes "shared_ok sh" and "i < NUM_WORKERS"
  shows "let hash = gen_hash (generated stats) seed; target = dispatch sh p hash;
      full = (queue_len (sh_queues sh ! target) = QUEUE_CAP); desc = gen_desc cfg (generated stats) hash now;
      (stats', sh') = gen_conn cfg p seed now (stats, sh)
    in shared_ok sh' \<and> sh_wst sh' = sh_wst sh \<and> sh_msel sh' = sh_msel sh \<and> sh_shutdown sh' = sh_shutdown sh \<and>
      queue_list (sh_queues sh' ! i) = queue_list (sh_queues sh ! i) @ (if i = target \<and> \<not> full then [desc] else []) \<and>
      sh_drops sh' ! i = sh_drops sh ! i + (if i = target \<and> full then 1 else 0) \<and>
      dropped stats' = dropped stats + (if full then 1 else 0) \<and>
      generated stats' = generated stats + 1"
proof -
  define target where "target = dispatch sh p (gen_hash (generated stats) seed)"
  define full where "full \<longleftrightarrow> queue_len (sh_queues sh ! target) = QUEUE_CAP"
  define desc where "desc = gen_desc cfg (generated stats) (gen_hash (generated stats) seed) now"
  have t: "target < NUM_WORKERS" unfolding target_def by (rule dispatch_less)
  have inv: "queue_inv (sh_queues sh ! target)" using assms(1) t by (rule shared_ok_queue)
  have len: "length (sh_queues sh) = NUM_WORKERS" "length (sh_drops sh) = NUM_WORKERS"
    using assms(1) by (simp_all add: shared_ok_def)
  obtain ok q where pu: "push (sh_queues sh ! target) desc = (ok, q)" by fastforce
  have q: "queue_inv q" "ok = (\<not> full)"
    "queue_list q = queue_list (sh_queues sh ! target) @ (if full then [] else [desc])"
    using ring.enq_cases [OF inv, of desc] inv
    by (auto simp: pu full_def queue_inv_def)
  show ?thesis
    using pu q t len assms(1,2)
    unfolding Let_def target_def [symmetric] full_def [symmetric] desc_def [symmetric]
    by (auto simp: gen_conn_def Let_def target_def [symmetric] desc_def [symmetric] nth_list_update
        intro!: shared_ok_intros)
qed

lemma gen_conn_delivers_or_drops_witness:
  "let (stats', sh') = gen_conn (base_case Case3) ReuseportHash 7 1000 (gen_start, zeroed_state)
   in shared_ok sh' \<and> dropped stats' = 0 \<and> generated stats' = 1"
proof -
  have "shared_ok zeroed_state" by (simp add: shared_ok_def wst_ok_def zeroed_state_def)
  moreover have "queue_len (sh_queues zeroed_state ! dispatch zeroed_state ReuseportHash h) \<noteq> QUEUE_CAP" for h
    using dispatch_less [of zeroed_state ReuseportHash h] by (simp add: zeroed_state_def)
  ultimately show ?thesis
    using gen_conn_delivers_or_drops [of zeroed_state 0, where cfg = "base_case Case3" and p = ReuseportHash
        and seed = 7 and now = 1000 and stats = gen_start]
    by (auto simp: gen_start_def Let_def)
qed

text \<open>The iteration as a sequence of states: what connection \<open>n\<close> is sent from, and what it leaves.\<close>

lemma gen_iter_snoc:
  "gen_iter env cfg p seed (Suc n) k s =
    gen_conn cfg p seed (clock env (k + n))
      (fst (gen_iter env cfg p seed n k s), others env (k + n) (snd (gen_iter env cfg p seed n k s)))"
proof (induction n arbitrary: k s)
  case (Suc n)
  show ?case
    using Suc.IH [of "Suc k" "gen_conn cfg p seed (clock env k) (fst s, others env k (snd s))"] by simp
qed simp

lemma gen_iter_shared_ok:
  assumes "\<And>k sh. shared_ok sh \<Longrightarrow> shared_ok (others env k sh)" and "shared_ok (snd s)"
  shows "shared_ok (snd (gen_iter env cfg p seed n k s))"
proof (induction n)
  case (Suc n)
  let ?r = "gen_iter env cfg p seed n k s"
  have "shared_ok (others env (k + n) (snd ?r))" using Suc assms(1) by simp
  from gen_conn_delivers_or_drops [OF this, of 0 "fst ?r" seed p cfg "clock env (k + n)"]
  show ?case unfolding gen_iter_snoc by (auto simp: Let_def split: prod.splits)
qed (use assms(2) in simp)

text \<open>
  The synthetic 4-tuple hash permutes the connection ids for every seed: no two connections of a
  run share a hash.
\<close>

lemma gen_hash_permutes: "bij (\<lambda>cid. gen_hash cid seed)"
proof -
  have "bij (\<lambda>cid :: u64. cid XOR k)" for k
    by (rule bij_betw_byWitness [where f' = "\<lambda>cid. cid XOR k"]) (simp_all add: xor.assoc)
  moreover have "bij (\<lambda>x :: u64. x * 0x9e3779b97f4a7c15 + 0)"
    by (rule bij_affine_word [where b = 17428512612931826493]) simp
  ultimately have "bij ((\<lambda>x :: u64. x * 0x9e3779b97f4a7c15 + 0) \<circ> (\<lambda>cid. cid XOR (seed * 0xff51afd7ed558ccd)))"
    by (rule bij_comp)
  then show ?thesis by (simp only: gen_hash_def comp_def add_0_right)
qed

lemma gen_loop_zero_interval:
  "gen_loop env cfg p seed interval k offset s = Some r \<Longrightarrow> interval = 0 \<Longrightarrow> \<not> offset < duration_of cfg"
proof (induction rule: gen_loop.raw_induct [rotated 1, consumes 1])
  case (1 f env cfg p seed interval k offset s r)
  then show ?case by (auto split: if_splits)
qed

text \<open>
  A rate so high that the interval rounds to zero nanoseconds is not rejected: the generator
  then never stops sending.
\<close>

lemma run_zero_interval_diverges:
  assumes "gen_interval (cps cfg) = Some 0" and "0 < duration_of cfg"
  shows "run env sh cfg p seed = None"
  using assms gen_loop_zero_interval [of env cfg p seed 0 0 0 "(gen_start, sh)"]
  by (cases "gen_loop env cfg p seed 0 0 0 (gen_start, sh)") (simp_all add: run_def)

lemma run_zero_interval_diverges_witness:
  "run \<lparr>others = \<lambda>k sh. sh, clock = of_nat\<rparr> zeroed_state ((base_case Case3)\<lparr>cps := 4000000000\<rparr>) Hermes 7 = None"
proof (rule run_zero_interval_diverges)
  have "round_even (f64_div 1 (f64_of_int 4000000000) * 1000000000) = 0"
    and "\<not> f64_div 1 (f64_of_int 4000000000) < 0" by code_simp+
  then have "gen_interval 4000000000 = Some 0" by (simp add: gen_interval_def from_secs_f64_def)
  then show "gen_interval (cps ((base_case Case3)\<lparr>cps := 4000000000\<rparr>)) = Some 0" by simp
qed (simp add: base_case_def from_secs_def)

end
