(* ===== verification/Loader.thy ===== *)
theory Loader
  imports Kernel_Dispatch "HOL-Library.Multiset"
begin

text \<open>
  The policies and the socket setup of \<open>hermes/src/loader.rs\<close>. The results of the system calls are
  scripts in the state, one \<open>(ret, errno)\<close> per call, and a routine is \<open>None\<close> when a script ends
  before it returns; the calls made on a descriptor are logged in order. An \<open>OwnedFd\<close> that goes out
  of scope closes its descriptor. The eBPF loader (\<open>aya\<close>) is a parameter: which of its steps fail.
\<close>

section \<open>Policies\<close>

datatype policy = Hermes | Lifo | Reuseport

definition policy_as_str :: "policy \<Rightarrow> string" where
  "policy_as_str p =
     (case p of Hermes \<Rightarrow> ''hermes'' | Lifo \<Rightarrow> ''lifo'' | Reuseport \<Rightarrow> ''reuseport'')"

definition policy_parse :: "string \<Rightarrow> policy option" where
  "policy_parse s =
     (if s = ''hermes'' then Some Hermes
      else if s = ''lifo'' then Some Lifo
      else if s = ''reuseport'' then Some Reuseport
      else None)"

definition runs_scheduler :: "policy \<Rightarrow> bool" where
  "runs_scheduler p \<longleftrightarrow> p = Hermes"

section \<open>Creating a listener\<close>

datatype sockopt = SO_REUSEADDR | SO_REUSEPORT

datatype net_call =
    Opened int
  | Set_Opt int sockopt
  | Bound int u16
  | Listening int nat
  | Dropped int

datatype setup_error =
    Socket_Error nat
  | Setsockopt_Error sockopt nat
  | Bind_Error u16 nat
  | Listen_Error nat
  | Ebpf_Error nat

record net =
  k_socket :: "(int \<times> nat) list"
  k_sockopt :: "(int \<times> nat) list"
  k_bind :: "(int \<times> nat) list"
  k_listen :: "(int \<times> nat) list"
  net_log :: "net_call list"

text \<open>A step reports an error or none; the \<open>?\<close> operator goes on only without an error.\<close>

definition and_then ::
  "(setup_error option \<times> net) option \<Rightarrow> (net \<Rightarrow> (setup_error option \<times> net) option) \<Rightarrow>
    (setup_error option \<times> net) option" where
  "and_then m f =
     (case m of None \<Rightarrow> None | Some (Some e, s) \<Rightarrow> Some (Some e, s) | Some (None, s) \<Rightarrow> f s)"

definition set_sockopt_bool :: "int \<Rightarrow> sockopt \<Rightarrow> net \<Rightarrow> (setup_error option \<times> net) option" where
  "set_sockopt_bool fd opt s =
     (case k_sockopt s of
        [] \<Rightarrow> None
      | (ret, err) # rs \<Rightarrow>
          let s = s\<lparr>k_sockopt := rs\<rparr>
          in if ret \<noteq> 0 then Some (Some (Setsockopt_Error opt err), s)
             else Some (None, s\<lparr>net_log := net_log s @ [Set_Opt fd opt]\<rparr>))"

definition bind_port :: "int \<Rightarrow> u16 \<Rightarrow> net \<Rightarrow> (setup_error option \<times> net) option" where
  "bind_port fd port s =
     (case k_bind s of
        [] \<Rightarrow> None
      | (ret, err) # rs \<Rightarrow>
          let s = s\<lparr>k_bind := rs\<rparr>
          in if ret \<noteq> 0 then Some (Some (Bind_Error port err), s)
             else Some (None, s\<lparr>net_log := net_log s @ [Bound fd port]\<rparr>))"

definition listen_on :: "int \<Rightarrow> net \<Rightarrow> (setup_error option \<times> net) option" where
  "listen_on fd s =
     (case k_listen s of
        [] \<Rightarrow> None
      | (ret, err) # rs \<Rightarrow>
          let s = s\<lparr>k_listen := rs\<rparr>
          in if ret \<noteq> 0 then Some (Some (Listen_Error err), s)
             else Some (None, s\<lparr>net_log := net_log s @ [Listening fd 1024]\<rparr>))"

definition create_listener :: "u16 \<Rightarrow> bool \<Rightarrow> net \<Rightarrow> ((setup_error + int) \<times> net) option" where
  "create_listener port reuseport s =
     (case k_socket s of
        [] \<Rightarrow> None
      | (fd, err) # rs \<Rightarrow>
          let s = s\<lparr>k_socket := rs\<rparr>
          in if fd < 0 then Some (Inl (Socket_Error err), s)
             else
               let s = s\<lparr>net_log := net_log s @ [Opened fd]\<rparr>
               in case
                 and_then (set_sockopt_bool fd SO_REUSEADDR s) (\<lambda>s.
                 and_then (if reuseport then set_sockopt_bool fd SO_REUSEPORT s else Some (None, s)) (\<lambda>s.
                 and_then (bind_port fd port s) (listen_on fd))) of
                   None \<Rightarrow> None
                 | Some (None, s) \<Rightarrow> Some (Inr fd, s)
                 | Some (Some e, s) \<Rightarrow> Some (Inl e, s\<lparr>net_log := net_log s @ [Dropped fd]\<rparr>))"

section \<open>Setting up a policy\<close>

text \<open>The listeners of the group one after the other; on an error the ones made so far are dropped.\<close>

fun create_group :: "nat \<Rightarrow> u16 \<Rightarrow> int list \<Rightarrow> net \<Rightarrow> ((setup_error + int list) \<times> net) option" where
  "create_group 0 port owned s = Some (Inr owned, s)"
| "create_group (Suc n) port owned s =
     (case create_listener port True s of
        None \<Rightarrow> None
      | Some (Inr fd, s) \<Rightarrow> create_group n port (owned @ [fd]) s
      | Some (Inl e, s) \<Rightarrow> Some (Inl e, s\<lparr>net_log := net_log s @ map Dropped owned\<rparr>))"

text \<open>
  \<open>load_and_attach_ebpf\<close>: a step of the eBPF loader that fails is \<open>Some err\<close>; otherwise \<open>M_socket\<close>
  holds each worker's listener at its id.
\<close>

definition load_and_attach_ebpf :: "nat option \<Rightarrow> int list \<Rightarrow> setup_error + (u32 \<rightharpoonup> int)" where
  "load_and_attach_ebpf aya_error listen_fds =
     (case aya_error of
        Some err \<Rightarrow> Inl (Ebpf_Error err)
      | None \<Rightarrow> Inr (map_of (map (\<lambda>(worker_id, fd). (of_nat worker_id, fd)) (enumerate 0 listen_fds))))"

record setup_result =
  listen_fds :: "int list"
  owned :: "int list"
  m_socket :: "u32 \<rightharpoonup> int"

definition setup_policy :: "policy \<Rightarrow> u16 \<Rightarrow> nat option \<Rightarrow> net \<Rightarrow> ((setup_error + setup_result) \<times> net) option" where
  "setup_policy p port aya_error s =
     (if p = Hermes \<or> p = Reuseport
      then case create_group NUM_WORKERS port [] s of
        None \<Rightarrow> None
      | Some (Inl e, s) \<Rightarrow> Some (Inl e, s)
      | Some (Inr fds, s) \<Rightarrow>
          if p = Hermes
          then case load_and_attach_ebpf aya_error fds of
            Inl e \<Rightarrow> Some (Inl e, s\<lparr>net_log := net_log s @ map Dropped fds\<rparr>)
          | Inr m \<Rightarrow> Some (Inr \<lparr>listen_fds = fds, owned = fds, m_socket = m\<rparr>, s)
          else Some (Inr \<lparr>listen_fds = fds, owned = fds, m_socket = Map.empty\<rparr>, s)
      else case create_listener port False s of
        None \<Rightarrow> None
      | Some (Inl e, s) \<Rightarrow> Some (Inl e, s)
      | Some (Inr fd, s) \<Rightarrow>
          Some (Inr \<lparr>listen_fds = replicate NUM_WORKERS fd, owned = [fd], m_socket = Map.empty\<rparr>, s))"

section \<open>The log of one listener\<close>

definition group_log :: "u16 \<Rightarrow> int \<Rightarrow> net_call list" where
  "group_log port fd = [Opened fd, Set_Opt fd SO_REUSEADDR, Set_Opt fd SO_REUSEPORT, Bound fd port, Listening fd 1024]"

definition shared_log :: "u16 \<Rightarrow> int \<Rightarrow> net_call list" where
  "shared_log port fd = [Opened fd, Set_Opt fd SO_REUSEADDR, Bound fd port, Listening fd 1024]"

fun opened_fd :: "net_call \<Rightarrow> int list" where
  "opened_fd (Opened fd) = [fd]"
| "opened_fd _ = []"

fun dropped_fd :: "net_call \<Rightarrow> int list" where
  "dropped_fd (Dropped fd) = [fd]"
| "dropped_fd _ = []"

lemmas listener_steps = create_listener_def and_then_def set_sockopt_bool_def bind_port_def listen_on_def Let_def

lemma create_listener_Inr:
  assumes "create_listener port reuseport s = Some (Inr fd, s')"
  shows "net_log s' = net_log s @ (if reuseport then group_log port fd else shared_log port fd)"
  using assms
  by (auto simp: listener_steps group_log_def shared_log_def split: list.splits if_splits option.splits)

lemma create_listener_Inl:
  assumes "create_listener port reuseport s = Some (Inl e, s')"
  shows "\<exists>calls. net_log s' = net_log s @ calls \<and> concat (map opened_fd calls) = concat (map dropped_fd calls)"
  using assms
  by (auto simp: listener_steps split: list.splits if_splits option.splits)

section \<open>The whole setup\<close>

definition no_leak :: "net_call list \<Rightarrow> bool" where
  "no_leak calls \<longleftrightarrow> mset (concat (map opened_fd calls)) = mset (concat (map dropped_fd calls))"

lemma opened_group [simp]:
  "concat (map opened_fd (concat (map (group_log port) fds))) = fds"
  "concat (map dropped_fd (concat (map (group_log port) fds))) = []"
  by (induction fds) (simp_all add: group_log_def)

lemma dropped_map [simp]:
  "concat (map opened_fd (map Dropped fds)) = []" "concat (map dropped_fd (map Dropped fds)) = fds"
  by (induction fds) simp_all

lemma create_group_Inr:
  assumes "create_group n port kept s = Some (Inr fds, s')"
  shows "\<exists>new. fds = kept @ new \<and> length new = n \<and> net_log s' = net_log s @ concat (map (group_log port) new)"
  using assms
proof (induction n arbitrary: kept s)
  case (Suc n)
  then obtain fd s1 where c: "create_listener port True s = Some (Inr fd, s1)"
    and g: "create_group n port (kept @ [fd]) s1 = Some (Inr fds, s')"
    by (auto split: option.splits sum.splits prod.splits)
  from Suc.IH [OF g] obtain new where "fds = (kept @ [fd]) @ new" "length new = n"
    "net_log s' = net_log s1 @ concat (map (group_log port) new)" by blast
  then show ?case
    using create_listener_Inr [OF c] by (intro exI [of _ "fd # new"]) simp
qed simp

lemma create_group_Inl:
  assumes "create_group n port kept s = Some (Inl e, s')"
  shows "\<exists>calls. net_log s' = net_log s @ calls \<and> no_leak (concat (map (group_log port) kept) @ calls)"
  using assms
proof (induction n arbitrary: kept s)
  case (Suc n)
  show ?case
  proof (cases "create_listener port True s")
    case (Some r)
    obtain x s1 where r: "r = (x, s1)" by fastforce
    show ?thesis
    proof (cases x)
      case (Inl err)
      with Some r obtain calls where l: "net_log s1 = net_log s @ calls"
        and c: "concat (map opened_fd calls) = concat (map dropped_fd calls)"
        using create_listener_Inl by blast
      have s': "net_log s' = net_log s @ (calls @ map Dropped kept)"
        using Suc.prems Some r Inl l by auto
      have "no_leak (concat (map (group_log port) kept) @ (calls @ map Dropped kept))"
        unfolding no_leak_def map_append concat_append opened_group dropped_map c by simp
      with s' show ?thesis by blast
    next
      case (Inr fd)
      then have g: "create_group n port (kept @ [fd]) s1 = Some (Inl e, s')" using Suc.prems Some r by simp
      from Suc.IH [OF g] obtain calls where "net_log s' = net_log s1 @ calls"
        "no_leak (concat (map (group_log port) (kept @ [fd])) @ calls)" by blast
      then show ?thesis
        using create_listener_Inr [of port True s fd s1] Some r Inr
        by (intro exI [of _ "group_log port fd @ calls"]) simp
    qed
  qed (use Suc.prems in simp)
qed simp

lemma m_socket_lookup:
  assumes "load_and_attach_ebpf aya_error fds = Inr m" and "length fds = NUM_WORKERS" and "i < NUM_WORKERS"
  shows "m (of_nat i) = Some (fds ! i)"
proof -
  have "\<exists>a b c d. fds = [a, b, c, d]"
    using assms(2) by (auto simp: NUM_WORKERS_def length_Suc_conv eval_nat_numeral)
  then obtain a b c d where fds: "fds = [a, b, c, d]" by blast
  have "i = 0 \<or> i = 1 \<or> i = 2 \<or> i = 3" using assms(3) by (auto simp: NUM_WORKERS_def)
  then show ?thesis
    using assms(1) by (auto simp: load_and_attach_ebpf_def fds split: option.splits)
qed

lemma hermes_setup_sockets:
  assumes "setup_policy Hermes port aya_error s = Some (Inr st, s')" and "i < NUM_WORKERS"
  shows "m_socket st (of_nat i) = Some (listen_fds st ! i)"
proof -
  obtain fds m where g: "create_group NUM_WORKERS port [] s = Some (Inr fds, s')"
    and m: "load_and_attach_ebpf aya_error fds = Inr m" and st: "st = \<lparr>listen_fds = fds, owned = fds, m_socket = m\<rparr>"
    using assms(1) by (auto simp: setup_policy_def split: option.splits sum.splits)
  then show ?thesis using create_group_Inr [OF g] m_socket_lookup [OF m _ assms(2)] by simp
qed

lemma setup_owned:
  assumes "setup_policy p port aya_error s = Some (Inr st, s')"
  shows "length (listen_fds st) = NUM_WORKERS \<and>
    (if p = Lifo then \<exists>fd. listen_fds st = replicate NUM_WORKERS fd \<and> owned st = [fd] else owned st = listen_fds st)"
  using assms
  by (cases p) (auto simp: setup_policy_def dest!: create_group_Inr split: option.splits sum.splits)

section \<open>Properties\<close>

text \<open>
  C27: A successful setup is what each policy needs: one listening descriptor per worker; under LIFO
  all of them the same socket, otherwise one socket each with \<open>SO_REUSEPORT\<close> set before it is
  bound to the port, and only under Hermes a socket map, which holds each worker's own listener at
  its id.
\<close>

theorem setup_provides_listeners:
  assumes "setup_policy p port aya_error s = Some (Inr st, s')"
  shows "length (listen_fds st) = NUM_WORKERS \<and>
    (if p = Lifo
     then \<exists>fd. listen_fds st = replicate NUM_WORKERS fd \<and> owned st = [fd] \<and> m_socket st = Map.empty \<and>
       net_log s' = net_log s @ shared_log port fd
     else owned st = listen_fds st \<and> net_log s' = net_log s @ concat (map (group_log port) (listen_fds st)) \<and>
       (if p = Hermes then \<forall>i<NUM_WORKERS. m_socket st (of_nat i) = Some (listen_fds st ! i)
        else m_socket st = Map.empty))"
proof (cases p)
  case Lifo
  then show ?thesis
    using assms create_listener_Inr [of port False s] by (auto simp: setup_policy_def split: option.splits sum.splits)
next
  case Hermes
  then obtain fds m where g: "create_group NUM_WORKERS port [] s = Some (Inr fds, s')"
    and m: "load_and_attach_ebpf aya_error fds = Inr m"
    and st: "st = \<lparr>listen_fds = fds, owned = fds, m_socket = m\<rparr>"
    using assms by (auto simp: setup_policy_def split: option.splits sum.splits)
  then show ?thesis using create_group_Inr [OF g] m_socket_lookup [OF m] Hermes by simp
next
  case Reuseport
  then obtain fds where g: "create_group NUM_WORKERS port [] s = Some (Inr fds, s')"
    and st: "st = \<lparr>listen_fds = fds, owned = fds, m_socket = Map.empty\<rparr>"
    using assms by (auto simp: setup_policy_def split: option.splits sum.splits)
  then show ?thesis using create_group_Inr [OF g] Reuseport by simp
qed

definition sample_net :: "(int \<times> nat) list \<Rightarrow> net" where
  "sample_net binds = \<lparr>k_socket = [(5, 0), (6, 0), (7, 0), (8, 0)], k_sockopt = replicate 8 (0, 0),
     k_bind = binds, k_listen = replicate 4 (0, 0), net_log = []\<rparr>"

lemma sample_setup:
  "\<exists>st s'. setup_policy Hermes 9000 None (sample_net (replicate 4 (0, 0))) = Some (Inr st, s') \<and>
    listen_fds st = [5, 6, 7, 8]"
  by (simp add: setup_policy_def NUM_WORKERS_def eval_nat_numeral listener_steps sample_net_def load_and_attach_ebpf_def)

theorem setup_provides_listeners_witness:
  "\<exists>st s'. setup_policy Hermes 9000 None (sample_net (replicate 4 (0, 0))) = Some (Inr st, s') \<and>
    m_socket st (of_nat 2) = Some 7"
proof -
  obtain st s' where r: "setup_policy Hermes 9000 None (sample_net (replicate 4 (0, 0))) = Some (Inr st, s')"
    and f: "listen_fds st = [5, 6, 7, 8]" using sample_setup by blast
  have "(2 :: nat) < NUM_WORKERS" by (simp add: NUM_WORKERS_def)
  then have "m_socket st (of_nat 2) = Some (listen_fds st ! 2)"
    using setup_provides_listeners [OF r] by (simp del: of_nat_numeral)
  with r f show ?thesis by auto
qed

text \<open>
  C34: A setup that fails leaks nothing: whichever system call or eBPF step fails, every socket
  opened until then has been closed again.
\<close>

theorem failed_setup_leaks_nothing:
  assumes "setup_policy p port aya_error s = Some (Inl e, s')"
  shows "\<exists>calls. net_log s' = net_log s @ calls \<and>
    mset (concat (map opened_fd calls)) = mset (concat (map dropped_fd calls))"
proof (cases "p = Lifo")
  case True
  then show ?thesis
    using assms create_listener_Inl [of port False s] by (auto simp: setup_policy_def split: option.splits sum.splits)
next
  case False
  then have p: "p = Hermes \<or> p = Reuseport" by (cases p) simp_all
  then consider "create_group NUM_WORKERS port [] s = Some (Inl e, s')"
    | fds s1 where "create_group NUM_WORKERS port [] s = Some (Inr fds, s1)"
      "s' = s1\<lparr>net_log := net_log s1 @ map Dropped fds\<rparr>"
    using assms by (auto simp: setup_policy_def split: option.splits sum.splits if_splits)
  then show ?thesis
  proof cases
    case 1
    then show ?thesis using create_group_Inl [OF 1] by (simp add: no_leak_def)
  next
    case 2
    from create_group_Inr [OF 2(1)] have "net_log s' = net_log s @ (concat (map (group_log port) fds) @ map Dropped fds)"
      using 2(2) by auto
    moreover have "no_leak (concat (map (group_log port) fds) @ map Dropped fds)"
      unfolding no_leak_def map_append concat_append opened_group dropped_map by simp
    ultimately show ?thesis unfolding no_leak_def by blast
  qed
qed

text \<open>The third bind fails: the port is taken by a socket outside the group.\<close>

theorem failed_setup_leaks_nothing_witness:
  "\<exists>e s' calls. setup_policy Hermes 9000 None (sample_net [(0, 0), (0, 0), (- 1, 98)]) = Some (Inl e, s') \<and>
    net_log s' = calls \<and> mset (concat (map opened_fd calls)) = mset (concat (map dropped_fd calls)) \<and>
    5 \<in> set (concat (map opened_fd calls))"
proof -
  have "\<exists>e s'. setup_policy Hermes 9000 None (sample_net [(0, 0), (0, 0), (- 1, 98)]) = Some (Inl e, s') \<and>
      5 \<in> set (concat (map opened_fd (net_log s')))"
    by (simp add: setup_policy_def NUM_WORKERS_def eval_nat_numeral listener_steps sample_net_def)
  then obtain e s' where r: "setup_policy Hermes 9000 None (sample_net [(0, 0), (0, 0), (- 1, 98)]) = Some (Inl e, s')"
    "5 \<in> set (concat (map opened_fd (net_log s')))" by blast
  have "net_log (sample_net [(0, 0), (0, 0), (- 1, 98)]) = []" by (simp add: sample_net_def)
  with failed_setup_leaks_nothing [OF r(1)] r show ?thesis by (metis append_Nil)
qed

text \<open>
  A policy name is parsed to the policy it was printed from, and no other string is a policy.
\<close>

lemma policy_names_round_trip:
  "policy_parse s = Some p \<longleftrightarrow> s = policy_as_str p"
  by (cases p) (auto simp: policy_parse_def policy_as_str_def)

end
