(* ===== verification/Worker_Io.thy ===== *)
theory Worker_Io
  imports Status_Table Std_Time Wire_Protocol
begin

text \<open>
  The connection handling of \<open>hermes/src/worker.rs\<close>: accepting, reading, serving the buffered
  requests and writing the responses. The system calls belong to the kernel: their results are
  scripts in the state, consumed one result per call, and a routine is \<open>None\<close> when a script ends
  before it returns. A call that returns \<open>(ret, errno)\<close> leaves \<open>errno\<close> for \<open>last_os_error\<close>. The
  effects on the outside (bytes written, descriptors closed, the simulated work) are logged in
  order; console output is left out.
\<close>

section \<open>The worker's view of the kernel\<close>

type_synonym fd = int

text \<open>The values of the Linux constants the code names.\<close>

definition EAGAIN :: errno where "EAGAIN = 11"
definition EWOULDBLOCK :: errno where "EWOULDBLOCK = 11"
definition EINTR :: errno where "EINTR = 4"
definition EPOLLERR :: u32 where "EPOLLERR = 0x008"
definition EPOLLHUP :: u32 where "EPOLLHUP = 0x010"

text \<open>A read of no bytes is the end of the stream.\<close>

datatype read_result = Read_Bytes "u8 list" | Read_Failed errno

datatype effect = Sleep duration | Written fd "u8 list" | Epoll_Del fd | Close fd

text \<open>\<open>struct ConnState\<close>: the bytes read that do not yet form a complete request.\<close>

record conn_state =
  buf :: "u8 list"

record io =
  io_slot :: worker_slot
  io_conns :: "fd \<rightharpoonup> conn_state"
  io_log :: "effect list"
  k_accept :: "(int \<times> errno) list"
  k_ctl_add :: "(int \<times> errno) list"
  k_read :: "read_result list"
  k_write :: "(int \<times> errno) list"

section \<open>Writing a response\<close>

function write_loop :: "u8 list \<Rightarrow> nat \<Rightarrow> nat \<Rightarrow> (int \<times> errno) list \<Rightarrow> (errno option \<times> nat \<times> (int \<times> errno) list) option" where
  "write_loop bs off spins ws =
     (if off < length bs
      then case ws of
        [] \<Rightarrow> None
      | (ret, err) # ws' \<Rightarrow>
          if 0 < ret then write_loop bs (off + nat ret) spins ws'
          else if err = EAGAIN \<and> spins < 1000 then write_loop bs off (spins + 1) ws'
          else Some (Some err, off, ws')
      else Some (None, off, ws))"
  by pat_completeness auto

termination by (relation "measure (\<lambda>(bs, off, spins, ws). length ws)") auto

declare write_loop.simps [simp del]

definition write_all :: "fd \<Rightarrow> u8 list \<Rightarrow> io \<Rightarrow> (errno option \<times> io) option" where
  "write_all fd bs s =
     (case write_loop bs 0 0 (k_write s) of
        None \<Rightarrow> None
      | Some (err, off, ws) \<Rightarrow>
          Some (err, s\<lparr>k_write := ws, io_log := io_log s @ [Written fd (take off bs)]\<rparr>))"

lemma write_all_frame:
  "write_all fd bs s = Some (err, s') \<Longrightarrow> io_conns s' = io_conns s \<and> io_slot s' = io_slot s \<and>
    k_read s' = k_read s \<and> k_accept s' = k_accept s \<and> k_ctl_add s' = k_ctl_add s"
  by (auto simp: write_all_def split: option.splits)

section \<open>Serving a connection\<close>

function read_loop :: "fd \<Rightarrow> io \<Rightarrow> (bool \<times> io) option" where
  "read_loop fd s =
     (case k_read s of
        [] \<Rightarrow> None
      | Read_Bytes bs # rs \<Rightarrow>
          if bs \<noteq> []
          then read_loop fd (s\<lparr>k_read := rs, io_conns :=
            (case io_conns s fd of
               Some state \<Rightarrow> (io_conns s)(fd \<mapsto> state\<lparr>buf := buf state @ bs\<rparr>)
             | None \<Rightarrow> io_conns s)\<rparr>)
          else Some (True, s\<lparr>k_read := rs\<rparr>)
      | Read_Failed err # rs \<Rightarrow>
          Some (\<not> (err = EAGAIN \<or> err = EWOULDBLOCK), s\<lparr>k_read := rs\<rparr>))"
  by pat_completeness auto

termination by (relation "measure (\<lambda>(fd, s). length (k_read s))") auto

declare read_loop.simps [simp del]

text \<open>The loop over the buffered requests returns whether the connection is to be closed.\<close>

function serve_loop :: "nat \<Rightarrow> fd \<Rightarrow> io \<Rightarrow> (bool \<times> io) option" where
  "serve_loop worker_id fd s =
     (case io_conns s fd of
        None \<Rightarrow> Some (False, s)
      | Some state \<Rightarrow>
          if length (buf state) < REQUEST_HEADER_LEN then Some (False, s)
          else
            let header = take REQUEST_HEADER_LEN (buf state);
                s = s\<lparr>io_conns := (io_conns s)(fd \<mapsto> state\<lparr>buf := drop REQUEST_HEADER_LEN (buf state)\<rparr>)\<rparr>
            in case decode_request header of
                 None \<Rightarrow> Some (True, s)
               | Some (seq, service_us, send_ns) \<Rightarrow>
                   let s = s\<lparr>io_log := io_log s @ [Sleep (from_micros (ucast service_us))]\<rparr>;
                       resp = encode_response seq (of_nat worker_id) send_ns (replicate RESPONSE_LEN 0)
                   in case write_all fd resp s of
                        None \<Rightarrow> None
                      | Some (err, s) \<Rightarrow> if err = None then serve_loop worker_id fd s else Some (True, s))"
  by pat_completeness auto

termination
  by (relation "measure (\<lambda>(worker_id, fd, s). case io_conns s fd of None \<Rightarrow> 0 | Some state \<Rightarrow> length (buf state))")
    (auto simp: REQUEST_HEADER_LEN_def dest!: write_all_frame)

declare serve_loop.simps [simp del]

definition close_conn :: "fd \<Rightarrow> io \<Rightarrow> io" where
  "close_conn fd s =
     s\<lparr>io_log := io_log s @ [Epoll_Del fd, Close fd],
       io_conns := (io_conns s)(fd := None),
       io_slot := sub_conns 1 (io_slot s)\<rparr>"

definition handle_conn_event :: "nat \<Rightarrow> fd \<Rightarrow> u32 \<Rightarrow> io \<Rightarrow> io option" where
  "handle_conn_event worker_id fd ev_mask s = do {
     let close = ev_mask AND (EPOLLHUP OR EPOLLERR) \<noteq> 0;
     (close, s) \<leftarrow> (if \<not> close then read_loop fd s else Some (close, s));
     (close, s) \<leftarrow> (if \<not> close then serve_loop worker_id fd s else Some (close, s));
     Some (if close then close_conn fd s else s)
   }"

section \<open>Accepting\<close>

text \<open>\<open>epoll_add_conn\<close> fails when \<open>epoll_ctl\<close> does; its result is consumed from the script.\<close>

function accept_all :: "io \<Rightarrow> io option" where
  "accept_all s =
     (case k_accept s of
        [] \<Rightarrow> None
      | (fd, err) # as \<Rightarrow>
          let s = s\<lparr>k_accept := as\<rparr>
          in if fd < 0 then Some s
             else
               let s = s\<lparr>io_slot := add_conns 1 (io_slot s)\<rparr>
               in case k_ctl_add s of
                    [] \<Rightarrow> None
                  | (ret, err') # cs \<Rightarrow>
                      let s = s\<lparr>k_ctl_add := cs\<rparr>
                      in if ret \<noteq> 0
                         then accept_all (s\<lparr>io_log := io_log s @ [Close fd], io_slot := sub_conns 1 (io_slot s)\<rparr>)
                         else accept_all (s\<lparr>io_conns := (io_conns s)(fd \<mapsto> \<lparr>buf = []\<rparr>)\<rparr>))"
  by pat_completeness auto

termination by (relation "measure (\<lambda>s. length (k_accept s))") auto

declare accept_all.simps [simp del]

text \<open>Any error ends the loop, \<open>EAGAIN\<close> or not; what the queue still holds stays there.\<close>

lemma accept_all_stops_at_any_error:
  "k_accept s = (fd, err) # as \<Longrightarrow> fd < 0 \<Longrightarrow> accept_all s = Some (s\<lparr>k_accept := as\<rparr>)"
  by (simp add: accept_all.simps [of s] Let_def)

section \<open>Writing: all or an error, in bounded time\<close>

text \<open>The results of \<open>write\<close> the kernel may give: it never claims to have written too much.\<close>

fun write_results_ok :: "nat \<Rightarrow> (int \<times> errno) list \<Rightarrow> bool" where
  "write_results_ok left [] = True"
| "write_results_ok left ((ret, err) # ws) =
     (ret \<le> int left \<and> write_results_ok (left - nat ret) ws)"

lemma write_loop_result:
  assumes "write_loop bs off spins ws = Some (err, off', ws')" and "write_results_ok (length bs - off) ws"
    and "off \<le> length bs"
  shows "off \<le> off' \<and> off' \<le> length bs \<and> (err = None \<longleftrightarrow> off' = length bs)"
  using assms
proof (induction bs off spins ws rule: write_loop.induct)
  case (1 bs off spins ws)
  show ?case
  proof (cases "off < length bs \<and> ws \<noteq> []")
    case False
    then show ?thesis using "1.prems" by (auto simp: write_loop.simps [of bs off] split: if_splits list.splits)
  next
    case True
    then obtain ret e rest where ws: "ws = (ret, e) # rest" by (cases ws) auto
    consider "0 < ret" | "\<not> 0 < ret" "e = EAGAIN \<and> spins < 1000" | "\<not> 0 < ret" "\<not> (e = EAGAIN \<and> spins < 1000)"
      by blast
    then show ?thesis
    proof cases
      case 1
      then show ?thesis
        using "1.IH"(1) [OF _ ws refl] "1.prems" True ws
        by (simp add: write_loop.simps [of bs off spins] diff_diff_left) linarith
    next
      case 2
      then show ?thesis
        using "1.IH"(2) [OF _ ws refl] "1.prems" True ws
        by (simp add: write_loop.simps [of bs off spins])
    next
      case 3
      then show ?thesis
        using "1.prems" True ws by (auto simp: write_loop.simps [of bs off spins])
    qed
  qed
qed

lemma write_loop_returns:
  assumes "length bs - off + (1000 - spins) < length ws" and "spins \<le> 1000"
  shows "write_loop bs off spins ws \<noteq> None"
  using assms
proof (induction bs off spins ws rule: write_loop.induct)
  case (1 bs off spins ws)
  show ?case
  proof (cases ws)
    case (Cons w rest)
    obtain ret e where w: "w = (ret, e)" by fastforce
    show ?thesis
      using "1.IH" [OF _ Cons w [symmetric]] "1.prems" Cons w
      by (auto simp: write_loop.simps [of bs off spins])
  qed (use "1.prems" in simp)
qed

section \<open>The request stream\<close>

text \<open>What a byte stream asks for: its requests, whether it turns bad, and the incomplete rest.\<close>

function parse_stream :: "u8 list \<Rightarrow> (u32 \<times> u32 \<times> i64) list \<times> bool \<times> u8 list" where
  "parse_stream bs =
     (if length bs < REQUEST_HEADER_LEN then ([], False, bs)
      else case decode_request (take REQUEST_HEADER_LEN bs) of
        None \<Rightarrow> ([], True, drop REQUEST_HEADER_LEN bs)
      | Some r \<Rightarrow> (let (rs, bad, tail) = parse_stream (drop REQUEST_HEADER_LEN bs) in (r # rs, bad, tail)))"
  by pat_completeness auto

termination by (relation "measure length") (auto simp: REQUEST_HEADER_LEN_def)

declare parse_stream.simps [simp del]

fun served :: "nat \<Rightarrow> fd \<Rightarrow> u32 \<times> u32 \<times> i64 \<Rightarrow> effect list" where
  "served worker_id fd (seq, service_us, send_ns) =
     [Sleep (from_micros (ucast service_us)),
      Written fd (encode_response seq (of_nat worker_id) send_ns (replicate RESPONSE_LEN 0))]"

lemma REQUEST_HEADER_LEN_pos [simp]: "0 < REQUEST_HEADER_LEN"
  by (simp add: REQUEST_HEADER_LEN_def)

lemma parse_stream_append:
  assumes "parse_stream xs = (rs, False, tail)"
  shows "parse_stream (xs @ ys) =
    (let (rs', bad, tail') = parse_stream (tail @ ys) in (rs @ rs', bad, tail'))"
  using assms
proof (induction xs arbitrary: rs rule: parse_stream.induct)
  case (1 xs)
  show ?case
  proof (cases "length xs < REQUEST_HEADER_LEN")
    case True
    then show ?thesis using "1.prems" by (simp add: parse_stream.simps [of xs])
  next
    case False
    then obtain r where r: "decode_request (take REQUEST_HEADER_LEN xs) = Some r"
      using "1.prems" by (auto simp: parse_stream.simps [of xs] split: option.splits)
    obtain rs' where rs': "rs = r # rs'" "parse_stream (drop REQUEST_HEADER_LEN xs) = (rs', False, tail)"
      using "1.prems" False r by (auto simp: parse_stream.simps [of xs] split: prod.splits)
    show ?thesis
      using False r rs' "1.IH" [OF False r rs'(2)]
      by (simp add: parse_stream.simps [of "xs @ ys"] split: prod.splits)
  qed
qed

lemma parse_stream_frames:
  assumes "length tail < REQUEST_HEADER_LEN"
  shows "parse_stream (concat (map (\<lambda>(seq, service_us, send_ns).
      encode_request seq service_us send_ns (replicate REQUEST_HEADER_LEN 0)) rs) @ tail) = (rs, False, tail)"
proof (induction rs)
  case Nil
  then show ?case using assms by (simp add: parse_stream.simps [of tail])
next
  case (Cons r rs)
  obtain seq service_us send_ns where r: "r = (seq, service_us, send_ns)" by (cases r) auto
  let ?f = "encode_request seq service_us send_ns (replicate REQUEST_HEADER_LEN 0)"
  have "length ?f = REQUEST_HEADER_LEN" and "decode_request ?f = Some r"
    using request_codec.enc_length [of "replicate REQUEST_HEADER_LEN 0" r]
      request_codec.dec_enc [of "replicate REQUEST_HEADER_LEN 0" r] by (simp_all add: r)
  then show ?case
    using Cons by (subst parse_stream.simps) (simp add: r)
qed

section \<open>Reading and serving, step by step\<close>

lemma read_loop_frame:
  "read_loop fd s = Some (close, s') \<Longrightarrow> dom (io_conns s') = dom (io_conns s) \<and> io_slot s' = io_slot s \<and>
    k_accept s' = k_accept s \<and> k_ctl_add s' = k_ctl_add s"
proof (induction fd s rule: read_loop.induct)
  case (1 fd s)
  note unfolded = "1.prems" [unfolded read_loop.simps [of fd s]]
  show ?case
    using unfolded "1.IH"
    by (auto split: list.splits read_result.splits option.splits if_splits)
qed

text \<open>The three ways one round of the serving loop goes.\<close>

lemma serve_loop_idle:
  assumes "\<And>state. io_conns s fd = Some state \<Longrightarrow> length (buf state) < REQUEST_HEADER_LEN"
  shows "serve_loop worker_id fd s = Some (False, s)"
  using assms by (simp add: serve_loop.simps [of worker_id fd s] split: option.splits)

definition take_header :: "fd \<Rightarrow> conn_state \<Rightarrow> io \<Rightarrow> io" where
  "take_header fd state s =
     s\<lparr>io_conns := (io_conns s)(fd \<mapsto> state\<lparr>buf := drop REQUEST_HEADER_LEN (buf state)\<rparr>)\<rparr>"

lemma serve_loop_bad:
  assumes "io_conns s fd = Some state" and "\<not> length (buf state) < REQUEST_HEADER_LEN"
    and "decode_request (take REQUEST_HEADER_LEN (buf state)) = None"
  shows "serve_loop worker_id fd s = Some (True, take_header fd state s)"
  using assms by (simp add: serve_loop.simps [of worker_id fd s] take_header_def Let_def)

lemma serve_loop_good:
  assumes "io_conns s fd = Some state" and "\<not> length (buf state) < REQUEST_HEADER_LEN"
    and "decode_request (take REQUEST_HEADER_LEN (buf state)) = Some (seq, service_us, send_ns)"
  shows "serve_loop worker_id fd s =
    (case write_all fd (encode_response seq (of_nat worker_id) send_ns (replicate RESPONSE_LEN 0))
        ((take_header fd state s)\<lparr>io_log := io_log s @ [Sleep (from_micros (ucast service_us))]\<rparr>) of
       None \<Rightarrow> None
     | Some (err, s') \<Rightarrow> if err = None then serve_loop worker_id fd s' else Some (True, s'))"
  using assms by (simp add: serve_loop.simps [of worker_id fd s] take_header_def Let_def)

lemma take_header_frame [simp]:
  "io_slot (take_header fd state s) = io_slot s" "k_accept (take_header fd state s) = k_accept s"
  "k_ctl_add (take_header fd state s) = k_ctl_add s" "k_write (take_header fd state s) = k_write s"
  "io_log (take_header fd state s) = io_log s"
  "io_conns (take_header fd state s) =
    (io_conns s)(fd \<mapsto> state\<lparr>buf := drop REQUEST_HEADER_LEN (buf state)\<rparr>)"
  by (simp_all add: take_header_def)

lemma serve_loop_frame:
  "serve_loop worker_id fd s = Some (close, s') \<Longrightarrow> dom (io_conns s') = dom (io_conns s) \<and>
    io_slot s' = io_slot s \<and> k_accept s' = k_accept s \<and> k_ctl_add s' = k_ctl_add s"
proof (induction "case io_conns s fd of None \<Rightarrow> 0 | Some state \<Rightarrow> length (buf state)" arbitrary: s rule: less_induct)
  case less
  show ?case
  proof (cases "\<exists>state. io_conns s fd = Some state \<and> \<not> length (buf state) < REQUEST_HEADER_LEN")
    case False
    then show ?thesis using less.prems serve_loop_idle [of s fd worker_id] by auto
  next
    case True
    then obtain state where st: "io_conns s fd = Some state" "\<not> length (buf state) < REQUEST_HEADER_LEN"
      by blast
    have dom: "dom (io_conns (take_header fd state s)) = dom (io_conns s)" using st by auto
    show ?thesis
    proof (cases "decode_request (take REQUEST_HEADER_LEN (buf state))")
      case None
      then show ?thesis using less.prems dom serve_loop_bad [OF st] by auto
    next
      case (Some r)
      obtain seq service_us send_ns where r: "r = (seq, service_us, send_ns)" by (cases r) auto
      let ?s = "(take_header fd state s)\<lparr>io_log := io_log s @ [Sleep (from_micros (ucast service_us))]\<rparr>"
      from less.prems obtain err s1 where
        w: "write_all fd (encode_response seq (of_nat worker_id) send_ns (replicate RESPONSE_LEN 0)) ?s = Some (err, s1)"
        and k: "if err = None then serve_loop worker_id fd s1 = Some (close, s') else s1 = s'"
        using serve_loop_good [OF st Some [unfolded r]] by (auto split: option.splits if_splits)
      note f = write_all_frame [OF w]
      have "(case io_conns s1 fd of None \<Rightarrow> 0 | Some state \<Rightarrow> length (buf state)) < length (buf state)"
        using f st by (simp add: REQUEST_HEADER_LEN_def)
      then show ?thesis using k f dom st less.hyps [of s1] by (auto split: if_splits)
    qed
  qed
qed

text \<open>Reading chunk after chunk until a read ends the loop.\<close>

fun read_ends :: "read_result \<Rightarrow> bool option" where
  "read_ends (Read_Bytes bs) = (if bs = [] then Some True else None)"
| "read_ends (Read_Failed err) = Some (err \<noteq> EAGAIN)"

lemma read_loop_chunks:
  assumes "io_conns s fd = Some state" and "k_read s = map Read_Bytes chunks @ r # rest"
    and "[] \<notin> set chunks" and "read_ends r = Some close"
  shows "read_loop fd s = Some (close, s\<lparr>k_read := rest,
    io_conns := (io_conns s)(fd \<mapsto> state\<lparr>buf := buf state @ concat chunks\<rparr>)\<rparr>)"
  using assms(1-3)
proof (induction chunks arbitrary: s state)
  case Nil
  then show ?case
    using assms(4) EWOULDBLOCK_def EAGAIN_def
    by (cases r) (auto simp: read_loop.simps [of fd s] map_upd_triv split: if_splits)
next
  case (Cons c chunks)
  let ?s = "s\<lparr>k_read := map Read_Bytes chunks @ r # rest,
    io_conns := (io_conns s)(fd \<mapsto> state\<lparr>buf := buf state @ c\<rparr>)\<rparr>"
  have "c \<noteq> []" using Cons.prems(3) by auto
  then have "read_loop fd s = read_loop fd ?s"
    using Cons.prems by (simp add: read_loop.simps [of fd s])
  also have "\<dots> = Some (close, ?s\<lparr>k_read := rest, io_conns := (io_conns ?s)(fd \<mapsto>
      (state\<lparr>buf := buf state @ c\<rparr>)\<lparr>buf := buf (state\<lparr>buf := buf state @ c\<rparr>) @ concat chunks\<rparr>)\<rparr>)"
    using Cons.prems(3) by (intro Cons.IH) simp_all
  finally show ?case by (simp del: fun_upd_apply)
qed

lemma write_all_whole:
  assumes "k_write s = (int (length bs), err) # ws" and "bs \<noteq> []"
  shows "write_all fd bs s = Some (None, s\<lparr>k_write := ws, io_log := io_log s @ [Written fd bs]\<rparr>)"
  using assms by (simp add: write_all_def write_loop.simps [of bs 0] write_loop.simps [of bs "length bs"])

lemma encode_response_length [simp]:
  "length (encode_response seq worker_id send_ns (replicate RESPONSE_LEN 0)) = RESPONSE_LEN"
  using response_codec.enc_length [of "replicate RESPONSE_LEN 0" "(seq, worker_id, send_ns)"] by simp

lemma serve_loop_stream:
  assumes "io_conns s fd = Some state" and "parse_stream (buf state) = (rs, bad, tail)"
    and "k_write s = replicate (length rs) (int RESPONSE_LEN, 0) @ ws"
  shows "serve_loop worker_id fd s = Some (bad, s\<lparr>k_write := ws,
    io_log := io_log s @ concat (map (served worker_id fd) rs),
    io_conns := (io_conns s)(fd \<mapsto> state\<lparr>buf := tail\<rparr>)\<rparr>)"
  using assms
proof (induction rs arbitrary: s state)
  case Nil
  have ws: "ws = k_write s" using Nil.prems(3) by simp
  show ?case
  proof (cases "length (buf state) < REQUEST_HEADER_LEN")
    case True
    then have "tail = buf state" "\<not> bad" using Nil.prems(2) by (simp_all add: parse_stream.simps [of "buf state"])
    then show ?thesis
      using Nil.prems(1) True serve_loop_idle [of s fd worker_id]
      by (simp add: ws map_upd_triv del: fun_upd_apply)
  next
    case False
    then have "decode_request (take REQUEST_HEADER_LEN (buf state)) = None"
      "tail = drop REQUEST_HEADER_LEN (buf state)" "bad"
      using Nil.prems(2) by (auto simp: parse_stream.simps [of "buf state"] split: option.splits prod.splits)
    then show ?thesis
      using serve_loop_bad [OF Nil.prems(1) False] by (simp add: ws take_header_def del: fun_upd_apply)
  qed
next
  case (Cons r rs)
  obtain seq service_us send_ns where r: "r = (seq, service_us, send_ns)" by (cases r) auto
  have len: "\<not> length (buf state) < REQUEST_HEADER_LEN"
    using Cons.prems(2) by (auto simp: parse_stream.simps [of "buf state"])
  have dec: "decode_request (take REQUEST_HEADER_LEN (buf state)) = Some (seq, service_us, send_ns)"
    and rest: "parse_stream (drop REQUEST_HEADER_LEN (buf state)) = (rs, bad, tail)"
    using Cons.prems(2) len
    by (auto simp: parse_stream.simps [of "buf state"] r split: option.splits prod.splits)
  let ?resp = "encode_response seq (of_nat worker_id) send_ns (replicate RESPONSE_LEN 0)"
  let ?state = "state\<lparr>buf := drop REQUEST_HEADER_LEN (buf state)\<rparr>"
  let ?s = "(take_header fd state s)\<lparr>io_log := io_log s @ [Sleep (from_micros (ucast service_us))]\<rparr>"
  let ?w = "?s\<lparr>k_write := replicate (length rs) (int RESPONSE_LEN, 0) @ ws,
    io_log := io_log ?s @ [Written fd ?resp]\<rparr>"
  have "?resp \<noteq> []" using encode_response_length [of seq "of_nat worker_id" send_ns]
    by (metis length_0_conv RESPONSE_LEN_def zero_neq_numeral)
  then have "write_all fd ?resp ?s = Some (None, ?w)"
    using Cons.prems(3) by (intro write_all_whole) simp_all
  then have "serve_loop worker_id fd s = serve_loop worker_id fd ?w"
    using serve_loop_good [OF Cons.prems(1) len dec, of worker_id] by simp
  also have "\<dots> = Some (bad, ?w\<lparr>k_write := ws, io_log := io_log ?w @ concat (map (served worker_id fd) rs),
      io_conns := (io_conns ?w)(fd \<mapsto> ?state\<lparr>buf := tail\<rparr>)\<rparr>)"
    using rest by (intro Cons.IH) simp_all
  finally show ?case by (simp add: r take_header_def del: fun_upd_apply)
qed

section \<open>Connection accounting\<close>

definition conns_counted :: "io \<Rightarrow> bool" where
  "conns_counted s \<longleftrightarrow>
     finite (dom (io_conns s)) \<and> accumulated_conns (io_slot s) = of_nat (card (dom (io_conns s)))"

text \<open>
  \<open>accept4\<close> returns a descriptor that is not open: it differs from the connections held and from
  those accepted before it and kept.
\<close>

fun fresh_accepts :: "fd set \<Rightarrow> (int \<times> errno) list \<Rightarrow> (int \<times> errno) list \<Rightarrow> bool" where
  "fresh_accepts open_fds [] cs = True"
| "fresh_accepts open_fds ((fd, err) # as) cs =
     (fd < 0 \<or> fd \<notin> open_fds \<and>
       (case cs of
          [] \<Rightarrow> True
        | (ret, err') # cs' \<Rightarrow> fresh_accepts (if ret \<noteq> 0 then open_fds else insert fd open_fds) as cs'))"

lemma accept_all_counted:
  assumes "accept_all s = Some s'" and "conns_counted s"
    and "fresh_accepts (dom (io_conns s)) (k_accept s) (k_ctl_add s)"
  shows "conns_counted s' \<and> pending_events (io_slot s') = pending_events (io_slot s) \<and>
    last_loop_entry (io_slot s') = last_loop_entry (io_slot s)"
  using assms
proof (induction "k_accept s" arbitrary: s)
  case Nil
  then show ?case by (simp add: accept_all.simps [of s])
next
  case (Cons a as)
  obtain fd err where a: "a = (fd, err)" by fastforce
  note k = Cons.hyps(2) [symmetric, unfolded a]
  show ?case
  proof (cases "fd < 0")
    case True
    then have "s' = s\<lparr>k_accept := as\<rparr>"
      using Cons.prems(1) k by (simp add: accept_all.simps [of s] Let_def)
    then show ?thesis using Cons.prems(2) by (simp add: conns_counted_def)
  next
    case False
    then obtain ret err' cs where c: "k_ctl_add s = (ret, err') # cs"
      using Cons.prems(1) k by (auto simp: accept_all.simps [of s] Let_def split: list.splits)
    have new: "fd \<notin> dom (io_conns s)" using Cons.prems(3) k c False by auto
    show ?thesis
    proof (cases "ret = 0")
      case True
      let ?s = "s\<lparr>k_accept := as, io_slot := add_conns 1 (io_slot s), k_ctl_add := cs,
        io_conns := (io_conns s)(fd \<mapsto> \<lparr>buf = []\<rparr>)\<rparr>"
      have "accept_all ?s = Some s'"
        using Cons.prems(1) k c False True by (simp add: accept_all.simps [of s] Let_def)
      moreover have "conns_counted ?s"
        using Cons.prems(2) new by (simp add: conns_counted_def slot_op_defs)
      moreover have "fresh_accepts (dom (io_conns ?s)) (k_accept ?s) (k_ctl_add ?s)"
        using Cons.prems(3) k c False True by simp
      ultimately show ?thesis using Cons.hyps(1) [of ?s] by (simp add: slot_op_defs)
    next
      case False
      let ?s = "s\<lparr>k_accept := as, k_ctl_add := cs, io_log := io_log s @ [Close fd],
        io_slot := sub_conns 1 (add_conns 1 (io_slot s))\<rparr>"
      have "accept_all ?s = Some s'"
        using Cons.prems(1) k c False \<open>\<not> fd < 0\<close> by (simp add: accept_all.simps [of s] Let_def)
      moreover have "conns_counted ?s"
        using Cons.prems(2) by (simp add: conns_counted_def slot_op_defs)
      moreover have "fresh_accepts (dom (io_conns ?s)) (k_accept ?s) (k_ctl_add ?s)"
        using Cons.prems(3) k c False \<open>\<not> fd < 0\<close> by simp
      ultimately show ?thesis using Cons.hyps(1) [of ?s] by (simp add: slot_op_defs)
    qed
  qed
qed

lemma close_conn_counted:
  assumes "conns_counted s" and "fd \<in> dom (io_conns s)"
  shows "conns_counted (close_conn fd s)"
proof -
  have "card (dom (io_conns s)) = Suc (card (dom (io_conns s) - {fd}))"
    using assms unfolding conns_counted_def by (blast intro: card.remove)
  then show ?thesis using assms by (simp add: conns_counted_def close_conn_def slot_op_defs)
qed

text \<open>Handling an event keeps the connections, or closes the one it is for; the slot changes only then.\<close>

lemma handle_conn_event_closes:
  assumes "handle_conn_event worker_id fd m s = Some s'"
  obtains close s2 where "s' = (if close then close_conn fd s2 else s2)"
    and "dom (io_conns s2) = dom (io_conns s)" and "io_slot s2 = io_slot s"
    and "k_accept s2 = k_accept s" and "k_ctl_add s2 = k_ctl_add s"
proof -
  let ?c0 = "m AND (EPOLLHUP OR EPOLLERR) \<noteq> 0"
  obtain close s1 where r: "(if \<not> ?c0 then read_loop fd s else Some (?c0, s)) = Some (close, s1)"
    using assms(1) by (auto simp: handle_conn_event_def Let_def bind_eq_Some_conv)
  obtain close' s2 where v: "(if \<not> close then serve_loop worker_id fd s1 else Some (close, s1)) = Some (close', s2)"
    and s': "s' = (if close' then close_conn fd s2 else s2)"
    using assms(1) r by (auto simp: handle_conn_event_def Let_def bind_eq_Some_conv)
  have "dom (io_conns s1) = dom (io_conns s) \<and> io_slot s1 = io_slot s \<and>
      k_accept s1 = k_accept s \<and> k_ctl_add s1 = k_ctl_add s"
    using r read_loop_frame [of fd s close s1] by (simp split: if_splits)
  moreover have "dom (io_conns s2) = dom (io_conns s1) \<and> io_slot s2 = io_slot s1 \<and>
      k_accept s2 = k_accept s1 \<and> k_ctl_add s2 = k_ctl_add s1"
    using v serve_loop_frame [of worker_id fd s1 close' s2] by (simp split: if_splits)
  ultimately show ?thesis using that s' by metis
qed

lemma handle_conn_event_counted:
  assumes "handle_conn_event worker_id fd m s = Some s'" and "conns_counted s" and "fd \<in> dom (io_conns s)"
  shows "conns_counted s' \<and> pending_events (io_slot s') = pending_events (io_slot s) \<and>
    last_loop_entry (io_slot s') = last_loop_entry (io_slot s)"
proof -
  obtain close s2 where s': "s' = (if close then close_conn fd s2 else s2)"
    and d: "dom (io_conns s2) = dom (io_conns s)" "io_slot s2 = io_slot s"
    using handle_conn_event_closes [OF assms(1)] .
  then have "conns_counted s2" "fd \<in> dom (io_conns s2)" using assms(2,3) by (simp_all add: conns_counted_def)
  then show ?thesis
    using s' d close_conn_counted [of s2 fd] by (auto simp: close_conn_def slot_op_defs)
qed

lemma handle_conn_event_dom:
  assumes "handle_conn_event worker_id fd m s = Some s'"
  shows "dom (io_conns s') \<subseteq> dom (io_conns s)" and "dom (io_conns s) - {fd} \<subseteq> dom (io_conns s')"
proof -
  obtain close s2 where "s' = (if close then close_conn fd s2 else s2)"
    and "dom (io_conns s2) = dom (io_conns s)"
    using handle_conn_event_closes [OF assms(1)] .
  then show "dom (io_conns s') \<subseteq> dom (io_conns s)" and "dom (io_conns s) - {fd} \<subseteq> dom (io_conns s')"
    by (auto simp: close_conn_def)
qed

text \<open>A whole drain of a connection: everything read, everything complete served.\<close>

lemma conn_event_serves_stream:
  assumes "ev_mask AND (EPOLLHUP OR EPOLLERR) = 0" and "io_conns s fd = Some state"
    and "k_read s = map Read_Bytes chunks @ Read_Failed EAGAIN # reads" and "[] \<notin> set chunks"
    and "parse_stream (buf state @ concat chunks) = (rs, bad, tail)"
    and "k_write s = replicate (length rs) (int RESPONSE_LEN, 0) @ writes"
  shows "\<exists>s'. handle_conn_event worker_id fd ev_mask s = Some s' \<and>
    io_log s' = io_log s @ concat (map (served worker_id fd) rs) @ (if bad then [Epoll_Del fd, Close fd] else []) \<and>
    io_conns s' = (if bad then (io_conns s)(fd := None) else (io_conns s)(fd \<mapsto> state\<lparr>buf := tail\<rparr>)) \<and>
    io_slot s' = (if bad then sub_conns 1 (io_slot s) else io_slot s)"
proof -
  let ?s1 = "s\<lparr>k_read := reads, io_conns := (io_conns s)(fd \<mapsto> state\<lparr>buf := buf state @ concat chunks\<rparr>)\<rparr>"
  have "read_loop fd s = Some (False, ?s1)"
    using read_loop_chunks [OF assms(2,3,4), of False] by simp
  moreover have "serve_loop worker_id fd ?s1 = Some (bad, ?s1\<lparr>k_write := writes,
      io_log := io_log ?s1 @ concat (map (served worker_id fd) rs),
      io_conns := (io_conns ?s1)(fd \<mapsto> (state\<lparr>buf := buf state @ concat chunks\<rparr>)\<lparr>buf := tail\<rparr>)\<rparr>)"
    using assms(5,6) by (intro serve_loop_stream) simp_all
  ultimately show ?thesis
    using assms(1) by (simp add: handle_conn_event_def Let_def close_conn_def del: fun_upd_apply)
qed

section \<open>Properties\<close>

text \<open>
  C13: A worker answers exactly the requests its peer sent, however the kernel cuts the stream: after
  a drain of any chunks, the bytes of the connection (those kept from before and the new ones) are
  consumed request by request, each is served for its cost and answered once and in order, the
  incomplete rest is kept, and the connection is closed exactly when a header has a bad magic.
\<close>

theorem requests_answered_however_chunked:
  assumes "ev_mask AND (EPOLLHUP OR EPOLLERR) = 0" and "io_conns s fd = Some state"
    and "k_read s = map Read_Bytes chunks @ Read_Failed EAGAIN # reads" and "[] \<notin> set chunks"
    and "parse_stream (buf state @ concat chunks) = (rs, bad, tail)"
    and "k_write s = replicate (length rs) (int RESPONSE_LEN, 0) @ writes"
  shows "\<exists>s'. handle_conn_event worker_id fd ev_mask s = Some s' \<and>
    io_log s' = io_log s @ concat (map (served worker_id fd) rs) @ (if bad then [Epoll_Del fd, Close fd] else []) \<and>
    io_conns s' = (if bad then (io_conns s)(fd := None) else (io_conns s)(fd \<mapsto> state\<lparr>buf := tail\<rparr>)) \<and>
    io_slot s' = (if bad then sub_conns 1 (io_slot s) else io_slot s)"
  by (rule conn_event_serves_stream [OF assms])

definition sample_io :: "read_result list \<Rightarrow> io" where
  "sample_io rs =
     \<lparr>io_slot = \<lparr>last_loop_entry = 5, pending_events = 1, accumulated_conns = 1\<rparr>,
      io_conns = [7 \<mapsto> \<lparr>buf = []\<rparr>], io_log = [], k_accept = [], k_ctl_add = [],
      k_read = rs, k_write = [(16, 0)]\<rparr>"

definition sample_frame :: "u8 list" where
  "sample_frame = encode_request 1 2 3 (replicate REQUEST_HEADER_LEN 0)"

lemma sample_frame_parse: "parse_stream (sample_frame @ [9]) = ([(1, 2, 3)], False, [9])"
  using parse_stream_frames [of "[9]" "[(1, 2, 3)]"] by (simp add: sample_frame_def REQUEST_HEADER_LEN_def)

lemma sample_frame_length: "length sample_frame = REQUEST_HEADER_LEN"
  using request_codec.enc_length [of "replicate REQUEST_HEADER_LEN 0" "(1, 2, 3)"]
  by (simp add: sample_frame_def)

lemma sample_frame_ne: "sample_frame \<noteq> []"
  using sample_frame_length by (auto simp: REQUEST_HEADER_LEN_def simp del: length_0_conv)

text \<open>A request in two pieces, with the first byte of the next one behind it.\<close>

theorem requests_answered_however_chunked_witness:
  "\<exists>s'. handle_conn_event 2 7 1
      (sample_io [Read_Bytes (take 10 sample_frame), Read_Bytes (drop 10 sample_frame @ [9]), Read_Failed EAGAIN]) = Some s' \<and>
    io_log s' = [Sleep 2000, Written 7 (encode_response 1 2 3 (replicate RESPONSE_LEN 0))] \<and>
    io_conns s' = [7 \<mapsto> \<lparr>buf = [9]\<rparr>]"
proof -
  let ?cs = "[take 10 sample_frame, drop 10 sample_frame @ [9]]"
  let ?s = "sample_io (map Read_Bytes ?cs @ [Read_Failed EAGAIN])"
  have "take 10 sample_frame \<noteq> []" using sample_frame_ne by simp
  then have "[] \<notin> set ?cs" by auto
  moreover have "concat ?cs = sample_frame @ [9]"
    by (simp only: concat.simps append_assoc [symmetric] append_take_drop_id append_Nil2)
  then have "parse_stream (buf \<lparr>buf = []\<rparr> @ concat ?cs) = ([(1, 2, 3)], False, [9])"
    using sample_frame_parse by (simp only: conn_state.select_convs append_Nil)
  ultimately have "\<exists>s'. handle_conn_event 2 7 1 ?s = Some s' \<and>
      io_log s' = io_log ?s @ concat (map (served 2 7) [(1, 2, 3)]) @ (if False then [Epoll_Del 7, Close 7] else []) \<and>
      io_conns s' = (if False then (io_conns ?s)(7 := None) else (io_conns ?s)(7 \<mapsto> \<lparr>buf = []\<rparr>\<lparr>buf := [9]\<rparr>)) \<and>
      io_slot s' = (if False then sub_conns 1 (io_slot ?s) else io_slot ?s)"
    by (intro requests_answered_however_chunked [where reads = "[]" and writes = "[]" and state = "\<lparr>buf = []\<rparr>"
        and chunks = "[take 10 sample_frame, drop 10 sample_frame @ [9]]"])
      (simp_all add: sample_io_def EPOLLHUP_def EPOLLERR_def RESPONSE_LEN_def)
  then show ?thesis by (auto simp: sample_io_def from_micros_def)
qed

text \<open>
  Framing does not depend on where one wakeup ends and the next begins: serving a stream and then
  serving what was left with the bytes that follow gives the same requests, in the same order, as
  serving the whole stream; and the frames a client encodes, followed by an incomplete one, are
  read as exactly its requests.
\<close>

lemma framing_is_incremental:
  assumes "parse_stream xs = (rs, False, tail)" and "length rest < REQUEST_HEADER_LEN"
  shows "parse_stream (xs @ ys) = (let (rs', bad, tail') = parse_stream (tail @ ys) in (rs @ rs', bad, tail')) \<and>
    parse_stream (concat (map (\<lambda>(seq, service_us, send_ns).
      encode_request seq service_us send_ns (replicate REQUEST_HEADER_LEN 0)) qs) @ rest) = (qs, False, rest)"
  using parse_stream_append [OF assms(1)] parse_stream_frames [OF assms(2)] by blast

lemma framing_is_incremental_witness:
  "parse_stream ((sample_frame @ [9]) @ [8]) = ([(1, 2, 3)], False, [9, 8])"
  using framing_is_incremental [OF sample_frame_parse, of "[]" "[8]" "[]"]
  by (simp add: REQUEST_HEADER_LEN_def parse_stream.simps [of "[9, 8]"])

text \<open>
  C32: A peer that closes its sending side is cut off: when a drain reaches the end of the stream, the
  connection is closed at once, and the complete requests that arrived with it, or were read in
  the same drain, are neither served nor answered.
\<close>

theorem eof_discards_requests:
  assumes "ev_mask AND (EPOLLHUP OR EPOLLERR) = 0" and "io_conns s fd = Some state"
    and "k_read s = map Read_Bytes chunks @ Read_Bytes [] # reads" and "[] \<notin> set chunks"
  shows "\<exists>s'. handle_conn_event worker_id fd ev_mask s = Some s' \<and>
    io_log s' = io_log s @ [Epoll_Del fd, Close fd] \<and> io_conns s' = (io_conns s)(fd := None) \<and>
    io_slot s' = sub_conns 1 (io_slot s)"
  using read_loop_chunks [OF assms(2,3,4), of True] assms(1)
  by (simp add: handle_conn_event_def Let_def close_conn_def)

theorem eof_discards_requests_witness:
  "\<exists>s'. handle_conn_event 2 7 1 (sample_io [Read_Bytes sample_frame, Read_Bytes []]) = Some s' \<and>
    io_log s' = [Epoll_Del 7, Close 7]"
proof -
  let ?s = "sample_io [Read_Bytes sample_frame, Read_Bytes []]"
  have "[] \<notin> set [sample_frame]" using sample_frame_ne by auto
  then have "\<exists>s'. handle_conn_event 2 7 1 ?s = Some s' \<and> io_log s' = io_log ?s @ [Epoll_Del 7, Close 7] \<and>
      io_conns s' = (io_conns ?s)(7 := None) \<and> io_slot s' = sub_conns 1 (io_slot ?s)"
    by (intro eof_discards_requests [where chunks = "[sample_frame]" and reads = "[]" and state = "\<lparr>buf = []\<rparr>"])
      (simp_all add: sample_io_def EPOLLHUP_def EPOLLERR_def)
  then show ?thesis by (auto simp: sample_io_def)
qed

text \<open>
  C33: \<open>write_all\<close> succeeds exactly when every byte has been handed to the kernel, logs what was
  written otherwise, and returns within one call per byte plus a thousand retries.
\<close>

theorem write_all_complete_and_bounded:
  assumes "write_results_ok (length bs) (k_write s)" and "length bs + 1000 < length (k_write s)"
  shows "\<exists>err s' off. write_all fd bs s = Some (err, s') \<and> off \<le> length bs \<and>
    io_log s' = io_log s @ [Written fd (take off bs)] \<and> (err = None \<longleftrightarrow> off = length bs)"
proof -
  obtain err off ws where "write_loop bs 0 0 (k_write s) = Some (err, off, ws)"
    using write_loop_returns [of bs 0 0 "k_write s"] assms(2) by auto
  then show ?thesis
    using write_loop_result [of bs 0 0 "k_write s" err off ws] assms(1)
    by (intro exI [of _ err] exI [of _ "s\<lparr>k_write := ws, io_log := io_log s @ [Written fd (take off bs)]\<rparr>"]
        exI [of _ off]) (simp add: write_all_def)
qed

theorem write_all_complete_and_bounded_witness:
  "\<exists>err s' off. write_all 7 [1, 2, 3]
      ((sample_io [])\<lparr>k_write := [(2, 0), (- 1, 11), (1, 0)] @ replicate 1001 (- 1, 32)\<rparr>) = Some (err, s') \<and>
    off \<le> length [1, 2, 3 :: u8] \<and>
    io_log s' = io_log ((sample_io [])\<lparr>k_write := [(2, 0), (- 1, 11), (1, 0)] @ replicate 1001 (- 1, 32)\<rparr>) @
      [Written 7 (take off [1, 2, 3])] \<and> (err = None \<longleftrightarrow> off = length [1, 2, 3 :: u8])"
proof (rule write_all_complete_and_bounded)
  have "write_results_ok n (replicate k (- 1, 32))" for n k
    by (induction k) simp_all
  then show "write_results_ok (length [1, 2, 3 :: u8])
      (k_write ((sample_io [])\<lparr>k_write := [(2, 0), (- 1, 11), (1, 0)] @ replicate 1001 (- 1, 32)\<rparr>))"
    by simp
qed simp

end
