(* ===== verification/Worker_Loop.thy ===== *)
theory Worker_Loop
  imports Worker_Io Scheduler Loader
begin

text \<open>
  The event loop of \<open>hermes/src/worker.rs\<close>. One turn of the loop is a function of what the
  environment supplies during it: the clock readings, the result of \<open>epoll_wait\<close>, the results of
  the system calls made while handling the events, the effect of the other workers on the status
  table, and whether the map and the tick file could be written. The connection handling is that
  of \<open>Worker_Io\<close>, on the worker's own slot.
\<close>

section \<open>Types\<close>

definition MAX_EVENTS :: nat where
  "MAX_EVENTS = 64"

record hang_spec =
  hang_at :: duration
  hang_duration :: duration

record tick_row =
  tk_timestamp_ns :: i64
  tk_worker_id :: nat
  tk_iter :: u32
  tk_snapshots :: "worker_snapshot list"
  tk_open_conns :: nat
  tk_result :: "schedule_result option"
  tk_policy :: policy

record loop_state =
  lp_wst :: wst
  lp_msel :: u64
  lp_io :: io
  lp_hang :: "hang_spec option"
  lp_iter :: u32
  lp_ticks :: "tick_row list"

record turn =
  t_shutdown :: bool
  t_entry_ns :: i64
  t_elapsed :: duration
  t_wait :: "int \<times> errno"
  t_events :: "(u64 \<times> u32) list"
  t_accept :: "(int \<times> errno) list"
  t_ctl_add :: "(int \<times> errno) list"
  t_read :: "read_result list"
  t_write :: "(int \<times> errno) list"
  t_others :: "wst \<Rightarrow> wst"
  t_schedule_ns :: i64
  t_set_failed :: bool
  t_others_tick :: "wst \<Rightarrow> wst"
  t_tick_ns :: i64
  t_tick_error :: "errno option"

section \<open>One turn\<close>

text \<open>An interrupted wait reports no events; every other failure ends the worker.\<close>

definition epoll_wait :: "int \<times> errno \<Rightarrow> errno + nat" where
  "epoll_wait r =
     (let (ret, err) = r
      in if ret < 0 then (if err = EINTR then Inr 0 else Inl err) else Inr (nat ret))"

text \<open>The tag of an event is the descriptor, stored as \<open>u64\<close> and read back as a 32-bit integer.\<close>

definition event_fd :: "u64 \<Rightarrow> fd" where
  "event_fd u = sint (ucast u :: 32 word)"

definition event_tag :: "fd \<Rightarrow> u64" where
  "event_tag fd = word_of_int fd"

definition handle_event :: "nat \<Rightarrow> fd \<Rightarrow> u64 \<times> u32 \<Rightarrow> io \<Rightarrow> io option" where
  "handle_event worker_id listen_fd ev s =
     (let fd = event_fd (fst ev); ev_mask = snd ev
      in case (if fd = listen_fd then accept_all s else handle_conn_event worker_id fd ev_mask s) of
           None \<Rightarrow> None
         | Some s \<Rightarrow> Some (s\<lparr>io_slot := sub_pending 1 (io_slot s)\<rparr>))"

text \<open>The worker's slot and the kernel's results, handed to the event handlers.\<close>

definition enter_io :: "nat \<Rightarrow> turn \<Rightarrow> wst \<Rightarrow> io \<Rightarrow> io" where
  "enter_io worker_id t w s =
     s\<lparr>io_slot := slots w ! worker_id, k_accept := t_accept t, k_ctl_add := t_ctl_add t,
       k_read := t_read t, k_write := t_write t\<rparr>"

datatype 'a outcome = Stop 'a | Next 'a | Fatal errno

definition end_of_turn :: "nat \<Rightarrow> policy \<Rightarrow> turn \<Rightarrow> loop_state \<Rightarrow> loop_state outcome" where
  "end_of_turn worker_id p t lp =
     (let result = (if runs_scheduler p then Some (schedule (lp_wst lp) (t_schedule_ns t) HANG_THRESHOLD_NS) else None);
          lp = (case result of
                  Some r \<Rightarrow> if t_set_failed t then lp else lp\<lparr>lp_msel := bitmap r\<rparr>
                | None \<Rightarrow> lp);
          lp = lp\<lparr>lp_wst := t_others_tick t (lp_wst lp)\<rparr>;
          tick = \<lparr>tk_timestamp_ns = t_tick_ns t, tk_worker_id = worker_id, tk_iter = lp_iter lp,
                  tk_snapshots = snapshot_all (lp_wst lp),
                  tk_open_conns = card (dom (io_conns (lp_io lp))), tk_result = result, tk_policy = p\<rparr>
      in case t_tick_error t of
           Some err \<Rightarrow> Fatal err
         | None \<Rightarrow> Next (lp\<lparr>lp_ticks := lp_ticks lp @ [tick], lp_iter := lp_iter lp + 1\<rparr>))"

definition stamp :: "nat \<Rightarrow> turn \<Rightarrow> loop_state \<Rightarrow> loop_state" where
  "stamp worker_id t lp = lp\<lparr>lp_wst := upd_slot worker_id (store_loop_entry (t_entry_ns t)) (lp_wst lp)\<rparr>"

definition count_ready :: "nat \<Rightarrow> nat \<Rightarrow> wst \<Rightarrow> wst" where
  "count_ready worker_id n w = (if 0 < n then upd_slot worker_id (add_pending (of_nat n)) w else w)"

definition one_turn :: "nat \<Rightarrow> fd \<Rightarrow> policy \<Rightarrow> turn \<Rightarrow> loop_state \<Rightarrow> loop_state outcome option" where
  "one_turn worker_id listen_fd p t lp =
     (if t_shutdown t then Some (Stop lp)
      else
        let lp = stamp worker_id t lp
        in if (case lp_hang lp of Some h \<Rightarrow> hang_at h \<le> t_elapsed t | None \<Rightarrow> False)
           then Some (Next (lp\<lparr>lp_hang := None\<rparr>))
           else case epoll_wait (t_wait t) of
             Inl err \<Rightarrow> Some (Fatal err)
           | Inr n \<Rightarrow>
               let w = count_ready worker_id n (lp_wst lp)
               in case run_steps (handle_event worker_id listen_fd) (take n (t_events t))
                    (enter_io worker_id t w (lp_io lp)) of
                    None \<Rightarrow> None
                  | Some s \<Rightarrow>
                      Some (end_of_turn worker_id p t
                        (lp\<lparr>lp_wst := upd_slot worker_id (\<lambda>_. io_slot s) (t_others t w), lp_io := s\<rparr>)))"

section \<open>The loop\<close>

text \<open>
  The loop over the turns until shutdown; at the end every descriptor still held is closed_fds, in
  whatever order the hash map yields them.
\<close>

fun worker_loop :: "nat \<Rightarrow> fd \<Rightarrow> policy \<Rightarrow> turn list \<Rightarrow> loop_state \<Rightarrow> (errno + loop_state \<times> fd set) option" where
  "worker_loop worker_id listen_fd p [] lp = None"
| "worker_loop worker_id listen_fd p (t # ts) lp =
     (case one_turn worker_id listen_fd p t lp of
        None \<Rightarrow> None
      | Some (Stop lp) \<Rightarrow>
          (case t_tick_error t of
             Some err \<Rightarrow> Some (Inl err)
           | None \<Rightarrow> Some (Inr (lp, dom (io_conns (lp_io lp)))))
      | Some (Fatal err) \<Rightarrow> Some (Inl err)
      | Some (Next lp) \<Rightarrow> worker_loop worker_id listen_fd p ts lp)"

section \<open>Starting up\<close>

definition EPOLLIN :: u32 where "EPOLLIN = 0x001"
definition EPOLLET :: u32 where "EPOLLET = 0x80000000"
definition EPOLLEXCLUSIVE :: u32 where "EPOLLEXCLUSIVE = 0x10000000"

datatype start_error = Epoll_Create_Failed errno | Add_Listener_Failed errno | Map_Failed | Tick_File_Failed errno

definition epoll_create :: "int \<times> errno \<Rightarrow> start_error + fd" where
  "epoll_create r = (let (fd, err) = r in if fd < 0 then Inl (Epoll_Create_Failed err) else Inr fd)"

text \<open>The interest registered for the listener: the events and the tag.\<close>

definition add_listener :: "fd \<Rightarrow> policy \<Rightarrow> int \<times> errno \<Rightarrow> start_error + u32 \<times> u64" where
  "add_listener listen_fd p r =
     (let events = EPOLLIN OR EPOLLET;
          events = (if p = Lifo then events OR EPOLLEXCLUSIVE else events);
          (ret, err) = r
      in if ret \<noteq> 0 then Inl (Add_Listener_Failed err) else Inr (events, event_tag listen_fd))"

text \<open>
  The calls before the loop, in their order; reopening the pinned map, which only a Hermes worker
  does, may fail, and so may creating the tick file.
\<close>

definition worker_start ::
  "fd \<Rightarrow> policy \<Rightarrow> int \<times> errno \<Rightarrow> int \<times> errno \<Rightarrow> bool \<Rightarrow> errno option \<Rightarrow> start_error + fd \<times> u32 \<times> u64" where
  "worker_start listen_fd p create_ret add_ret map_failed tick_error =
     (case epoll_create create_ret of
        Inl e \<Rightarrow> Inl e
      | Inr epfd \<Rightarrow>
          (case add_listener listen_fd p add_ret of
             Inl e \<Rightarrow> Inl e
           | Inr interest \<Rightarrow>
               if runs_scheduler p \<and> map_failed then Inl Map_Failed
               else case tick_error of
                 Some err \<Rightarrow> Inl (Tick_File_Failed err)
               | None \<Rightarrow> Inr (epfd, interest)))"

text \<open>The tag of a registered descriptor is read back as that descriptor.\<close>

lemma event_fd_tag:
  assumes "0 \<le> fd" and "fd < 2 ^ 31"
  shows "event_fd (event_tag fd) = fd"
proof -
  have "(ucast (word_of_int fd :: u64) :: 32 word) = word_of_int fd"
    by (rule bit_word_eqI) (simp add: bit_simps)
  then show ?thesis
    using assms by (simp add: event_fd_def event_tag_def sint_sbintrunc' signed_take_bit_int_eq_self)
qed

section \<open>What the environment promises\<close>

text \<open>
  The kernel reports events only for the listener and for descriptors the worker holds, and
  \<open>accept4\<close> returns descriptors that are not open.
\<close>

definition event_ok :: "fd \<Rightarrow> u64 \<times> u32 \<Rightarrow> io \<Rightarrow> bool" where
  "event_ok listen_fd ev s =
     (if event_fd (fst ev) = listen_fd then fresh_accepts (dom (io_conns s)) (k_accept s) (k_ctl_add s)
      else event_fd (fst ev) \<in> dom (io_conns s))"

text \<open>The other workers write their own slots only.\<close>

definition leaves_slot :: "nat \<Rightarrow> (wst \<Rightarrow> wst) \<Rightarrow> bool" where
  "leaves_slot worker_id f \<longleftrightarrow> (\<forall>w. wst_ok w \<longrightarrow> wst_ok (f w) \<and> slots (f w) ! worker_id = slots w ! worker_id)"

definition turn_ok :: "nat \<Rightarrow> fd \<Rightarrow> turn \<Rightarrow> loop_state \<Rightarrow> bool" where
  "turn_ok worker_id listen_fd t lp \<longleftrightarrow> t_shutdown t \<or>
     leaves_slot worker_id (t_others t) \<and> leaves_slot worker_id (t_others_tick t) \<and>
     (case epoll_wait (t_wait t) of
        Inl err \<Rightarrow> True
      | Inr n \<Rightarrow> n \<le> length (t_events t) \<and>
          steps_ok (event_ok listen_fd) (handle_event worker_id listen_fd) (take n (t_events t))
            (enter_io worker_id t (count_ready worker_id n (lp_wst (stamp worker_id t lp))) (lp_io lp)))"

section \<open>The slot counts the connections\<close>

lemma handle_event_counted:
  assumes "conns_counted s" and "event_ok listen_fd ev s"
    and "handle_event worker_id listen_fd ev s = Some s'"
  shows "conns_counted s' \<and> pending_events (io_slot s') = pending_events (io_slot s) - 1"
proof -
  obtain s1 where s1: "(if event_fd (fst ev) = listen_fd then accept_all s
      else handle_conn_event worker_id (event_fd (fst ev)) (snd ev) s) = Some s1"
    and s': "s' = s1\<lparr>io_slot := sub_pending 1 (io_slot s1)\<rparr>"
    using assms(3) by (auto simp: handle_event_def Let_def split: option.splits)
  have "conns_counted s1 \<and> pending_events (io_slot s1) = pending_events (io_slot s)"
    using s1 assms(1,2) accept_all_counted [of s s1] handle_conn_event_counted [of worker_id _ "snd ev" s s1]
    by (auto simp: event_ok_def split: if_splits)
  then show ?thesis by (simp add: s' conns_counted_def slot_op_defs)
qed

interpretation event_loop: guarded_steps "handle_event worker_id listen_fd" "event_ok listen_fd" conns_counted
  for worker_id listen_fd
  by unfold_locales (blast dest: handle_event_counted)

lemma events_pending:
  assumes "conns_counted s" and "steps_ok (event_ok listen_fd) (handle_event worker_id listen_fd) evs s"
    and "run_steps (handle_event worker_id listen_fd) evs s = Some s'"
  shows "pending_events (io_slot s') = pending_events (io_slot s) - of_nat (length evs)"
  using assms
proof (induction evs arbitrary: s)
  case (Cons ev evs)
  then obtain s1 where s1: "handle_event worker_id listen_fd ev s = Some s1"
    by (auto split: option.splits)
  have "conns_counted s1 \<and> pending_events (io_slot s1) = pending_events (io_slot s) - 1"
    using Cons.prems(1,2) s1 by (intro handle_event_counted) simp_all
  then show ?case using Cons.IH [of s1] Cons.prems(2,3) s1 by (simp add: diff_diff_eq)
qed simp

text \<open>What holds between two turns.\<close>

definition loop_ok :: "nat \<Rightarrow> loop_state \<Rightarrow> bool" where
  "loop_ok worker_id lp \<longleftrightarrow>
     wst_ok (lp_wst lp) \<and> pending_events (slots (lp_wst lp) ! worker_id) = 0 \<and>
     finite (dom (io_conns (lp_io lp))) \<and>
     accumulated_conns (slots (lp_wst lp) ! worker_id) = of_nat (card (dom (io_conns (lp_io lp))))"

definition tick_consistent :: "tick_row \<Rightarrow> bool" where
  "tick_consistent tick \<longleftrightarrow>
     (let snap = tk_snapshots tick ! tk_worker_id tick
      in snap_accumulated_conns snap = of_nat (tk_open_conns tick) \<and> snap_pending_events snap = 0) \<and>
     (tk_result tick = None \<longleftrightarrow> \<not> runs_scheduler (tk_policy tick))"

lemma slot_upd_same:
  "wst_ok w \<Longrightarrow> i < NUM_WORKERS \<Longrightarrow> slots (upd_slot i f w) ! i = f (slots w ! i)"
  by (simp add: upd_slot_def wst_ok_def)

lemma count_ready_slot:
  assumes "wst_ok w" and "i < NUM_WORKERS"
  shows "slots (count_ready i n w) ! i = add_pending (of_nat n) (slots w ! i)" and "wst_ok (count_ready i n w)"
  using assms by (simp_all add: count_ready_def slot_upd_same slot_op_defs)

lemma stamp_ok:
  assumes "loop_ok worker_id lp" and "worker_id < NUM_WORKERS"
  shows "loop_ok worker_id (stamp worker_id t lp)"
  using assms by (simp add: loop_ok_def stamp_def slot_upd_same slot_op_defs)

text \<open>The end of a turn reads the tables and publishes; it changes nothing of the worker's own.\<close>

lemma end_of_turn_ok:
  assumes "loop_ok worker_id lp" and "worker_id < NUM_WORKERS" and "leaves_slot worker_id (t_others_tick t)"
    and "end_of_turn worker_id p t lp = Next lp'"
  shows "loop_ok worker_id lp' \<and>
    (\<exists>tick. lp_ticks lp' = lp_ticks lp @ [tick] \<and> tick_consistent tick \<and> tk_worker_id tick = worker_id)"
proof -
  have w: "wst_ok (lp_wst lp)" using assms(1) by (simp add: loop_ok_def)
  then have o: "wst_ok (t_others_tick t (lp_wst lp))"
    "slots (t_others_tick t (lp_wst lp)) ! worker_id = slots (lp_wst lp) ! worker_id"
    using assms(3) by (simp_all add: leaves_slot_def)
  have s: "snapshot_all w' ! worker_id = slot_snapshot (slots w' ! worker_id)" for w'
    using assms(2) by (rule nth_snapshot_all)
  show ?thesis
    using assms(1,4) o
    by (auto simp: end_of_turn_def Let_def loop_ok_def tick_consistent_def s slot_snapshot_def
        split: option.splits if_splits)
qed

lemma one_turn_ok:
  assumes lp: "loop_ok worker_id lp" and id: "worker_id < NUM_WORKERS" and t: "turn_ok worker_id listen_fd t lp"
    and n: "one_turn worker_id listen_fd p t lp = Some (Next lp')"
  shows "loop_ok worker_id lp' \<and>
    (lp_ticks lp' = lp_ticks lp \<or>
      (\<exists>tick. lp_ticks lp' = lp_ticks lp @ [tick] \<and> tick_consistent tick \<and> tk_worker_id tick = worker_id))"
proof -
  let ?lp = "stamp worker_id t lp"
  note st = stamp_ok [OF lp id, of t]
  have not_stopped: "\<not> t_shutdown t" using n by (auto simp: one_turn_def)
  have frame: "lp_ticks ?lp = lp_ticks lp" "lp_io ?lp = lp_io lp" by (simp_all add: stamp_def)
  show ?thesis
  proof (cases "case lp_hang ?lp of Some h \<Rightarrow> hang_at h \<le> t_elapsed t | None \<Rightarrow> False")
    case True
    then have "lp' = ?lp\<lparr>lp_hang := None\<rparr>"
      using n by (auto simp: one_turn_def Let_def split: if_splits)
    then show ?thesis using st frame by (simp add: loop_ok_def)
  next
    case False
    then obtain k s where k: "epoll_wait (t_wait t) = Inr k"
      and s: "run_steps (handle_event worker_id listen_fd) (take k (t_events t))
        (enter_io worker_id t (count_ready worker_id k (lp_wst ?lp)) (lp_io lp)) = Some s"
      and e: "end_of_turn worker_id p t (?lp\<lparr>lp_wst := upd_slot worker_id (\<lambda>_. io_slot s)
        (t_others t (count_ready worker_id k (lp_wst ?lp))), lp_io := s\<rparr>) = Next lp'"
      using n frame by (auto simp: one_turn_def Let_def split: if_splits sum.splits option.splits)
    let ?w = "count_ready worker_id k (lp_wst ?lp)" and ?s0 = "enter_io worker_id t (count_ready worker_id k (lp_wst ?lp)) (lp_io lp)"
    have w: "wst_ok (lp_wst ?lp)" using st by (simp add: loop_ok_def)
    note slot = count_ready_slot [OF w id, of k]
    have c0: "conns_counted ?s0" and p0: "pending_events (io_slot ?s0) = of_nat k"
      using st slot frame by (simp_all add: conns_counted_def enter_io_def loop_ok_def slot_op_defs)
    have len: "length (take k (t_events t)) = k"
      and ok: "steps_ok (event_ok listen_fd) (handle_event worker_id listen_fd) (take k (t_events t)) ?s0"
      and others: "leaves_slot worker_id (t_others t)" "leaves_slot worker_id (t_others_tick t)"
      using t k not_stopped by (simp_all add: turn_ok_def)
    have c: "conns_counted s" by (rule event_loop.run_steps_inv [OF c0 ok s])
    have p: "pending_events (io_slot s) = 0" using events_pending [OF c0 ok s] p0 len by simp
    have "wst_ok (t_others t ?w)" using others(1) slot(2) by (simp add: leaves_slot_def)
    then have "loop_ok worker_id (?lp\<lparr>lp_wst := upd_slot worker_id (\<lambda>_. io_slot s) (t_others t ?w), lp_io := s\<rparr>)"
      using c p id by (simp add: loop_ok_def conns_counted_def slot_upd_same)
    from end_of_turn_ok [OF this id others(2) e] show ?thesis by (simp add: frame)
  qed
qed

section \<open>Whole runs\<close>

fun run_ok :: "nat \<Rightarrow> fd \<Rightarrow> policy \<Rightarrow> turn list \<Rightarrow> loop_state \<Rightarrow> bool" where
  "run_ok worker_id listen_fd p [] lp = True"
| "run_ok worker_id listen_fd p (t # ts) lp =
     (turn_ok worker_id listen_fd t lp \<and>
      (case one_turn worker_id listen_fd p t lp of
         Some (Next lp') \<Rightarrow> run_ok worker_id listen_fd p ts lp'
       | _ \<Rightarrow> True))"

lemma one_turn_Stop: "one_turn worker_id listen_fd p t lp = Some (Stop lp') \<Longrightarrow> lp' = lp"
  by (auto simp: one_turn_def end_of_turn_def Let_def split: if_splits sum.splits option.splits)

lemma worker_loop_ok:
  assumes "loop_ok worker_id lp" and "worker_id < NUM_WORKERS" and "run_ok worker_id listen_fd p ts lp"
    and "\<forall>tick\<in>set (lp_ticks lp). tick_consistent tick \<and> tk_worker_id tick = worker_id"
    and "worker_loop worker_id listen_fd p ts lp = Some (Inr (lp', closed_fds))"
  shows "loop_ok worker_id lp' \<and> closed_fds = dom (io_conns (lp_io lp')) \<and>
    (\<forall>tick\<in>set (lp_ticks lp'). tick_consistent tick \<and> tk_worker_id tick = worker_id)"
  using assms(1,3-5)
proof (induction ts arbitrary: lp)
  case (Cons t ts)
  show ?case
  proof (cases "one_turn worker_id listen_fd p t lp")
    case (Some r)
    show ?thesis
    proof (cases r)
      case (Stop lp1)
      then show ?thesis using Cons.prems Some one_turn_Stop [of worker_id listen_fd p t lp lp1]
        by (auto split: option.splits)
    next
      case (Next lp1)
      with Some have n: "one_turn worker_id listen_fd p t lp = Some (Next lp1)" by simp
      with Cons.prems have t: "turn_ok worker_id listen_fd t lp" and r: "run_ok worker_id listen_fd p ts lp1"
        and w: "worker_loop worker_id listen_fd p ts lp1 = Some (Inr (lp', closed_fds))" by simp_all
      from one_turn_ok [OF Cons.prems(1) assms(2) t n] Cons.prems(3)
      show ?thesis by (intro Cons.IH [OF _ r _ w]) auto
    qed (use Cons.prems Some in simp)
  qed (use Cons.prems in simp)
qed simp

text \<open>What a turn does to \<open>M_Sel\<close>.\<close>

lemma one_turn_msel:
  assumes "one_turn worker_id listen_fd p t lp = Some (Next lp')"
  shows "lp_msel lp' = lp_msel lp \<or>
    runs_scheduler p \<and> (\<exists>w. lp_msel lp' = bitmap (schedule w (t_schedule_ns t) HANG_THRESHOLD_NS))"
  using assms
  by (auto simp: one_turn_def end_of_turn_def stamp_def Let_def split: if_splits sum.splits option.splits)

lemma worker_loop_msel:
  assumes "worker_loop worker_id listen_fd p ts lp = Some (Inr (lp', closed_fds))"
  shows "lp_msel lp' = lp_msel lp \<or>
    runs_scheduler p \<and> (\<exists>w now. lp_msel lp' = bitmap (schedule w now HANG_THRESHOLD_NS))"
  using assms
proof (induction ts arbitrary: lp)
  case (Cons t ts)
  then show ?case
    using one_turn_msel [of worker_id listen_fd p t lp] one_turn_Stop [of worker_id listen_fd p t lp]
    by (auto split: option.splits outcome.splits) metis+
qed simp

section \<open>Properties\<close>

text \<open>
  The load metrics tell the truth: whatever the kernel delivers and the other workers do, after
  every run the worker's connection counter is the number of connections it holds and its busy
  counter is zero, every recorded tick shows exactly that, has a scheduling result exactly under
  the Hermes policy, and at shutdown the descriptors closed are the connections still held.
\<close>

lemma worker_metrics_are_exact:
  assumes "loop_ok worker_id lp" and "worker_id < NUM_WORKERS" and "run_ok worker_id listen_fd p ts lp"
    and "lp_ticks lp = []" and "worker_loop worker_id listen_fd p ts lp = Some (Inr (lp', closed_fds))"
  shows "loop_ok worker_id lp' \<and> closed_fds = dom (io_conns (lp_io lp')) \<and>
    (\<forall>tick\<in>set (lp_ticks lp'). tick_consistent tick \<and> tk_worker_id tick = worker_id)"
  using worker_loop_ok [OF assms(1-3) _ assms(5)] assms(4) by simp

definition idle_io :: io where
  "idle_io = \<lparr>io_slot = worker_slot_new, io_conns = Map.empty, io_log = [], k_accept = [], k_ctl_add = [],
     k_read = [], k_write = []\<rparr>"

definition fresh_loop :: "hang_spec option \<Rightarrow> loop_state" where
  "fresh_loop h = \<lparr>lp_wst = \<lparr>slots = replicate NUM_WORKERS worker_slot_new\<rparr>, lp_msel = 0, lp_io = idle_io,
     lp_hang = h, lp_iter = 0, lp_ticks = []\<rparr>"

text \<open>A turn in which one connection is accepted, and the turn that sees the shutdown flag.\<close>

definition accept_turn :: turn where
  "accept_turn = \<lparr>t_shutdown = False, t_entry_ns = 1000, t_elapsed = 0, t_wait = (1, 0), t_events = [(4, 1)],
     t_accept = [(9, 0), (- 1, EAGAIN)], t_ctl_add = [(0, 0)], t_read = [], t_write = [],
     t_others = (\<lambda>w. w), t_schedule_ns = 2000, t_set_failed = False, t_others_tick = (\<lambda>w. w), t_tick_ns = 3000,
     t_tick_error = None\<rparr>"

definition stop_turn :: turn where
  "stop_turn = accept_turn\<lparr>t_shutdown := True\<rparr>"

lemma accept_turn_events:
  "event_fd 4 = 4"
  "accept_all (enter_io 2 accept_turn w s) = Some ((enter_io 2 accept_turn w s)
     \<lparr>k_accept := [], k_ctl_add := [], io_slot := add_conns 1 (slots w ! 2),
      io_conns := (io_conns s)(9 \<mapsto> \<lparr>buf = []\<rparr>)\<rparr>)"
  by (simp_all add: event_fd_def accept_turn_def enter_io_def accept_all.simps)

lemma accept_turn_handled:
  "run_steps (handle_event 2 4) [(4, 1)] (enter_io 2 accept_turn w s) = Some ((enter_io 2 accept_turn w s)
     \<lparr>k_accept := [], k_ctl_add := [], io_slot := sub_pending 1 (add_conns 1 (slots w ! 2)),
      io_conns := (io_conns s)(9 \<mapsto> \<lparr>buf = []\<rparr>)\<rparr>)"
  by (simp add: handle_event_def accept_turn_events Let_def)

lemma fresh_loop_ok: "loop_ok 2 (fresh_loop h)"
  by (simp add: loop_ok_def fresh_loop_def idle_io_def worker_slot_new_def wst_ok_def NUM_WORKERS_def)

lemma accept_turn_ok: "turn_ok 2 4 accept_turn (fresh_loop h)"
proof -
  have "leaves_slot 2 (t_others accept_turn)" "leaves_slot 2 (t_others_tick accept_turn)"
    by (simp_all add: leaves_slot_def accept_turn_def)
  moreover have "event_ok 4 (4, 1) (enter_io 2 accept_turn w (lp_io (fresh_loop h)))" for w
    by (simp add: event_ok_def accept_turn_events enter_io_def accept_turn_def fresh_loop_def idle_io_def)
  moreover have "epoll_wait (t_wait accept_turn) = Inr 1" "t_events accept_turn = [(4, 1)]"
    by (simp_all add: epoll_wait_def accept_turn_def)
  ultimately show ?thesis
    by (simp add: turn_ok_def stamp_def fresh_loop_def split: option.splits)
qed

lemma accept_turn_runs:
  "\<exists>lp'. one_turn 2 4 Hermes accept_turn (fresh_loop None) = Some (Next lp') \<and> dom (io_conns (lp_io lp')) = {9}"
proof -
  have w: "epoll_wait (t_wait accept_turn) = Inr (Suc 0)" "take (Suc 0) (t_events accept_turn) = [(4, 1)]"
    "\<not> t_shutdown accept_turn" "lp_hang (stamp 2 accept_turn (fresh_loop None)) = None"
    by (simp_all add: epoll_wait_def accept_turn_def stamp_def fresh_loop_def)
  show ?thesis
    by (simp add: one_turn_def w Let_def accept_turn_handled end_of_turn_def runs_scheduler_def
        del: run_steps.simps)
      (simp add: accept_turn_def stamp_def fresh_loop_def idle_io_def enter_io_def)
qed

lemma worker_metrics_are_exact_witness:
  "\<exists>lp'. worker_loop 2 4 Hermes [accept_turn, stop_turn] (fresh_loop None) = Some (Inr (lp', {9})) \<and>
    loop_ok 2 lp' \<and> (\<forall>tick\<in>set (lp_ticks lp'). tick_consistent tick)"
proof -
  obtain lp' where n: "one_turn 2 4 Hermes accept_turn (fresh_loop None) = Some (Next lp')"
    and d: "dom (io_conns (lp_io lp')) = {9}" using accept_turn_runs by blast
  have st: "one_turn 2 4 Hermes stop_turn lp' = Some (Stop lp')"
    by (simp add: one_turn_def stop_turn_def)
  have "turn_ok 2 4 stop_turn lp'" by (simp add: turn_ok_def stop_turn_def)
  then have "run_ok 2 4 Hermes [accept_turn, stop_turn] (fresh_loop None)"
    using accept_turn_ok [of None] n st by simp
  moreover have r: "worker_loop 2 4 Hermes [accept_turn, stop_turn] (fresh_loop None) = Some (Inr (lp', {9}))"
    using n st d by (simp add: stop_turn_def accept_turn_def)
  moreover have "lp_ticks (fresh_loop None) = []" "(2::nat) < NUM_WORKERS"
    by (simp_all add: fresh_loop_def NUM_WORKERS_def)
  ultimately show ?thesis
    using worker_metrics_are_exact [OF fresh_loop_ok, of 4 Hermes "[accept_turn, stop_turn]" None lp' "{9}"] by blast
qed

text \<open>
  The map the kernel reads is always well formed: if \<open>M_Sel\<close> starts out naming existing workers
  only (a fresh map holds zero), it does so after every run of a worker, under every policy and
  whatever the status table held; and a worker of a baseline policy never writes it.
\<close>

lemma msel_stays_well_formed:
  assumes "set (set_bits (lp_msel lp) 64) \<subseteq> {..<NUM_WORKERS}"
    and "worker_loop worker_id listen_fd p ts lp = Some (Inr (lp', closed_fds))"
  shows "set (set_bits (lp_msel lp') 64) \<subseteq> {..<NUM_WORKERS} \<and> (p \<noteq> Hermes \<longrightarrow> lp_msel lp' = lp_msel lp)"
proof -
  from worker_loop_msel [OF assms(2)]
  consider "lp_msel lp' = lp_msel lp"
    | w now where "runs_scheduler p" "lp_msel lp' = bitmap (schedule w now HANG_THRESHOLD_NS)" by blast
  then show ?thesis
  proof cases
    case 2
    then show ?thesis
      using scheduler_out.publish_workers [of "(w, now, HANG_THRESHOLD_NS)"] by (simp add: runs_scheduler_def)
  qed (use assms(1) in simp)
qed

lemma msel_stays_well_formed_witness:
  "\<exists>lp'. worker_loop 2 4 Hermes [accept_turn, stop_turn] (fresh_loop None) = Some (Inr (lp', {9})) \<and>
    set (set_bits (lp_msel lp') 64) \<subseteq> {..<NUM_WORKERS}"
proof -
  obtain lp' where n: "one_turn 2 4 Hermes accept_turn (fresh_loop None) = Some (Next lp')"
    and d: "dom (io_conns (lp_io lp')) = {9}" using accept_turn_runs by blast
  have "one_turn 2 4 Hermes stop_turn lp' = Some (Stop lp')"
    by (simp add: one_turn_def stop_turn_def)
  with n d have r: "worker_loop 2 4 Hermes [accept_turn, stop_turn] (fresh_loop None) = Some (Inr (lp', {9}))"
    by (simp add: stop_turn_def accept_turn_def)
  moreover have "set (set_bits (lp_msel (fresh_loop None)) 64) \<subseteq> {..<NUM_WORKERS}"
    by (simp add: fresh_loop_def)
  ultimately show ?thesis
    using msel_stays_well_formed [of "fresh_loop None" 2 4 Hermes "[accept_turn, stop_turn]" lp' "{9}"] by blast
qed

text \<open>
  An injected hang is what Stage 1 detects: the turn that hangs stamps the loop entry and touches
  no counter, and as long as the worker stays in it, a schedule computed at least the threshold
  after the stamp leaves the worker out and the eBPF program does not select it, while no second
  hang is pending.
\<close>

lemma injected_hang_is_detected:
  assumes "lp_hang lp = Some h" and "hang_at h \<le> t_elapsed t" and "\<not> t_shutdown t"
    and "wst_ok (lp_wst lp)" and "worker_id < NUM_WORKERS" and "0 < sint (t_entry_ns t)"
    and "slots w ! worker_id = slots (lp_wst (stamp worker_id t lp)) ! worker_id"
    and "clocks_ok (snapshot_all w) now" and "sint HANG_THRESHOLD_NS \<le> sint now - sint (t_entry_ns t)"
  shows "one_turn worker_id listen_fd p t lp = Some (Next ((stamp worker_id t lp)\<lparr>lp_hang := None\<rparr>)) \<and>
    \<not> bit (bitmap (schedule w now HANG_THRESHOLD_NS)) worker_id \<and>
    try_select (Some (bitmap (schedule w now HANG_THRESHOLD_NS))) ctx \<noteq> Some (of_nat worker_id)"
proof (intro conjI)
  show "one_turn worker_id listen_fd p t lp = Some (Next ((stamp worker_id t lp)\<lparr>lp_hang := None\<rparr>))"
    using assms(1-3) by (simp add: one_turn_def stamp_def)
  have "last_loop_entry (slots w ! worker_id) = t_entry_ns t"
    using assms(4,5,7) by (simp add: stamp_def slot_upd_same slot_op_defs)
  then have "hung now HANG_THRESHOLD_NS (snapshot_all w ! worker_id)"
    using assms(5,6,9) by (simp add: hung_def nth_snapshot_all slot_snapshot_def)
  from hung_not_published [OF assms(8,5) this]
  show b: "\<not> bit (bitmap (schedule w now HANG_THRESHOLD_NS)) worker_id" .
  show "try_select (Some (bitmap (schedule w now HANG_THRESHOLD_NS))) ctx \<noteq> Some (of_nat worker_id)"
    using scheduler_out.select_only_candidates [of "(w, now, HANG_THRESHOLD_NS)" worker_id ctx] b assms(5) by simp
qed

lemma injected_hang_is_detected_witness:
  "\<not> bit (bitmap (schedule (lp_wst (stamp 2 accept_turn (fresh_loop (Some \<lparr>hang_at = 0, hang_duration = 400000000\<rparr>))))
      300000000 HANG_THRESHOLD_NS)) 2"
proof -
  let ?lp = "fresh_loop (Some \<lparr>hang_at = 0, hang_duration = 400000000\<rparr>)"
  have "clocks_ok (snapshot_all (lp_wst (stamp 2 accept_turn ?lp))) 300000000"
    by (auto simp: clocks_ok_def snapshot_all_def stamp_def fresh_loop_def upd_slot_def accept_turn_def
        slot_snapshot_def worker_slot_new_def slot_op_defs nth_list_update NUM_WORKERS_def)
  then show ?thesis
    using injected_hang_is_detected [of ?lp "\<lparr>hang_at = 0, hang_duration = 400000000\<rparr>" accept_turn 2
        "lp_wst (stamp 2 accept_turn ?lp)" 300000000 4 Hermes]
    by (simp add: fresh_loop_def accept_turn_def wst_ok_def HANG_THRESHOLD_NS_def NUM_WORKERS_def)
qed

end
