(* ===== verification/Sim_Status_Table.thy ===== *)
theory Sim_Status_Table
  imports Status_Table
begin

text \<open>
  The status table of the simulation, \<open>userspace_simulation/src/wst.rs\<close>. Its crate does not import the
  one of the eBPF version, so the file is a copy; the records of \<open>Status_Table\<close> have its fields. Each
  function is translated from the copy and shown to be its model in \<open>Status_Table\<close>.
\<close>

definition SIM_NUM_WORKERS :: nat where
  "SIM_NUM_WORKERS = 4"

definition sim_slot_snapshot :: "worker_slot \<Rightarrow> worker_snapshot" where
  "sim_slot_snapshot s =
     \<lparr>snap_last_loop_entry = last_loop_entry s,
      snap_pending_events = pending_events s,
      snap_accumulated_conns = accumulated_conns s\<rparr>"

text \<open>An index beyond the array panics.\<close>

definition sim_wst_slot :: "wst \<Rightarrow> nat \<Rightarrow> worker_slot option" where
  "sim_wst_slot w worker_id = (if worker_id < length (slots w) then Some (slots w ! worker_id) else None)"

definition sim_snapshot_all :: "wst \<Rightarrow> worker_snapshot list" where
  "sim_snapshot_all w = map (\<lambda>i. sim_slot_snapshot (slots w ! i)) [0..<SIM_NUM_WORKERS]"

definition sim_now_monotonic_ns :: "i64 \<Rightarrow> i64 \<Rightarrow> i64" where
  "sim_now_monotonic_ns tv_sec tv_nsec = tv_sec * 1000000000 + tv_nsec"

lemma sim_status_table_eq:
  "SIM_NUM_WORKERS = NUM_WORKERS" "sim_slot_snapshot = slot_snapshot" "sim_wst_slot = wst_slot"
  "sim_snapshot_all = snapshot_all" "sim_now_monotonic_ns = now_monotonic_ns"
  by (simp_all add: fun_eq_iff SIM_NUM_WORKERS_def NUM_WORKERS_def sim_slot_snapshot_def slot_snapshot_def
      sim_wst_slot_def wst_slot_def sim_snapshot_all_def snapshot_all_def sim_now_monotonic_ns_def now_monotonic_ns_def)

end
