(* ===== verification/Sim_Scheduler.thy ===== *)
theory Sim_Scheduler
  imports Scheduler Sim_Status_Table
begin

text \<open>
  The scheduler of the simulation, \<open>userspace_simulation/src/scheduler.rs\<close>, a file of its own crate.
  It is shown to be the function of \<open>Scheduler\<close>, so that what is proved there holds for both.
\<close>

definition SIM_HANG_THRESHOLD_NS :: i64 where
  "SIM_HANG_THRESHOLD_NS = 200000000"

definition SIM_THETA_RATIO :: rat where
  "SIM_THETA_RATIO = 1 / 2"

definition SIM_THETA_MIN :: rat where
  "SIM_THETA_MIN = 1"

definition sim_filter_below_baseline :: "nat list \<Rightarrow> (nat \<Rightarrow> i64) \<Rightarrow> nat list" where
  "sim_filter_below_baseline candidates metric =
     (if candidates = [] then []
      else let sum = sum_list (map metric candidates);
               avg = f64_div (f64_of_int (sint sum)) (f64_of_int (int (length candidates)));
               theta = max (f64_mul SIM_THETA_RATIO avg) SIM_THETA_MIN;
               baseline = f64_add avg theta
           in filter (\<lambda>i. f64_of_int (sint (metric i)) < baseline) candidates)"

definition sim_schedule_from_snapshots :: "worker_snapshot list \<Rightarrow> i64 \<Rightarrow> i64 \<Rightarrow> schedule_result" where
  "sim_schedule_from_snapshots snapshots now hang_threshold_ns =
     (let after1 = filter (\<lambda>i. let t = snap_last_loop_entry (snapshots ! i)
            in t = 0 \<or> now - t <s hang_threshold_ns) [0..<NUM_WORKERS];
          after2 = sim_filter_below_baseline after1 (\<lambda>i. snap_accumulated_conns (snapshots ! i));
          after3 = sim_filter_below_baseline after2 (\<lambda>i. snap_pending_events (snapshots ! i))
      in \<lparr>bitmap = fold (\<lambda>i b. b OR push_bit i 1) after3 0,
          after_stage1 = length after1,
          after_stage2 = length after2,
          after_stage3 = length after3\<rparr>)"

definition sim_schedule :: "wst \<Rightarrow> i64 \<Rightarrow> i64 \<Rightarrow> schedule_result" where
  "sim_schedule w now hang_threshold_ns = sim_schedule_from_snapshots (sim_snapshot_all w) now hang_threshold_ns"

lemma sim_filter_eq: "sim_filter_below_baseline = filter_below_baseline"
  by (simp add: fun_eq_iff sim_filter_below_baseline_def filter_below_baseline_def SIM_THETA_RATIO_def THETA_RATIO_def
      SIM_THETA_MIN_def THETA_MIN_def)

lemma sim_schedule_eq: "sim_schedule = schedule"
  by (simp add: fun_eq_iff sim_schedule_def schedule_def sim_schedule_from_snapshots_def schedule_from_snapshots_def
      sim_filter_eq sim_status_table_eq stage1_def looks_alive_def)

lemma sim_threshold_eq: "SIM_HANG_THRESHOLD_NS = HANG_THRESHOLD_NS"
  by (simp add: SIM_HANG_THRESHOLD_NS_def HANG_THRESHOLD_NS_def)

end
