(* ===== verification/Sim_Worker.thy ===== *)
theory Sim_Worker
  imports Sim_Dispatcher Sim_Workload Sim_Scheduler
begin

text \<open>
  The worker process of the simulation, \<open>userspace_simulation/src/worker.rs\<close>. One turn of the loop
  is a function of what the environment supplies during it: clock readings, the polls of the
  accept queue with what the generator pushes before each access, the effect of the other
  processes on the shared memory, and the shutdown flag. Rows of the metrics are collected as in
  the code; writing them out and the console lines are left out.
\<close>

section \<open>Types\<close>

definition EPOLL_TIMEOUT :: duration where
  "EPOLL_TIMEOUT = from_millis 5"

definition SIM_MAX_EVENTS :: nat where
  "SIM_MAX_EVENTS = 4"

datatype row_kind = Accept_Row | Burst_Row

record sim_conn_row =
  row_conn_id :: u64
  row_worker_id :: nat
  row_arrival_ns :: i64
  row_dequeue_ns :: i64
  row_done_ns :: i64
  row_service_us :: u32
  row_policy :: policy
  row_kind_of :: row_kind

record sim_tick_row =
  stk_timestamp_ns :: i64
  stk_worker_id :: nat
  stk_iter :: u32
  stk_snapshots :: "worker_snapshot list"
  stk_queue_len :: nat
  stk_result :: "schedule_result option"
  stk_policy :: policy

record sim_state =
  sw_shared :: shared_state
  sw_open_conns :: "(u64 \<times> i64) list"
  sw_hang_pending :: "hang_spec option"
  sw_burst_pending :: "burst_spec option"
  sw_burst_backlog :: "u64 list"
  sw_burst_trigger_ns :: i64
  sw_iter :: u32
  sw_ticks :: "sim_tick_row list"
  sw_conns :: "sim_conn_row list"

text \<open>
  One attempt of \<open>poll_accept_queue\<close>: what the generator does to the queue before each pop, whether
  the deadline has passed and whether shutdown is requested afterwards.
\<close>

record poll_round =
  pr_before_pop :: "nat \<Rightarrow> conn_queue \<Rightarrow> conn_queue"
  pr_timeout :: bool
  pr_shutdown :: bool

record sim_turn =
  st_entry_ns :: i64
  st_elapsed :: duration
  st_now_ns :: i64
  st_burst_elapsed :: duration
  st_trigger_ns :: i64
  st_polls :: "poll_round list"
  st_times :: "(i64 \<times> i64) list"
  st_others :: "shared_state \<Rightarrow> shared_state"
  st_schedule_ns :: i64
  st_tick_ns :: i64

section \<open>Polling the accept queue\<close>

fun pop_batch :: "(nat \<Rightarrow> conn_queue \<Rightarrow> conn_queue) \<Rightarrow> nat \<Rightarrow> conn_desc list \<Rightarrow> conn_queue \<Rightarrow> conn_desc list \<times> conn_queue" where
  "pop_batch before 0 batch q = (batch, q)"
| "pop_batch before (Suc room) batch q =
     (case pop (before (length batch) q) of
        (Some desc, q) \<Rightarrow> pop_batch before room (batch @ [desc]) q
      | (None, q) \<Rightarrow> (batch, q))"

fun poll_accept_queue :: "poll_round list \<Rightarrow> conn_queue \<Rightarrow> (conn_desc list \<times> conn_queue) option" where
  "poll_accept_queue [] q = None"
| "poll_accept_queue (r # rs) q =
     (let (batch, q) = pop_batch (pr_before_pop r) SIM_MAX_EVENTS [] q
      in if batch \<noteq> [] \<or> pr_timeout r \<or> pr_shutdown r then Some (batch, q)
         else poll_accept_queue rs q)"

section \<open>The loop body\<close>

definition on_slot :: "nat \<Rightarrow> (worker_slot \<Rightarrow> worker_slot) \<Rightarrow> sim_state \<Rightarrow> sim_state" where
  "on_slot worker_id f s =
     s\<lparr>sw_shared := (sw_shared s)\<lparr>sh_wst := upd_slot worker_id f (sh_wst (sw_shared s))\<rparr>\<rparr>"

text \<open>\<open>retain\<close> visits the connections in order and counts each expired one off.\<close>

fun close_expired :: "nat \<Rightarrow> i64 \<Rightarrow> (u64 \<times> i64) list \<Rightarrow> sim_state \<Rightarrow> sim_state" where
  "close_expired worker_id now [] s = s"
| "close_expired worker_id now ((cid, deadline) # cs) s =
     (if deadline \<le>s now then close_expired worker_id now cs (on_slot worker_id (sub_conns 1) s)
      else close_expired worker_id now cs (s\<lparr>sw_open_conns := sw_open_conns s @ [(cid, deadline)]\<rparr>))"

definition fire_burst :: "sim_turn \<Rightarrow> sim_state \<Rightarrow> sim_state" where
  "fire_burst t s =
     (case sw_burst_pending s of
        Some b \<Rightarrow>
          if burst_at b \<le> st_burst_elapsed t
          then s\<lparr>sw_burst_backlog := map fst (sw_open_conns s), sw_burst_trigger_ns := st_trigger_ns t,
                 sw_burst_pending := None\<rparr>
          else s
      | None \<Rightarrow> s)"

text \<open>The two event handlers; each event takes a pair of clock readings from the turn.\<close>

fun serve_burst :: "nat \<Rightarrow> policy \<Rightarrow> burst_spec \<Rightarrow> u64 list \<Rightarrow> (i64 \<times> i64) list \<Rightarrow> sim_state \<Rightarrow> sim_state option" where
  "serve_burst worker_id p b [] clocks s = Some s"
| "serve_burst worker_id p b (cid # ids) [] s = None"
| "serve_burst worker_id p b (cid # ids) ((dequeue_ns, done_ns) # clocks) s =
     (let s = on_slot worker_id (sub_pending 1) s;
          row = \<lparr>row_conn_id = cid, row_worker_id = worker_id, row_arrival_ns = sw_burst_trigger_ns s,
                 row_dequeue_ns = dequeue_ns, row_done_ns = done_ns,
                 row_service_us = of_nat (as_micros (burst_service b)), row_policy = p, row_kind_of = Burst_Row\<rparr>
      in serve_burst worker_id p b ids clocks (s\<lparr>sw_conns := sw_conns s @ [row]\<rparr>))"

fun serve_batch :: "nat \<Rightarrow> policy \<Rightarrow> conn_desc list \<Rightarrow> (i64 \<times> i64) list \<Rightarrow> sim_state \<Rightarrow> sim_state option" where
  "serve_batch worker_id p [] clocks s = Some s"
| "serve_batch worker_id p (d # ds) [] s = None"
| "serve_batch worker_id p (d # ds) ((dequeue_ns, done_ns) # clocks) s =
     (let s = on_slot worker_id (add_conns 1) s;
          s = on_slot worker_id (sub_pending 1) s;
          s = s\<lparr>sw_open_conns := sw_open_conns s @ [(conn_id d, done_ns + ucast (lifetime_ms d) * 1000000)]\<rparr>;
          row = \<lparr>row_conn_id = conn_id d, row_worker_id = worker_id, row_arrival_ns = arrival_ns d,
                 row_dequeue_ns = dequeue_ns, row_done_ns = done_ns,
                 row_service_us = service_us d, row_policy = p, row_kind_of = Accept_Row\<rparr>
      in serve_batch worker_id p ds clocks (s\<lparr>sw_conns := sw_conns s @ [row]\<rparr>))"

definition serve_events :: "nat \<Rightarrow> policy \<Rightarrow> burst_spec option \<Rightarrow> sim_turn \<Rightarrow> sim_state \<Rightarrow> sim_state option" where
  "serve_events worker_id p burst_spec t s =
     (if sw_burst_backlog s \<noteq> []
      then
        let n = min (length (sw_burst_backlog s)) SIM_MAX_EVENTS;
            ids = take n (sw_burst_backlog s);
            s = s\<lparr>sw_burst_backlog := drop n (sw_burst_backlog s)\<rparr>;
            s = on_slot worker_id (add_pending (of_nat (length ids))) s
        in case burst_spec of None \<Rightarrow> None | Some b \<Rightarrow> serve_burst worker_id p b ids (st_times t) s
      else
        case poll_accept_queue (st_polls t) (sh_queues (sw_shared s) ! worker_id) of
          None \<Rightarrow> None
        | Some (batch, q) \<Rightarrow>
            let s = s\<lparr>sw_shared := (sw_shared s)\<lparr>sh_queues := (sh_queues (sw_shared s))[worker_id := q]\<rparr>\<rparr>;
                s = on_slot worker_id (add_pending (of_nat (length batch))) s
            in serve_batch worker_id p batch (st_times t) s)"

definition sim_end_of_turn :: "nat \<Rightarrow> policy \<Rightarrow> sim_turn \<Rightarrow> sim_state \<Rightarrow> bool \<times> sim_state" where
  "sim_end_of_turn worker_id p t s =
     (let s = s\<lparr>sw_shared := st_others t (sw_shared s)\<rparr>;
          result = (if p = Hermes then Some (sim_schedule (sh_wst (sw_shared s)) (st_schedule_ns t) SIM_HANG_THRESHOLD_NS) else None);
          s = (case result of
                 Some r \<Rightarrow> s\<lparr>sw_shared := (sw_shared s)\<lparr>sh_msel := sel_store (bitmap r) (sh_msel (sw_shared s))\<rparr>\<rparr>
               | None \<Rightarrow> s);
          tick = \<lparr>stk_timestamp_ns = st_tick_ns t, stk_worker_id = worker_id, stk_iter = sw_iter s,
                  stk_snapshots = snapshot_all (sh_wst (sw_shared s)),
                  stk_queue_len = queue_len (sh_queues (sw_shared s) ! worker_id),
                  stk_result = result, stk_policy = p\<rparr>;
          s = s\<lparr>sw_ticks := sw_ticks s @ [tick]\<rparr>
      in if shutdown_requested (sw_shared s) \<and> queue_is_empty (sh_queues (sw_shared s) ! worker_id) \<and>
            sw_burst_backlog s = []
         then (True, s) else (False, s\<lparr>sw_iter := sw_iter s + 1\<rparr>))"

text \<open>One turn; the flag says whether the loop ends.\<close>

definition sim_one_turn :: "nat \<Rightarrow> policy \<Rightarrow> burst_spec option \<Rightarrow> sim_turn \<Rightarrow> sim_state \<Rightarrow> (bool \<times> sim_state) option" where
  "sim_one_turn worker_id p burst_spec t s =
     (let s = on_slot worker_id (store_loop_entry (st_entry_ns t)) s
      in if (case sw_hang_pending s of Some h \<Rightarrow> hang_at h \<le> st_elapsed t | None \<Rightarrow> False)
         then Some (False, s\<lparr>sw_hang_pending := None\<rparr>)
         else
           let s = close_expired worker_id (st_now_ns t) (sw_open_conns s) (s\<lparr>sw_open_conns := []\<rparr>);
               s = fire_burst t s
           in map_option (sim_end_of_turn worker_id p t) (serve_events worker_id p burst_spec t s))"

definition sim_start :: "nat \<Rightarrow> hang_spec option \<Rightarrow> burst_spec option \<Rightarrow> shared_state \<Rightarrow> sim_state" where
  "sim_start worker_id hang_spec burst_spec sh =
     \<lparr>sw_shared = sh, sw_open_conns = [],
      sw_hang_pending = (case hang_spec of Some h \<Rightarrow> if hang_worker h = worker_id then Some h else None | None \<Rightarrow> None),
      sw_burst_pending = burst_spec, sw_burst_backlog = [], sw_burst_trigger_ns = 0, sw_iter = 0,
      sw_ticks = [], sw_conns = []\<rparr>"

fun sim_worker_loop :: "nat \<Rightarrow> policy \<Rightarrow> burst_spec option \<Rightarrow> sim_turn list \<Rightarrow> sim_state \<Rightarrow> sim_state option" where
  "sim_worker_loop worker_id p burst_spec [] s = None"
| "sim_worker_loop worker_id p burst_spec (t # ts) s =
     (case sim_one_turn worker_id p burst_spec t s of
        None \<Rightarrow> None
      | Some (True, s) \<Rightarrow> Some s
      | Some (False, s) \<Rightarrow> sim_worker_loop worker_id p burst_spec ts s)"

section \<open>The slot counts the open connections\<close>

abbreviation own_slot :: "nat \<Rightarrow> sim_state \<Rightarrow> worker_slot" where
  "own_slot worker_id s \<equiv> slots (sh_wst (sw_shared s)) ! worker_id"

text \<open>\<open>extra\<close> connections are still to be put into the list of open ones.\<close>

definition counted :: "nat \<Rightarrow> nat \<Rightarrow> sim_state \<Rightarrow> bool" where
  "counted worker_id extra s \<longleftrightarrow> shared_ok (sw_shared s) \<and>
     accumulated_conns (own_slot worker_id s) = of_nat (length (sw_open_conns s) + extra)"

definition sim_tick_consistent :: "sim_tick_row \<Rightarrow> bool" where
  "sim_tick_consistent tick \<longleftrightarrow>
     snap_pending_events (stk_snapshots tick ! stk_worker_id tick) = 0 \<and>
     (stk_result tick = None \<longleftrightarrow> stk_policy tick \<noteq> Hermes)"

definition sim_ok :: "nat \<Rightarrow> sim_state \<Rightarrow> bool" where
  "sim_ok worker_id s \<longleftrightarrow> counted worker_id 0 s \<and> pending_events (own_slot worker_id s) = 0 \<and>
     (\<forall>tick\<in>set (sw_ticks s). sim_tick_consistent tick \<and> stk_worker_id tick = worker_id)"

lemma own_slot_on_slot:
  assumes "shared_ok (sw_shared s)" and "worker_id < NUM_WORKERS"
  shows "own_slot worker_id (on_slot worker_id f s) = f (own_slot worker_id s)"
  using assms by (simp add: on_slot_def upd_slot_def shared_ok_def wst_ok_def)

lemma on_slot_frame [simp]:
  "sw_open_conns (on_slot worker_id f s) = sw_open_conns s" "sw_ticks (on_slot worker_id f s) = sw_ticks s"
  "sw_burst_backlog (on_slot worker_id f s) = sw_burst_backlog s" "sw_conns (on_slot worker_id f s) = sw_conns s"
  "sh_queues (sw_shared (on_slot worker_id f s)) = sh_queues (sw_shared s)"
  "sw_burst_pending (on_slot worker_id f s) = sw_burst_pending s"
  by (simp_all add: on_slot_def)

lemma shared_ok_on_slot [simp]: "shared_ok (sw_shared s) \<Longrightarrow> shared_ok (sw_shared (on_slot worker_id f s))"
  by (simp add: on_slot_def shared_ok_upd_slot)

lemma close_expired_counted:
  assumes "counted worker_id (length cs) s" and "worker_id < NUM_WORKERS"
  shows "counted worker_id 0 (close_expired worker_id now cs s) \<and>
    sw_open_conns (close_expired worker_id now cs s) =
      sw_open_conns s @ filter (\<lambda>(cid, deadline). \<not> deadline \<le>s now) cs \<and>
    pending_events (own_slot worker_id (close_expired worker_id now cs s)) = pending_events (own_slot worker_id s) \<and>
    sw_ticks (close_expired worker_id now cs s) = sw_ticks s"
  using assms(1)
proof (induction cs arbitrary: s)
  case (Cons c cs)
  obtain cid deadline where c: "c = (cid, deadline)" by fastforce
  have sh: "shared_ok (sw_shared s)" using Cons.prems by (simp add: counted_def)
  show ?case
  proof (cases "deadline \<le>s now")
    case True
    have "counted worker_id (length cs) (on_slot worker_id (sub_conns 1) s)"
      using Cons.prems sh assms(2) by (simp add: counted_def own_slot_on_slot slot_op_defs)
    from Cons.IH [OF this] show ?thesis
      using True sh assms(2) by (simp add: c own_slot_on_slot slot_op_defs)
  next
    case False
    have "counted worker_id (length cs) (s\<lparr>sw_open_conns := sw_open_conns s @ [(cid, deadline)]\<rparr>)"
      using Cons.prems by (simp add: counted_def)
    from Cons.IH [OF this] show ?thesis using False by (simp add: c)
  qed
qed (simp add: counted_def)

lemma serve_burst_counted:
  assumes "serve_burst worker_id p b ids clocks s = Some s'" and "counted worker_id 0 s" and "worker_id < NUM_WORKERS"
  shows "counted worker_id 0 s' \<and>
    pending_events (own_slot worker_id s') = pending_events (own_slot worker_id s) - of_nat (length ids) \<and>
    sw_ticks s' = sw_ticks s"
  using assms
proof (induction worker_id p b ids clocks s rule: serve_burst.induct)
  case (3 worker_id p b cid ids dequeue_ns done_ns clocks s)
  then show ?case
    by (auto simp: Let_def counted_def own_slot_on_slot slot_op_defs diff_diff_eq)
qed simp_all

lemma serve_batch_counted:
  assumes "serve_batch worker_id p ds clocks s = Some s'" and "counted worker_id 0 s" and "worker_id < NUM_WORKERS"
  shows "counted worker_id 0 s' \<and>
    pending_events (own_slot worker_id s') = pending_events (own_slot worker_id s) - of_nat (length ds) \<and>
    sw_ticks s' = sw_ticks s"
  using assms
proof (induction worker_id p ds clocks s rule: serve_batch.induct)
  case (3 worker_id p d ds dequeue_ns done_ns clocks s)
  then show ?case
    by (auto simp: Let_def counted_def own_slot_on_slot slot_op_defs diff_diff_eq)
qed simp_all

text \<open>The queue stays well formed under the generator's pushes and the worker's pops.\<close>

definition keeps_queue :: "(conn_queue \<Rightarrow> conn_queue) \<Rightarrow> bool" where
  "keeps_queue f \<longleftrightarrow> (\<forall>q. queue_inv q \<longrightarrow> queue_inv (f q))"

lemma pop_batch_inv:
  assumes "\<forall>n. keeps_queue (before n)" and "queue_inv q"
  shows "queue_inv (snd (pop_batch before room batch q)) \<and>
    length (fst (pop_batch before room batch q)) \<le> length batch + room"
  using assms(2)
proof (induction room arbitrary: batch q)
  case (Suc room)
  have "queue_inv (before (length batch) q)" using assms(1) Suc.prems by (simp add: keeps_queue_def)
  then have "queue_inv (snd (pop (before (length batch) q)))" by (rule ring.deq_cases [THEN conjunct1])
  then show ?case
    using Suc.IH [of "snd (pop (before (length batch) q))"]
    by (auto split: prod.splits option.splits) (metis add_Suc length_append_singleton snd_conv fst_conv)
qed simp

lemma poll_accept_queue_inv:
  assumes "poll_accept_queue rs q = Some (batch, q')" and "\<forall>r\<in>set rs. \<forall>n. keeps_queue (pr_before_pop r n)"
    and "queue_inv q"
  shows "queue_inv q' \<and> length batch \<le> SIM_MAX_EVENTS"
  using assms
proof (induction rs arbitrary: q)
  case (Cons r rs)
  then show ?case
    using pop_batch_inv [of "pr_before_pop r" q SIM_MAX_EVENTS "[]"]
    by (auto split: prod.splits if_splits)
qed simp

definition sim_turn_ok :: "nat \<Rightarrow> sim_turn \<Rightarrow> bool" where
  "sim_turn_ok worker_id t \<longleftrightarrow>
     (\<forall>r\<in>set (st_polls t). \<forall>n. keeps_queue (pr_before_pop r n)) \<and>
     (\<forall>sh. shared_ok sh \<longrightarrow> shared_ok (st_others t sh) \<and>
       slots (sh_wst (st_others t sh)) ! worker_id = slots (sh_wst sh) ! worker_id)"

lemma serve_events_ok:
  assumes "serve_events worker_id p b t s = Some s'" and "counted worker_id 0 s" and "worker_id < NUM_WORKERS"
    and "pending_events (own_slot worker_id s) = 0" and "sim_turn_ok worker_id t"
  shows "counted worker_id 0 s' \<and> pending_events (own_slot worker_id s') = 0 \<and> sw_ticks s' = sw_ticks s"
proof (cases "sw_burst_backlog s = []")
  case False
  let ?n = "min (length (sw_burst_backlog s)) SIM_MAX_EVENTS"
  let ?ids = "take ?n (sw_burst_backlog s)"
  let ?s = "on_slot worker_id (add_pending (of_nat (length ?ids))) (s\<lparr>sw_burst_backlog := drop ?n (sw_burst_backlog s)\<rparr>)"
  obtain b' where "serve_burst worker_id p b' ?ids (st_times t) ?s = Some s'"
    using assms(1) False by (auto simp: serve_events_def Let_def split: option.splits)
  moreover have "counted worker_id 0 ?s" "pending_events (own_slot worker_id ?s) = of_nat (length ?ids)"
    using assms(2-4) by (simp_all add: counted_def own_slot_on_slot slot_op_defs)
  ultimately show ?thesis using serve_burst_counted [OF _ _ assms(3)] by fastforce
next
  case True
  then obtain batch q where b: "poll_accept_queue (st_polls t) (sh_queues (sw_shared s) ! worker_id) = Some (batch, q)"
    using assms(1) by (auto simp: serve_events_def split: option.splits)
  let ?s = "on_slot worker_id (add_pending (of_nat (length batch)))
    (s\<lparr>sw_shared := (sw_shared s)\<lparr>sh_queues := (sh_queues (sw_shared s))[worker_id := q]\<rparr>\<rparr>)"
  have run: "serve_batch worker_id p batch (st_times t) ?s = Some s'"
    using assms(1) True b by (simp add: serve_events_def Let_def)
  have sh: "shared_ok (sw_shared s)" using assms(2) by (simp add: counted_def)
  have "queue_inv q"
    using poll_accept_queue_inv [OF b] assms(5) shared_ok_queue [OF sh assms(3)]
    by (simp add: sim_turn_ok_def)
  then have "counted worker_id 0 ?s" "pending_events (own_slot worker_id ?s) = of_nat (length batch)"
    using assms(2-4) shared_ok_upd_queue [OF sh] by (simp_all add: counted_def own_slot_on_slot slot_op_defs)
  with serve_batch_counted [OF run _ assms(3)] show ?thesis by simp
qed

lemma sim_end_of_turn_ok:
  assumes "counted worker_id 0 s" and "pending_events (own_slot worker_id s) = 0" and "worker_id < NUM_WORKERS"
    and "\<forall>tick\<in>set (sw_ticks s). sim_tick_consistent tick \<and> stk_worker_id tick = worker_id"
    and "sim_turn_ok worker_id t" and "sim_end_of_turn worker_id p t s = (fin, s')"
  shows "sim_ok worker_id s' \<and> (fin \<longrightarrow> shutdown_requested (sw_shared s') \<and>
    queue_list (sh_queues (sw_shared s') ! worker_id) = [] \<and> sw_burst_backlog s' = [])"
proof -
  have sh: "shared_ok (sw_shared s)" using assms(1) by (simp add: counted_def)
  then have o: "shared_ok (st_others t (sw_shared s))"
    "slots (sh_wst (st_others t (sw_shared s))) ! worker_id = slots (sh_wst (sw_shared s)) ! worker_id"
    using assms(5) by (simp_all add: sim_turn_ok_def)
  have snap: "snapshot_all w ! worker_id = slot_snapshot (slots w ! worker_id)" for w
    using assms(3) by (rule nth_snapshot_all)
  have empty: "queue_is_empty q \<Longrightarrow> queue_list q = []" for q
    by (simp add: queue_is_empty_def queue_list_def)
  show ?thesis
    using assms(1,2,4,6) o
    by (auto simp: sim_end_of_turn_def Let_def sim_ok_def counted_def sim_tick_consistent_def snap slot_snapshot_def
        shutdown_requested_def intro!: shared_ok_store empty split: if_splits option.splits)
qed

lemma sim_one_turn_ok:
  assumes "sim_ok worker_id s" and "worker_id < NUM_WORKERS" and "sim_turn_ok worker_id t"
    and "sim_one_turn worker_id p b t s = Some (fin, s')"
  shows "sim_ok worker_id s' \<and> (fin \<longrightarrow> shutdown_requested (sw_shared s') \<and>
    queue_list (sh_queues (sw_shared s') ! worker_id) = [] \<and> sw_burst_backlog s' = [])"
proof -
  let ?s = "on_slot worker_id (store_loop_entry (st_entry_ns t)) s"
  have sh: "shared_ok (sw_shared s)" using assms(1) by (simp add: sim_ok_def counted_def)
  have st: "sim_ok worker_id ?s"
    using assms(1) sh assms(2) by (simp add: sim_ok_def counted_def own_slot_on_slot slot_op_defs)
  show ?thesis
  proof (cases "case sw_hang_pending ?s of Some h \<Rightarrow> hang_at h \<le> st_elapsed t | None \<Rightarrow> False")
    case True
    then show ?thesis
      using assms(4) st by (auto simp: sim_one_turn_def Let_def sim_ok_def counted_def)
  next
    case False
    define s1 where "s1 = close_expired worker_id (st_now_ns t) (sw_open_conns ?s) (?s\<lparr>sw_open_conns := []\<rparr>)"
    obtain s2 where s2: "serve_events worker_id p b t (fire_burst t s1) = Some s2"
      and e: "sim_end_of_turn worker_id p t s2 = (fin, s')"
      using assms(4) False by (auto simp: sim_one_turn_def Let_def s1_def split: if_splits)
    have "counted worker_id (length (sw_open_conns ?s)) (?s\<lparr>sw_open_conns := []\<rparr>)"
      using st by (simp add: sim_ok_def counted_def)
    from close_expired_counted [OF this assms(2), of "st_now_ns t"]
    have s1: "counted worker_id 0 s1" "pending_events (own_slot worker_id s1) = 0" "sw_ticks s1 = sw_ticks s"
      using st by (simp_all add: s1_def sim_ok_def)
    have "sw_shared (fire_burst t s1) = sw_shared s1" "sw_open_conns (fire_burst t s1) = sw_open_conns s1"
      "sw_ticks (fire_burst t s1) = sw_ticks s1"
      by (simp_all add: fire_burst_def split: option.splits)
    then have f: "counted worker_id 0 (fire_burst t s1)" "pending_events (own_slot worker_id (fire_burst t s1)) = 0"
      "sw_ticks (fire_burst t s1) = sw_ticks s"
      using s1 by (simp_all add: counted_def)
    from serve_events_ok [OF s2 f(1) assms(2) f(2) assms(3)] f(3) st
    show ?thesis
      by (intro sim_end_of_turn_ok [OF _ _ assms(2) _ assms(3) e]) (auto simp: sim_ok_def)
  qed
qed

interpretation sim_turns: guarded_steps
  "\<lambda>t s. map_option snd (sim_one_turn worker_id p b t s)" "\<lambda>t s. sim_turn_ok worker_id t"
  "\<lambda>s. worker_id < NUM_WORKERS \<and> sim_ok worker_id s" for worker_id p b
proof unfold_locales
  fix s t s'
  assume inv: "worker_id < NUM_WORKERS \<and> sim_ok worker_id s" and ok: "sim_turn_ok worker_id t"
    and step: "map_option snd (sim_one_turn worker_id p b t s) = Some s'"
  from step obtain fin where "sim_one_turn worker_id p b t s = Some (fin, s')" by auto
  with inv ok show "worker_id < NUM_WORKERS \<and> sim_ok worker_id s'" using sim_one_turn_ok by blast
qed

text \<open>A run is some turns followed by one that ends the loop.\<close>

lemma sim_worker_loop_run:
  assumes "sim_worker_loop worker_id p b ts s = Some s'"
  shows "\<exists>us t vs s1. ts = us @ t # vs \<and>
    run_steps (\<lambda>t s. map_option snd (sim_one_turn worker_id p b t s)) us s = Some s1 \<and>
    sim_one_turn worker_id p b t s1 = Some (True, s')"
  using assms
proof (induction ts arbitrary: s)
  case (Cons t ts)
  then obtain fin s1 where o: "sim_one_turn worker_id p b t s = Some (fin, s1)"
    by (auto split: option.splits)
  show ?case
  proof (cases fin)
    case True
    with o Cons.prems have "sim_one_turn worker_id p b t s = Some (True, s')" by simp
    then show ?thesis by (intro exI [of _ "[]"] exI [of _ t] exI [of _ ts] exI [of _ s]) simp
  next
    case False
    with o Cons.prems obtain us t' vs s2 where "ts = us @ t' # vs"
      "run_steps (\<lambda>t s. map_option snd (sim_one_turn worker_id p b t s)) us s1 = Some s2"
      "sim_one_turn worker_id p b t' s2 = Some (True, s')"
      using Cons.IH [of s1] by auto
    with o show ?thesis by (intro exI [of _ "t # us"] exI [of _ t'] exI [of _ vs] exI [of _ s2]) simp
  qed
qed simp

section \<open>Properties\<close>

text \<open>
  C20: A simulated worker leaves nothing behind and counts exactly: whatever the generator pushes
  while it polls and the other processes do, a worker that ends its loop has been asked to shut
  down, has emptied its accept queue and its burst backlog, its connection counter is the number
  of connections it still holds open and its busy counter is zero; every tick it recorded shows a
  busy counter of zero and has a scheduling result exactly under the Hermes policy.
\<close>

theorem sim_worker_drains_and_counts:
  assumes "sim_ok worker_id s" and "worker_id < NUM_WORKERS" and "\<forall>t\<in>set ts. sim_turn_ok worker_id t"
    and "sim_worker_loop worker_id p b ts s = Some s'"
  shows "sim_ok worker_id s' \<and> shutdown_requested (sw_shared s') \<and>
    queue_list (sh_queues (sw_shared s') ! worker_id) = [] \<and> sw_burst_backlog s' = []"
proof -
  obtain us t vs s1 where ts: "ts = us @ t # vs"
    and run: "run_steps (\<lambda>t s. map_option snd (sim_one_turn worker_id p b t s)) us s = Some s1"
    and last: "sim_one_turn worker_id p b t s1 = Some (True, s')"
    using sim_worker_loop_run [OF assms(4)] by blast
  have "steps_ok (\<lambda>t s. sim_turn_ok worker_id t) (\<lambda>t s. map_option snd (sim_one_turn worker_id p b t s)) us s"
    using assms(3) ts by (intro steps_ok_all) simp
  then have "sim_ok worker_id s1"
    using sim_turns.run_steps_inv [OF _ _ run] assms(1,2) by blast
  then show ?thesis using sim_one_turn_ok [OF _ assms(2) _ last] assms(3) ts by simp
qed

definition last_sim_turn :: sim_turn where
  "last_sim_turn = \<lparr>st_entry_ns = 1000, st_elapsed = 0, st_now_ns = 1100, st_burst_elapsed = 0, st_trigger_ns = 0,
     st_polls = [\<lparr>pr_before_pop = (\<lambda>n q. q), pr_timeout = True, pr_shutdown = False\<rparr>], st_times = [],
     st_others = (\<lambda>sh. sh), st_schedule_ns = 1200, st_tick_ns = 1300\<rparr>"

theorem sim_worker_drains_and_counts_witness:
  "\<exists>s'. sim_worker_loop 1 Lifo None [last_sim_turn] (sim_start 1 None None (request_shutdown zeroed_state)) = Some s' \<and>
    sim_ok 1 s' \<and> sw_burst_backlog s' = []"
proof -
  let ?s = "sim_start 1 None None (request_shutdown zeroed_state)"
  have "sim_ok 1 ?s"
    using zeroed_state_ok(1)
    by (simp add: sim_ok_def counted_def sim_start_def request_shutdown_def shared_ok_def)
      (simp add: zeroed_state_def worker_slot_new_def NUM_WORKERS_def)
  moreover have "(1 :: nat) < NUM_WORKERS" and "\<forall>t\<in>set [last_sim_turn]. sim_turn_ok 1 t"
    by (simp_all add: NUM_WORKERS_def sim_turn_ok_def last_sim_turn_def keeps_queue_def)
  moreover have "\<exists>s'. sim_worker_loop 1 Lifo None [last_sim_turn] ?s = Some s'"
    by (simp add: sim_one_turn_def sim_start_def last_sim_turn_def fire_burst_def serve_events_def on_slot_def
        request_shutdown_def zeroed_state_def SIM_MAX_EVENTS_def eval_nat_numeral pop_def zeroed_queue_def
        sim_end_of_turn_def shutdown_requested_def queue_is_empty_def queue_len_def NUM_WORKERS_def Let_def)
  ultimately show ?thesis using sim_worker_drains_and_counts by blast
qed

end
