(* ===== verification/Latency.thy ===== *)
theory Latency
  imports Float64 Prelude "HOL-Library.Signed_Division" "HOL-Library.Multiset"
begin

text \<open>
  Latencies as the load generator reports them (\<open>hermes-bench/src/client.rs\<close> and \<open>main.rs\<close>): the
  difference of two clock readings in microseconds, and the nearest-rank percentile of a sorted
  list, whose rank is computed in floating point. The lemmas show that the rank is exact.
\<close>

section \<open>Microseconds\<close>

text \<open>Rust's signed division truncates toward zero.\<close>

definition micros_between :: "i64 \<Rightarrow> i64 \<Rightarrow> i64" where
  "micros_between send_ns recv_ns = word_of_int (sint (recv_ns - send_ns) sdiv 1000)"

lemma sdiv_pos: "0 \<le> a \<Longrightarrow> a sdiv 1000 = a div 1000" for a :: int
  by (simp add: signed_divide_int_def sgn_if)

lemma micros_between_nonneg:
  assumes "0 \<le> sint send_ns" and "sint send_ns \<le> sint recv_ns"
  shows "sint (micros_between send_ns recv_ns) = (sint recv_ns - sint send_ns) div 1000"
proof -
  have r: "sint recv_ns < 2 ^ 63" using sint_lt [of recv_ns] by simp
  then have d: "sint (recv_ns - send_ns) = sint recv_ns - sint send_ns"
    using assms by (intro sint_diff_i64) simp_all
  have le: "a div 1000 \<le> a" if "0 \<le> a" for a :: int using that by linarith
  have "(sint recv_ns - sint send_ns) div 1000 \<le> sint recv_ns - sint send_ns"
    by (rule le) (use assms(2) in linarith)
  then have "(sint recv_ns - sint send_ns) div 1000 < 2 ^ 63" using r assms(1) by linarith
  moreover have "0 \<le> (sint recv_ns - sint send_ns) div 1000"
    using assms(2) by (simp add: pos_imp_zdiv_nonneg_iff)
  ultimately show ?thesis
    using assms(2) by (simp add: micros_between_def d sdiv_pos sint_of_int_i64)
qed

section \<open>The nearest-rank percentile\<close>

definition percentile_rank :: "nat \<Rightarrow> rat \<Rightarrow> nat" where
  "percentile_rank len p = max 1 (min (nat \<lceil>f64_mul (f64_of_int (int len)) p\<rceil>) len)"

definition percentile :: "i64 list \<Rightarrow> rat \<Rightarrow> i64" where
  "percentile sorted_values p =
     (let rank = percentile_rank (length sorted_values) p in sorted_values ! (rank - 1))"

definition P50 :: rat where "P50 = f64_round (50 / 100)"
definition P99 :: rat where "P99 = f64_round (99 / 100)"

text \<open>A probability of \<open>k\<close> percent, stored just below its exact value.\<close>

definition percent_ok :: "rat \<Rightarrow> nat \<Rightarrow> bool" where
  "percent_ok p k \<longleftrightarrow> p \<le> of_nat k / 100 \<and> of_nat k / 100 - p \<le> 1 / 2 ^ 50 \<and> 0 < p \<and> k \<le> 100"

lemma P50_ok: "percent_ok P50 50"
  unfolding percent_ok_def by code_simp

lemma P99_ok: "percent_ok P99 99"
  unfolding percent_ok_def by code_simp

lemma ceiling_rank:
  fixes n k :: nat
  assumes "0 < n" and "n \<le> 2 ^ 40" and "percent_ok p k" and "0 < k"
  shows "\<lceil>f64_mul (f64_of_int (int n)) p\<rceil> = \<lceil>rat_of_nat (k * n) / 100\<rceil>"
proof -
  define r where "r = \<lceil>rat_of_nat (k * n) / 100\<rceil>"
  have pk: "p \<le> of_nat k / 100" "of_nat k / 100 - p \<le> 1 / 2 ^ 50" "0 < p" "k \<le> 100"
    using assms(3) by (simp_all add: percent_ok_def)
  have n: "f64_of_int (int n) = rat_of_nat n"
    using assms(2) by (subst f64_of_int_exact) simp_all
  have "k * n \<le> 100 * n" using pk(4) by simp
  then have "rat_of_nat (k * n) \<le> rat_of_nat (100 * n)" by (simp only: of_nat_le_iff)
  then have "rat_of_nat (k * n) / 100 \<le> rat_of_nat n" by simp
  then have rn: "r \<le> int n" unfolding r_def by (simp add: ceiling_le_iff)
  have r0: "0 < r" using assms(1,4) by (simp add: r_def)
  have upper: "rat_of_nat n * p \<le> of_int r"
  proof -
    have "rat_of_nat n * p \<le> rat_of_nat n * (of_nat k / 100)" using pk(1) by (intro mult_left_mono) simp_all
    also have "\<dots> = rat_of_nat (k * n) / 100" by simp
    also have "\<dots> \<le> of_int r" unfolding r_def by (rule le_of_int_ceiling)
    finally show ?thesis .
  qed
  have "rat_of_int r - 1 < rat_of_nat (k * n) / 100" unfolding r_def by linarith
  then have "rat_of_int (100 * (r - 1)) < rat_of_int (int (k * n))" by simp
  then have "100 * (r - 1) < int (k * n)" by (simp only: of_int_less_iff)
  then have "100 * (r - 1) + 1 \<le> int (k * n)" by simp
  then have "rat_of_int (100 * (r - 1) + 1) \<le> rat_of_int (int (k * n))" by (simp only: of_int_le_iff)
  then have step: "of_int (r - 1) + 1 / 100 \<le> rat_of_nat (k * n) / 100" by (simp add: field_simps)
  have "rat_of_nat n * (of_nat k / 100 - p) \<le> 2 ^ 40 * (1 / 2 ^ 50)"
    using assms(2) pk(1,2) by (intro mult_mono) (simp_all flip: of_nat_power)
  then have "rat_of_nat (k * n) / 100 - rat_of_nat n * p \<le> 1 / 2 ^ 10" by (simp add: algebra_simps)
  with step have lower: "of_int (256 * (r - 1) + 1) / 2 ^ 8 \<le> rat_of_nat n * p" by (simp add: field_simps)
  have "f64_round (rat_of_nat n * p) \<le> f64_round (of_int r)" using upper by (rule f64_round_mono)
  also have "f64_round (of_int r) = of_int r"
    using rn r0 assms(2) by (intro f64_round_of_int) simp
  finally have "f64_round (rat_of_nat n * p) \<le> of_int r" .
  moreover have "of_int (r - 1) < f64_round (rat_of_nat n * p)"
  proof -
    have "of_int (r - 1) < (of_int (256 * (r - 1) + 1) / 2 ^ 8 :: rat)" by (simp add: field_simps)
    also have "\<dots> = f64_round (of_int (256 * (r - 1) + 1) / 2 ^ 8)"
      using rn r0 assms(2) by (intro f64_round_dyadic [symmetric]) simp
    also have "\<dots> \<le> f64_round (rat_of_nat n * p)" using lower by (rule f64_round_mono)
    finally show ?thesis .
  qed
  ultimately show ?thesis
    unfolding r_def [symmetric] f64_mul_def n by (simp only: ceiling_eq_iff of_int_diff of_int_1)
qed

lemma percentile_rank_exact:
  assumes "0 < n" and "n \<le> 2 ^ 40" and "percent_ok p k" and "0 < k"
  shows "0 < percentile_rank n p" and "percentile_rank n p \<le> n"
    and "k * n \<le> 100 * percentile_rank n p" and "100 * (percentile_rank n p - 1) < k * n"
proof -
  define r where "r = \<lceil>rat_of_nat (k * n) / 100\<rceil>"
  have "k \<le> 100" using assms(3) by (simp add: percent_ok_def)
  have "rat_of_nat (k * n) / 100 \<le> of_int r" and "rat_of_int r - 1 < rat_of_nat (k * n) / 100"
    unfolding r_def by linarith+
  then have "rat_of_int (int (k * n)) \<le> rat_of_int (100 * r)" and "rat_of_int (100 * (r - 1)) < rat_of_int (int (k * n))"
    by simp_all
  then have r: "int (k * n) \<le> 100 * r" "100 * (r - 1) < int (k * n)"
    by (simp_all only: of_int_le_iff of_int_less_iff)
  have "0 < int (k * n)" using assms(1,4) by simp
  then have pos: "0 < r" using r(1) by linarith
  have "k * n \<le> 100 * n" using \<open>k \<le> 100\<close> by simp
  then have "int (k * n) \<le> 100 * int n" by linarith
  with r(2) have "100 * (r - 1) < 100 * int n" by (rule less_le_trans)
  then have "r \<le> int n" by simp
  then have rank: "int (percentile_rank n p) = r"
    using pos assms(1) unfolding percentile_rank_def ceiling_rank [OF assms] r_def [symmetric] by simp
  show "0 < percentile_rank n p" using rank pos by simp
  show "percentile_rank n p \<le> n" using rank \<open>r \<le> int n\<close> by simp
  define m where "m = k * n"
  show "k * n \<le> 100 * percentile_rank n p" using rank r(1) unfolding m_def [symmetric] by linarith
  show "100 * (percentile_rank n p - 1) < k * n"
    using r(2) pos unfolding m_def [symmetric] rank [symmetric] by (cases "percentile_rank n p") simp_all
qed

lemma count_sorted_prefix:
  fixes ys :: "int list"
  assumes "sorted ys" and "i < length ys"
  shows "Suc i \<le> length (filter (\<lambda>y. y \<le> ys ! i) ys)"
    and "u < ys ! i \<Longrightarrow> length (filter (\<lambda>y. y \<le> u) ys) \<le> i"
proof -
  have "{..i} \<subseteq> {j. j < length ys \<and> ys ! j \<le> ys ! i}"
    using assms by (auto intro: sorted_nth_mono)
  then show "Suc i \<le> length (filter (\<lambda>y. y \<le> ys ! i) ys)"
    unfolding length_filter_conv_card using card_mono [of "{j. j < length ys \<and> ys ! j \<le> ys ! i}" "{..i}"] by simp
  assume u: "u < ys ! i"
  have "{j. j < length ys \<and> ys ! j \<le> u} \<subseteq> {..<i}"
  proof
    fix j assume j: "j \<in> {j. j < length ys \<and> ys ! j \<le> u}"
    have "\<not> i \<le> j" using j u sorted_nth_mono [OF assms(1), of i j] by auto
    then show "j \<in> {..<i}" by simp
  qed
  then show "length (filter (\<lambda>y. y \<le> u) ys) \<le> i"
    unfolding length_filter_conv_card using card_mono [of "{..<i}"] by fastforce
qed

lemma filter_sint: "length (filter (\<lambda>x. x \<le>s v) xs) = length (filter (\<lambda>y. y \<le> sint v) (map sint xs))" for v :: i64
  by (simp add: filter_map comp_def word_sle_eq)

lemma percentile_nearest:
  assumes "sorted (map sint xs)" and "xs \<noteq> []" and "length xs \<le> 2 ^ 40" and "percent_ok p k" and "0 < k"
  shows "percentile xs p \<in> set xs \<and>
    k * length xs \<le> 100 * length (filter (\<lambda>x. x \<le>s percentile xs p) xs) \<and>
    (\<forall>u. k * length xs \<le> 100 * length (filter (\<lambda>x. x \<le>s u) xs) \<longrightarrow> percentile xs p \<le>s u)"
proof -
  let ?n = "length xs" and ?r = "percentile_rank (length xs) p" and ?v = "percentile xs p"
  have "0 < ?n" using assms(2) by simp
  note rank = percentile_rank_exact [OF this assms(3-5)]
  have i: "?r - 1 < length (map sint xs)" using rank(1,2) by simp
  have v: "?v = xs ! (?r - 1)" by (simp add: percentile_def)
  have sv: "sint ?v = map sint xs ! (?r - 1)" using i by (simp add: v)
  have "Suc (?r - 1) \<le> length (filter (\<lambda>x. x \<le>s ?v) xs)"
    using count_sorted_prefix(1) [OF assms(1) i] by (simp only: filter_sint sv)
  then have "k * ?n \<le> 100 * length (filter (\<lambda>x. x \<le>s ?v) xs)" using rank(1,3) by linarith
  moreover have "?v \<le>s u" if "k * ?n \<le> 100 * length (filter (\<lambda>x. x \<le>s u) xs)" for u
  proof (rule ccontr)
    assume "\<not> ?v \<le>s u"
    then have "sint u < map sint xs ! (?r - 1)" by (simp only: word_sle_eq sv not_le)
    then have "length (filter (\<lambda>x. x \<le>s u) xs) \<le> ?r - 1"
      using count_sorted_prefix(2) [OF assms(1) i] by (simp only: filter_sint)
    then show False using that rank(4) by linarith
  qed
  moreover have "?v \<in> set xs" using i by (simp add: v)
  ultimately show ?thesis by blast
qed

text \<open>\<open>sort_unstable\<close> on \<open>i64\<close>: equal values are identical, so stability does not matter.\<close>

definition sort_i64 :: "i64 list \<Rightarrow> i64 list" where
  "sort_i64 xs = sort_key sint xs"

lemma sort_i64_props [simp]:
  "sorted (map sint (sort_i64 xs))" "length (sort_i64 xs) = length xs" "set (sort_i64 xs) = set xs"
  by (simp_all add: sort_i64_def)

lemma filter_sort_i64: "length (filter P (sort_i64 xs)) = length (filter P xs)"
  by (metis mset_filter mset_sort size_mset sort_i64_def)

end
