(* ===== verification/Rust_Text.thy ===== *)
theory Rust_Text
  imports Prelude
begin

text \<open>
  The parts of Rust's text formatting and parsing the program uses: integers in decimal, hexadecimal
  and binary, \<open>str::parse\<close> on \<open>usize\<close>, \<open>u64\<close> and \<open>i64\<close>, \<open>str::split\<close>, joining, \<open>writeln!\<close> and
  \<open>BufRead::lines\<close>. The locale \<open>text_field\<close> is what a reader of comma-separated lines needs of the
  writer of a column: what is printed is read back, and contains no separator.
\<close>

section \<open>Digits\<close>

definition digit_char :: "nat \<Rightarrow> char" where
  "digit_char d = char_of (if d < 10 then 48 + d else 87 + d)"

text \<open>\<open>char::to_digit\<close>: letters of both cases count from ten.\<close>

definition digit_val :: "nat \<Rightarrow> char \<Rightarrow> nat option" where
  "digit_val radix c =
     (let k = of_char c;
          d = (if 48 \<le> k \<and> k \<le> 57 then k - 48
               else if 97 \<le> k \<and> k \<le> 122 then k - 87
               else if 65 \<le> k \<and> k \<le> 90 then k - 55
               else radix)
      in if d < radix then Some d else None)"

lemma of_digit_char: "d < 36 \<Longrightarrow> of_char (digit_char d) = (if d < 10 then 48 + d else 87 + d)"
  by (simp add: digit_char_def)

lemma digit_val_char [simp]: "d < radix \<Longrightarrow> radix \<le> 36 \<Longrightarrow> digit_val radix (digit_char d) = Some d"
  by (simp add: digit_val_def of_digit_char)

section \<open>Printing\<close>

fun show_radix :: "nat \<Rightarrow> nat \<Rightarrow> string" where
  "show_radix radix n =
     (if radix < 2 \<or> n < radix then [digit_char n]
      else show_radix radix (n div radix) @ [digit_char (n mod radix)])"

declare show_radix.simps [simp del]

definition show_nat :: "nat \<Rightarrow> string" where
  "show_nat n = show_radix 10 n"

definition show_int :: "int \<Rightarrow> string" where
  "show_int i = (if i < 0 then ''-'' @ show_nat (nat (- i)) else show_nat (nat i))"

definition pad_left :: "nat \<Rightarrow> char \<Rightarrow> string \<Rightarrow> string" where
  "pad_left width c s = replicate (width - length s) c @ s"

section \<open>Parsing\<close>

fun parse_digits :: "nat \<Rightarrow> nat \<Rightarrow> string \<Rightarrow> nat option" where
  "parse_digits radix acc [] = Some acc"
| "parse_digits radix acc (c # cs) =
     (case digit_val radix c of None \<Rightarrow> None | Some d \<Rightarrow> parse_digits radix (acc * radix + d) cs)"

text \<open>\<open>parse\<close> refuses the empty string and a lone sign, and takes a leading plus.\<close>

definition parse_unsigned :: "string \<Rightarrow> nat option" where
  "parse_unsigned s =
     (let digits = (case s of c # cs \<Rightarrow> if c = CHR ''+'' then cs else s | [] \<Rightarrow> [])
      in if digits = [] then None
         else case parse_digits 10 0 digits of
           Some n \<Rightarrow> if n < 2 ^ 64 then Some n else None
         | None \<Rightarrow> None)"

definition parse_u64 :: "string \<Rightarrow> u64 option" where
  "parse_u64 s = map_option of_nat (parse_unsigned s)"

definition parse_i64 :: "string \<Rightarrow> i64 option" where
  "parse_i64 s =
     (let negative = (s \<noteq> [] \<and> hd s = CHR ''-'');
          digits = (case s of c # cs \<Rightarrow> if c = CHR ''+'' \<or> c = CHR ''-'' then cs else s | [] \<Rightarrow> [])
      in if digits = [] then None
         else case parse_digits 10 0 digits of
           Some n \<Rightarrow>
             if negative then (if n \<le> 2 ^ 63 then Some (word_of_int (- int n)) else None)
             else if n < 2 ^ 63 then Some (of_nat n) else None
         | None \<Rightarrow> None)"

section \<open>What is printed is read back\<close>

lemma parse_digits_append:
  "parse_digits radix acc (xs @ ys) = Option.bind (parse_digits radix acc xs) (\<lambda>n. parse_digits radix n ys)"
  by (induction xs arbitrary: acc) (auto split: option.splits)

lemma parse_show_radix:
  assumes "2 \<le> radix" and "radix \<le> 36"
  shows "parse_digits radix acc (show_radix radix n) = Some (acc * radix ^ length (show_radix radix n) + n)"
  using assms
proof (induction radix n arbitrary: acc rule: show_radix.induct)
  case (1 radix n)
  show ?case
  proof (cases "n < radix")
    case True
    then show ?thesis using 1 by (simp add: show_radix.simps [of radix n])
  next
    case False
    then have "radix * (n div radix) + n mod radix = n" by simp
    then show ?thesis
      using 1 False by (simp add: show_radix.simps [of radix n] parse_digits_append algebra_simps)
  qed
qed

lemma show_radix_not_empty [simp]: "show_radix radix n \<noteq> []"
  by (subst show_radix.simps) simp

lemma show_radix_digits:
  "2 \<le> radix \<Longrightarrow> c \<in> set (show_radix radix n) \<Longrightarrow> \<exists>d<radix. c = digit_char d"
proof (induction radix n rule: show_radix.induct)
  case (1 radix n)
  then show ?case by (auto simp: show_radix.simps [of radix n] split: if_splits intro: exI [of _ "n mod radix"])
qed

lemma parse_pad:
  "parse_digits radix 0 (replicate k (CHR ''0'') @ s) = parse_digits radix 0 s" if "2 \<le> radix"
proof (induction k)
  case (Suc k)
  have "digit_val radix (CHR ''0'') = Some 0" using that by (simp add: digit_val_def)
  then show ?case using Suc by simp
qed simp

lemma parse_padded_radix:
  "2 \<le> radix \<Longrightarrow> radix \<le> 36 \<Longrightarrow>
    parse_digits radix 0 (pad_left width (CHR ''0'') (show_radix radix n)) = Some n"
  by (simp add: pad_left_def parse_pad parse_show_radix)

text \<open>Characters that end a column, a line or a component.\<close>

definition separator :: "char \<Rightarrow> bool" where
  "separator c \<longleftrightarrow> c \<in> {CHR '','', CHR '':'', CHR 0x0A, CHR 0x0D}"

definition plain :: "string \<Rightarrow> bool" where
  "plain s \<longleftrightarrow> s \<noteq> [] \<and> (\<forall>c\<in>set s. \<not> separator c)"

lemma digit_not_separator: "d < 36 \<Longrightarrow> \<not> separator (digit_char d) \<and> digit_char d \<notin> {CHR ''+'', CHR ''-''}"
proof -
  assume d: "d < 36"
  have "digit_char d = c \<Longrightarrow> of_char c = (if d < 10 then 48 + d else 87 + d)" for c
    using of_digit_char [OF d] by simp
  from this [of "CHR '',''"] this [of "CHR '':''"] this [of "CHR 0x0A"] this [of "CHR 0x0D"]
    this [of "CHR ''+''"] this [of "CHR ''-''"]
  show ?thesis using d by (auto simp: separator_def split: if_splits)
qed

lemma show_nat_chars: "c \<in> set (show_nat n) \<Longrightarrow> \<not> separator c \<and> c \<notin> {CHR ''+'', CHR ''-''}"
  unfolding show_nat_def using show_radix_digits [of 10 c n] digit_not_separator by fastforce

lemma plain_show_nat [simp]: "plain (show_nat n)"
  using show_nat_chars by (auto simp: plain_def show_nat_def)

lemma plain_show_int [simp]: "plain (show_int i)"
  using show_nat_chars by (auto simp: plain_def show_int_def separator_def show_nat_def)

lemma parse_show_nat [simp]: "parse_digits 10 0 (show_nat n) = Some n"
  by (simp add: show_nat_def parse_show_radix)

lemma show_nat_head:
  obtains c cs where "show_nat n = c # cs" and "c \<notin> {CHR ''+'', CHR ''-''}"
proof (cases "show_nat n")
  case (Cons c cs)
  then show ?thesis using show_nat_chars [of c n] that by simp
qed (simp add: show_nat_def)

lemma parse_unsigned_show: "n < 2 ^ 64 \<Longrightarrow> parse_unsigned (show_nat n) = Some n"
proof -
  assume n: "n < 2 ^ 64"
  obtain c cs where s: "show_nat n = c # cs" "c \<notin> {CHR ''+'', CHR ''-''}" by (rule show_nat_head)
  then have "parse_digits 10 0 (c # cs) = Some n" by (metis parse_show_nat)
  then show ?thesis using s n by (simp add: parse_unsigned_def del: parse_digits.simps)
qed

lemma parse_i64_show: "parse_i64 (show_int (sint w)) = Some w"
proof -
  have lo: "- (2 ^ 63) \<le> sint w" and hi: "sint w < 2 ^ 63" using sint_ge [of w] sint_lt [of w] by simp_all
  show ?thesis
  proof (cases "sint w < 0")
    case True
    have "nat (- sint w) \<le> 2 ^ 63" using lo by simp
    then show ?thesis using True by (simp add: parse_i64_def show_int_def show_nat_def parse_show_radix)
  next
    case False
    obtain c cs where s: "show_nat (nat (sint w)) = c # cs" "c \<notin> {CHR ''+'', CHR ''-''}" by (rule show_nat_head)
    then have p: "parse_digits 10 0 (c # cs) = Some (nat (sint w))" by (metis parse_show_nat)
    have "nat (sint w) < 2 ^ 63" using hi by simp
    then show ?thesis
      using False s p by (simp add: parse_i64_def show_int_def word_of_int_nat del: parse_digits.simps)
  qed
qed

section \<open>Splitting and joining\<close>

fun split_on :: "char \<Rightarrow> string \<Rightarrow> string list" where
  "split_on c [] = [[]]"
| "split_on c (x # xs) =
     (if x = c then [] # split_on c xs
      else case split_on c xs of w # ws \<Rightarrow> (x # w) # ws | [] \<Rightarrow> [[x]])"

fun join_with :: "string \<Rightarrow> string list \<Rightarrow> string" where
  "join_with sep [] = []"
| "join_with sep [s] = s"
| "join_with sep (s # t # ss) = s @ sep @ join_with sep (t # ss)"

lemma split_on_not_empty [simp]: "split_on c s \<noteq> []"
  by (induction s) (auto split: list.splits)

lemma split_on_plain: "c \<notin> set s \<Longrightarrow> split_on c s = [s]"
  by (induction s) auto

lemma split_on_append: "c \<notin> set s \<Longrightarrow> split_on c (s @ c # t) = s # split_on c t"
  by (induction s) auto

lemma split_join: "ss \<noteq> [] \<Longrightarrow> \<forall>s\<in>set ss. c \<notin> set s \<Longrightarrow> split_on c (join_with [c] ss) = ss"
  by (induction "[c]" ss rule: join_with.induct) (simp_all add: split_on_plain split_on_append)

lemma split_join_plain: "ss \<noteq> [] \<Longrightarrow> \<forall>s\<in>set ss. plain s \<Longrightarrow> split_on (CHR '','') (join_with '','' ss) = ss"
  by (rule split_join) (auto simp: plain_def separator_def)

lemma set_join_with: "set (join_with sep ss) \<subseteq> set sep \<union> \<Union> (set ` set ss)"
  by (induction sep ss rule: join_with.induct) auto

lemma join_with_append:
  "ss \<noteq> [] \<Longrightarrow> join_with sep (ss @ ts) = join_with sep ss @ concat (map (\<lambda>t. sep @ t) ts)"
proof (induction sep ss rule: join_with.induct)
  case (2 sep s)
  show ?case
  proof (induction ts arbitrary: s)
    case (Cons t ts)
    then show ?case by simp
  qed simp
qed simp_all

section \<open>Lines of a file\<close>

definition write_line :: "string \<Rightarrow> string" where
  "write_line s = s @ [CHR 0x0A]"

definition strip_cr :: "string \<Rightarrow> string" where
  "strip_cr s = (if s \<noteq> [] \<and> last s = CHR 0x0D then butlast s else s)"

text \<open>\<open>BufRead::lines\<close>: an unterminated last line counts unless it is empty.\<close>

definition file_lines :: "string \<Rightarrow> string list" where
  "file_lines s =
     (let pieces = split_on (CHR 0x0A) s
      in map strip_cr (butlast pieces) @ (if last pieces = [] then [] else [last pieces]))"

definition clean_line :: "string \<Rightarrow> bool" where
  "clean_line s \<longleftrightarrow> CHR 0x0A \<notin> set s \<and> CHR 0x0D \<notin> set s"

lemma strip_cr_clean [simp]: "clean_line s \<Longrightarrow> strip_cr s = s"
  unfolding clean_line_def strip_cr_def using last_in_set [of s] by metis

lemma split_written: "\<forall>l\<in>set ls. clean_line l \<Longrightarrow> split_on (CHR 0x0A) (concat (map write_line ls)) = ls @ [[]]"
  by (induction ls) (simp_all add: write_line_def clean_line_def split_on_append)

lemma lines_written: "\<forall>l\<in>set ls. clean_line l \<Longrightarrow> file_lines (concat (map write_line ls)) = ls"
  by (simp add: file_lines_def split_written) (simp add: map_idI)

lemma clean_join:
  "\<forall>s\<in>set ss. plain s \<Longrightarrow> clean_line (join_with '','' ss)"
  using set_join_with [of "'',''" ss] by (auto simp: clean_line_def plain_def separator_def)

section \<open>A column\<close>

locale text_field =
  fixes print :: "'a \<Rightarrow> string" and parse :: "string \<Rightarrow> 'a option" and ok :: "'a \<Rightarrow> bool"
  assumes parse_print: "ok x \<Longrightarrow> parse (print x) = Some x"
    and plain_print: "ok x \<Longrightarrow> plain (print x)"
begin

lemma print_inject: "ok x \<Longrightarrow> ok y \<Longrightarrow> print x = print y \<longleftrightarrow> x = y"
  using parse_print by (metis option.inject)

lemma read_column:
  assumes "ok x" and "\<forall>s\<in>set ss. plain s" and "k < length ss" and "ss ! k = print x"
  shows "parse (split_on (CHR '','') (join_with '','' ss) ! k) = Some x"
proof -
  have "ss \<noteq> []" using assms(3) by auto
  then show ?thesis using split_join_plain [OF _ assms(2)] assms(1,4) parse_print by simp
qed

text \<open>A list of values is read back from its joined line.\<close>

lemma read_all:
  assumes "xs \<noteq> []" and "\<forall>x\<in>set xs. ok x"
  shows "those (map parse (split_on (CHR '','') (join_with '','' (map print xs)))) = Some xs"
proof -
  have "split_on (CHR '','') (join_with '','' (map print xs)) = map print xs"
    using assms plain_print by (intro split_join_plain) auto
  moreover have "those (map (parse \<circ> print) xs) = Some xs"
    using assms(2) parse_print by (induction xs) simp_all
  ultimately show ?thesis by simp
qed

end

interpretation usize_text: text_field show_nat parse_unsigned "\<lambda>n. n < 2 ^ 64"
  by unfold_locales (simp_all add: parse_unsigned_show)

interpretation u64_text: text_field "\<lambda>w. show_nat (unat w)" parse_u64 "\<lambda>w. True"
proof
  show "parse_u64 (show_nat (unat w)) = Some w" for w :: u64
  proof -
    have "unat w < 2 ^ 64" using unsigned_less [of w] by simp
    then show ?thesis by (simp add: parse_u64_def parse_unsigned_show)
  qed
qed simp

interpretation i64_text: text_field "\<lambda>w. show_int (sint w)" parse_i64 "\<lambda>w. True"
  by unfold_locales (simp_all add: parse_i64_show)

section \<open>Paths\<close>

text \<open>\<open>join\<close> of a relative path.\<close>

definition path_join :: "string \<Rightarrow> string \<Rightarrow> string" where
  "path_join dir name = (if dir = [] \<or> last dir = CHR ''/'' then dir @ name else dir @ ''/'' @ name)"

lemma path_join_inject: "path_join dir a = path_join dir b \<longleftrightarrow> a = b"
  by (simp add: path_join_def)

lemma show_nat_inject: "show_nat m = show_nat n \<longleftrightarrow> m = n"
  by (metis option.inject parse_show_nat)

end
