(* ===== verification/Balance.thy ===== *)
theory Balance
  imports Float64 Rust_Text
begin

text \<open>
  The balance measure of the reports, \<open>std_dev\<close> of \<open>hermes/src/metrics.rs\<close> and
  \<open>userspace_simulation/src/metrics.rs\<close>, and its printing with three decimals. \<open>f64::sqrt\<close> is
  correctly rounded: the nearest multiple of the result's unit in the last place, found from an
  integer square root. For one value per worker and loads up to \<open>2 ^ 22\<close> every step before the
  root is exact, so the measure is the rounded root of the exact variance.
\<close>

section \<open>Square roots\<close>

fun isqrt :: "nat \<Rightarrow> nat" where
  "isqrt n =
     (if n = 0 then 0
      else let r = 2 * isqrt (n div 4) in if (r + 1) * (r + 1) \<le> n then r + 1 else r)"

declare isqrt.simps [simp del]

lemma isqrt_bounds: "isqrt n * isqrt n \<le> n \<and> n < (isqrt n + 1) * (isqrt n + 1)"
proof (induction n rule: isqrt.induct)
  case (1 n)
  show ?case
  proof (cases "n = 0")
    case False
    define r where "r = isqrt (n div 4)"
    have "r * r \<le> n div 4" "n div 4 < (r + 1) * (r + 1)" using 1 False by (simp_all add: r_def)
    then have "2 * r * (2 * r) \<le> n" "n < (2 * r + 2) * (2 * r + 2)"
      by (simp_all add: algebra_simps)
    then show ?thesis
      using False unfolding isqrt.simps [of n] Let_def r_def [symmetric] by (simp add: algebra_simps)
  qed (simp add: isqrt.simps)
qed

definition f64_sqrt :: "rat \<Rightarrow> rat" where
  "f64_sqrt x =
     (if x \<le> 0 then 0
      else let u = 2 powi (f64_exp x div 2 - 52);
               q = x / (u * u);
               n = isqrt (nat \<lfloor>q\<rfloor>);
               mid = (of_nat n + 1 / 2) * (of_nat n + 1 / 2)
           in of_nat (if q < mid \<or> q = mid \<and> even n then n else n + 1) * u)"

lemma isqrt_floor:
  assumes "0 \<le> (q :: rat)"
  shows "of_nat (isqrt (nat \<lfloor>q\<rfloor>)) * of_nat (isqrt (nat \<lfloor>q\<rfloor>)) \<le> q"
    and "q < (of_nat (isqrt (nat \<lfloor>q\<rfloor>)) + 1) * (of_nat (isqrt (nat \<lfloor>q\<rfloor>)) + 1)"
proof -
  define n where "n = isqrt (nat \<lfloor>q\<rfloor>)"
  have b: "n * n \<le> nat \<lfloor>q\<rfloor>" "nat \<lfloor>q\<rfloor> < (n + 1) * (n + 1)"
    using isqrt_bounds [of "nat \<lfloor>q\<rfloor>"] by (simp_all add: n_def)
  have f: "of_nat (nat \<lfloor>q\<rfloor>) \<le> q" "q < of_nat (nat \<lfloor>q\<rfloor>) + 1" using assms by linarith+
  have "of_nat (n * n) \<le> (of_nat (nat \<lfloor>q\<rfloor>) :: rat)" using b(1) by (simp only: of_nat_le_iff)
  then show "of_nat n * of_nat n \<le> q" using f(1) by simp
  have "of_nat (nat \<lfloor>q\<rfloor> + 1) \<le> (of_nat ((n + 1) * (n + 1)) :: rat)" using b(2) by (simp only: of_nat_le_iff)
  then have "of_nat (nat \<lfloor>q\<rfloor>) + 1 \<le> (of_nat n + 1) * (of_nat n + (1 :: rat))"
    by (simp only: of_nat_add of_nat_mult of_nat_1)
  with f(2) show "q < (of_nat n + 1) * (of_nat n + 1)" by (rule less_le_trans)
qed

text \<open>The root lies within half a unit of the result, and the result has 53 significant bits.\<close>

lemma f64_sqrt_bounds:
  assumes "0 < x"
  defines "u \<equiv> 2 powi (f64_exp x div 2 - 52)"
  shows "2 ^ 52 * u \<le> f64_sqrt x"
    and "(f64_sqrt x - u / 2) * (f64_sqrt x - u / 2) \<le> x" and "x \<le> (f64_sqrt x + u / 2) * (f64_sqrt x + u / 2)"
proof -
  define q n where "q = x / (u * u)" and "n = isqrt (nat \<lfloor>q\<rfloor>)"
  define mid where "mid = (of_nat n + 1 / 2) * (of_nat n + 1 / (2 :: rat))"
  define m where "m = (if q < mid \<or> q = mid \<and> even n then n else n + 1)"
  have u: "0 < u" by (simp add: u_def)
  have s: "f64_sqrt x = of_nat m * u"
    using assms(1) unfolding f64_sqrt_def Let_def m_def mid_def n_def q_def u_def by simp
  have q0: "0 \<le> q" using assms(1) u by (simp add: q_def)
  note fl = isqrt_floor [OF q0, folded n_def]
  have x: "x = q * (u * u)" using u by (simp add: q_def)
  have large: "2 ^ 52 \<le> (of_nat n :: rat)"
  proof -
    define h :: rat where "h = 2 powi (f64_exp x div 2)"
    have "h * h = (2 :: rat) powi (2 * (f64_exp x div 2))" by (simp only: h_def powi2_add [symmetric] mult_2)
    also have "\<dots> \<le> 2 powi (f64_exp x)" by (rule powi2_mono) simp
    also have "\<dots> \<le> x" using f64_exp_bounds(1) [of x] assms(1) by simp
    finally have "h * h \<le> x" .
    moreover have "h = 2 ^ 52 * u"
      using powi2_add [of "f64_exp x div 2 - 52" 52] by (simp add: h_def u_def)
    ultimately have "(2 ^ 52 * 2 ^ 52) * (u * u) \<le> q * (u * u)" by (simp add: x algebra_simps)
    then have "2 ^ 52 * 2 ^ 52 \<le> q" using u by (simp add: mult_le_cancel_right)
    then have "2 ^ 52 * 2 ^ 52 < (of_nat n + 1) * (of_nat n + (1 :: rat))" using fl(2) by (rule le_less_trans)
    then have "rat_of_nat (2 ^ 52 * 2 ^ 52) < rat_of_nat ((n + 1) * (n + 1))"
      by (simp only: of_nat_mult of_nat_add of_nat_power of_nat_1 of_nat_numeral)
    then have "2 ^ 52 * 2 ^ 52 < (n + 1) * (n + 1)" by (simp only: of_nat_less_iff)
    then have "\<not> n + 1 \<le> 2 ^ 52" using mult_le_mono [of "n + 1" "2 ^ 52" "n + 1" "2 ^ 52"] by linarith
    then have "2 ^ 52 \<le> n" by linarith
    then have "rat_of_nat (2 ^ 52) \<le> rat_of_nat n" by (simp only: of_nat_le_iff)
    then show ?thesis by simp
  qed
  have lo: "(of_nat m - 1 / 2) * (of_nat m - 1 / 2) \<le> q"
  proof (cases "m = n")
    case True
    have "(of_nat n - 1 / 2) * (of_nat n - 1 / 2) \<le> of_nat n * (of_nat n :: rat)"
      using large by (intro mult_mono) simp_all
    then show ?thesis using fl(1) True by simp
  next
    case False
    then have "m = n + 1" "\<not> q < mid" by (auto simp: m_def split: if_splits)
    then show ?thesis by (simp add: mid_def not_less algebra_simps)
  qed
  have hi: "q \<le> (of_nat m + 1 / 2) * (of_nat m + 1 / 2)"
  proof (cases "m = n")
    case True
    then show ?thesis by (auto simp: m_def mid_def split: if_splits)
  next
    case False
    then have "m = n + 1" by (auto simp: m_def split: if_splits)
    then show ?thesis
      using fl(2) order.trans [of q "(of_nat n + 1) * (of_nat n + 1)" "(of_nat m + 1 / 2) * (of_nat m + 1 / 2)"]
      by (simp add: algebra_simps)
  qed
  have "n \<le> m" by (simp add: m_def)
  then have "(of_nat n :: rat) \<le> of_nat m" by simp
  then have "2 ^ 52 \<le> (of_nat m :: rat)" using large by (rule order_trans [rotated])
  then show "2 ^ 52 * u \<le> f64_sqrt x" using u unfolding s by (intro mult_right_mono) simp_all
  have "(of_nat m * u - u / 2) * (of_nat m * u - u / 2) \<le> q * (u * u)"
    using mult_right_mono [OF lo, of "u * u"] u by (simp add: algebra_simps)
  then show "(f64_sqrt x - u / 2) * (f64_sqrt x - u / 2) \<le> x" unfolding s x [symmetric] .
  have "q * (u * u) \<le> (of_nat m * u + u / 2) * (of_nat m * u + u / 2)"
    using mult_right_mono [OF hi, of "u * u"] u by (simp add: algebra_simps)
  then show "x \<le> (f64_sqrt x + u / 2) * (f64_sqrt x + u / 2)" unfolding s x [symmetric] .
qed

section \<open>The deviation\<close>

definition f64_sub :: "rat \<Rightarrow> rat \<Rightarrow> rat" where
  "f64_sub a b = f64_round (a - b)"

definition std_dev :: "i64 list \<Rightarrow> rat" where
  "std_dev values =
     (if values = [] then 0
      else let n = f64_of_int (int (length values));
               mean = f64_div (f64_of_int (sint (sum_list values))) n;
               squares = map (\<lambda>v. let d = f64_sub (f64_of_int (sint v)) mean in f64_mul d d) values;
               variance = f64_div (fold (\<lambda>x total. f64_add total x) squares 0) n
           in f64_sqrt variance)"

definition exact_variance :: "i64 list \<Rightarrow> rat" where
  "exact_variance values =
     (let n = of_nat (length values);
          mean = of_int (sum_list (map sint values)) / n
      in sum_list (map (\<lambda>v. (of_int (sint v) - mean) * (of_int (sint v) - mean)) values) / n)"

definition modest :: "i64 list \<Rightarrow> bool" where
  "modest values \<longleftrightarrow> length values = NUM_WORKERS \<and> (\<forall>v\<in>set values. \<bar>sint v\<bar> \<le> 2 ^ 22)"

lemma modest_not_empty: "modest values \<Longrightarrow> values \<noteq> []"
  by (auto simp: modest_def NUM_WORKERS_def)

lemma four_values: "length xs = NUM_WORKERS \<Longrightarrow> \<exists>a b c d. xs = [a, b, c, d]"
  by (auto simp: NUM_WORKERS_def length_Suc_conv eval_nat_numeral)

lemma sint_add_small: "\<bar>sint a\<bar> \<le> 2 ^ 40 \<Longrightarrow> \<bar>sint b\<bar> \<le> 2 ^ 40 \<Longrightarrow> sint (a + b) = sint a + sint b" for a b :: i64
  by (intro sint_add_i64) simp_all

lemma sum_modest:
  fixes a b c d :: i64
  assumes "\<bar>sint a\<bar> \<le> 2 ^ 22" "\<bar>sint b\<bar> \<le> 2 ^ 22" "\<bar>sint c\<bar> \<le> 2 ^ 22" "\<bar>sint d\<bar> \<le> 2 ^ 22"
  shows "sint (sum_list [a, b, c, d]) = sint a + sint b + sint c + sint d"
proof -
  have "sint (c + d) = sint c + sint d" using assms by (intro sint_add_small) simp_all
  moreover from this have "sint (b + (c + d)) = sint b + (sint c + sint d)" using assms by (subst sint_add_small) simp_all
  moreover from this have "sint (a + (b + (c + d))) = sint a + (sint b + (sint c + sint d))"
    using assms by (subst sint_add_small) simp_all
  ultimately show ?thesis by simp
qed

lemma dyadic_add:
  "\<bar>m\<bar> \<le> 2 ^ 52 \<Longrightarrow> \<bar>n\<bar> \<le> 2 ^ 52 \<Longrightarrow> f64_add (of_int m / 2 ^ k) (of_int n / 2 ^ k) = of_int (m + n) / 2 ^ k"
  using f64_round_dyadic [of "m + n" k] by (simp add: f64_add_def add_divide_distrib)

lemma dyadic_square:
  assumes "\<bar>n\<bar> \<le> 2 ^ 25"
  shows "f64_mul (of_int n / 4) (of_int n / 4) = of_int (n * n) / 2 ^ 4"
proof -
  have "\<bar>n * n\<bar> \<le> 2 ^ 25 * 2 ^ 25" unfolding abs_mult using assms by (intro mult_mono) simp_all
  then show ?thesis using f64_round_dyadic [of "n * n" 4] by (simp add: f64_mul_def)
qed

lemma dyadic_dev:
  assumes "\<bar>v\<bar> \<le> 2 ^ 22" and "\<bar>S\<bar> \<le> 2 ^ 24"
  shows "f64_sub (f64_of_int v) (of_int S / 4) = of_int (4 * v - S) / 4"
proof -
  have "\<bar>4 * v - S\<bar> \<le> 2 ^ 53" using assms by simp
  then show ?thesis using assms f64_round_dyadic [of "4 * v - S" 2] by (simp add: f64_sub_def diff_divide_distrib)
qed

text \<open>Every step before the root is exact.\<close>

lemma std_dev_exact:
  assumes "modest values"
  shows "std_dev values = f64_sqrt (exact_variance values)"
proof -
  have "length values = NUM_WORKERS" using assms by (simp add: modest_def)
  from four_values [OF this] obtain a b c d where v: "values = [a, b, c, d]" by blast
  have m: "\<bar>sint a\<bar> \<le> 2 ^ 22" "\<bar>sint b\<bar> \<le> 2 ^ 22" "\<bar>sint c\<bar> \<le> 2 ^ 22" "\<bar>sint d\<bar> \<le> 2 ^ 22"
    using assms by (simp_all add: modest_def v)
  define S where "S = sint a + sint b + sint c + sint d"
  have S: "\<bar>S\<bar> \<le> 2 ^ 24" using m by (simp add: S_def)
  have mean: "f64_div (f64_of_int S) (f64_of_int 4) = of_int S / 4"
    using S f64_round_dyadic [of S 2] by (simp add: f64_div_def)
  define sq where "sq x = (4 * x - S) * (4 * x - S)" for x
  have dev: "\<bar>4 * x - S\<bar> \<le> 2 ^ 25" if "\<bar>x\<bar> \<le> 2 ^ 22" for x using that S by simp
  have sq: "0 \<le> sq x \<and> sq x \<le> 2 ^ 50" if "\<bar>x\<bar> \<le> 2 ^ 22" for x
  proof -
    have "\<bar>4 * x - S\<bar> * \<bar>4 * x - S\<bar> \<le> 2 ^ 25 * 2 ^ 25" using dev [OF that] by (intro mult_mono) simp_all
    then show ?thesis by (simp add: sq_def abs_mult_self_eq)
  qed
  have square: "(let e = f64_sub (f64_of_int x) (of_int S / 4) in f64_mul e e) = of_int (sq x) / 2 ^ 4"
    if "\<bar>x\<bar> \<le> 2 ^ 22" for x
    unfolding dyadic_dev [OF that S] Let_def sq_def by (rule dyadic_square [OF dev [OF that]])
  note sqs = sq [OF m(1)] sq [OF m(2)] sq [OF m(3)] sq [OF m(4)]
  have total: "fold (\<lambda>x t. f64_add t x) (map (\<lambda>x. of_int (sq x) / 2 ^ 4) [sint a, sint b, sint c, sint d]) 0 =
      of_int (sq (sint a) + sq (sint b) + sq (sint c) + sq (sint d)) / 2 ^ 4"
  proof -
    have "f64_add 0 (of_int (sq (sint a)) / 2 ^ 4) = of_int (sq (sint a)) / 2 ^ 4"
      using sqs dyadic_add [of 0 "sq (sint a)" 4] by simp
    moreover have "f64_add (of_int (sq (sint a)) / 2 ^ 4) (of_int (sq (sint b)) / 2 ^ 4) =
        of_int (sq (sint a) + sq (sint b)) / 2 ^ 4"
      using sqs by (intro dyadic_add) simp_all
    moreover have "f64_add (of_int (sq (sint a) + sq (sint b)) / 2 ^ 4) (of_int (sq (sint c)) / 2 ^ 4) =
        of_int (sq (sint a) + sq (sint b) + sq (sint c)) / 2 ^ 4"
      using sqs by (intro dyadic_add) simp_all
    moreover have "f64_add (of_int (sq (sint a) + sq (sint b) + sq (sint c)) / 2 ^ 4) (of_int (sq (sint d)) / 2 ^ 4) =
        of_int (sq (sint a) + sq (sint b) + sq (sint c) + sq (sint d)) / 2 ^ 4"
      using sqs by (intro dyadic_add) simp_all
    ultimately show ?thesis by (simp only: list.map fold_simps)
  qed
  have variance: "f64_div (of_int (sq (sint a) + sq (sint b) + sq (sint c) + sq (sint d)) / 2 ^ 4) (f64_of_int 4) =
      of_int (sq (sint a) + sq (sint b) + sq (sint c) + sq (sint d)) / 2 ^ 6"
    using sqs f64_round_dyadic [of "sq (sint a) + sq (sint b) + sq (sint c) + sq (sint d)" 6]
    by (simp add: f64_div_def)
  have "map (\<lambda>v. let e = f64_sub (f64_of_int (sint v)) (of_int S / 4) in f64_mul e e) values =
      map (\<lambda>x. of_int (sq x) / 2 ^ 4) [sint a, sint b, sint c, sint d]"
    by (simp only: v list.map square [OF m(1)] square [OF m(2)] square [OF m(3)] square [OF m(4)])
  moreover have "f64_div (f64_of_int (sint (sum_list values))) (f64_of_int (int (length values))) = of_int S / 4"
    and "int (length values) = 4" and "values \<noteq> []"
    using mean sum_modest [OF m] by (simp_all add: v S_def)
  ultimately have "std_dev values = f64_sqrt (of_int (sq (sint a) + sq (sint b) + sq (sint c) + sq (sint d)) / 2 ^ 6)"
    unfolding std_dev_def Let_def by (simp only: if_False total variance)
  also have "of_int (sq (sint a) + sq (sint b) + sq (sint c) + sq (sint d)) / 2 ^ 6 = exact_variance values"
    unfolding exact_variance_def v Let_def sq_def by (simp add: S_def field_simps)
  finally show ?thesis .
qed

lemma exact_variance_zero:
  assumes "values \<noteq> []"
  shows "exact_variance values = 0 \<longleftrightarrow> (\<forall>v\<in>set values. v = hd values)"
proof -
  define n where "n = (of_nat (length values) :: rat)"
  define mean where "mean = of_int (sum_list (map sint values)) / n"
  have n: "n \<noteq> 0" using assms by (simp add: n_def)
  have "exact_variance values = 0 \<longleftrightarrow>
      sum_list (map (\<lambda>v. (of_int (sint v) - mean) * (of_int (sint v) - mean)) values) = 0"
    using n unfolding exact_variance_def Let_def n_def mean_def by simp
  also have "\<dots> \<longleftrightarrow> (\<forall>v\<in>set values. of_int (sint v) = mean)"
    by (subst sum_list_nonneg_eq_0_iff) auto
  also have "\<dots> \<longleftrightarrow> (\<forall>v\<in>set values. v = hd values)"
  proof
    assume l: "\<forall>v\<in>set values. of_int (sint v) = mean"
    show "\<forall>v\<in>set values. v = hd values"
    proof
      fix v assume "v \<in> set values"
      then have "(of_int (sint v) :: rat) = of_int (sint (hd values))" using l assms by simp
      then have "sint v = sint (hd values)" by (simp only: of_int_eq_iff)
      then show "v = hd values" by (rule signed_word_eqI)
    qed
  next
    assume r: "\<forall>v\<in>set values. v = hd values"
    then have "map sint values = replicate (length values) (sint (hd values))"
      by (intro replicate_eqI) auto
    then have "mean = of_int (sint (hd values))" using n by (simp add: mean_def n_def sum_list_replicate)
    with r show "\<forall>v\<in>set values. of_int (sint v) = mean" by metis
  qed
  finally show ?thesis .
qed

lemma exact_variance_nonneg: "0 \<le> exact_variance values"
  by (auto simp: exact_variance_def Let_def intro!: divide_nonneg_nonneg sum_list_nonneg)

lemma f64_sqrt_close:
  assumes "0 < x"
  shows "0 < f64_sqrt x" and "\<bar>f64_sqrt x * f64_sqrt x - x\<bar> \<le> f64_sqrt x * f64_sqrt x / 2 ^ 51"
proof -
  define u where "u = (2 powi (f64_exp x div 2 - 52) :: rat)"
  define s where "s = f64_sqrt x"
  have b: "2 ^ 52 * u \<le> s" "(s - u / 2) * (s - u / 2) \<le> x" "x \<le> (s + u / 2) * (s + u / 2)"
    using f64_sqrt_bounds [OF assms] by (simp_all add: u_def s_def)
  have u: "0 < u" by (simp add: u_def)
  then have "0 < 2 ^ 52 * u" by simp
  then have s: "0 < s" using b(1) by (rule less_le_trans)
  then show "0 < f64_sqrt x" by (simp add: s_def)
  have us: "u \<le> s / 2 ^ 52" using b(1) by (simp add: field_simps)
  have "s * u \<le> s * (s / 2 ^ 52)" using us s by (intro mult_left_mono) simp_all
  moreover have "u * u \<le> s * (s / 2 ^ 52)" using us s u by (intro mult_mono) (simp_all add: field_simps)
  ultimately have "s * u * 4503599627370496 \<le> s * s" "u * u * 4503599627370496 \<le> s * s" by simp_all
  moreover have "0 \<le> u * u" by simp
  moreover have "s * s + u * u / 4 \<le> x + s * u" "x \<le> s * s + (s * u + u * u / 4)"
    using b(2,3) by (simp_all add: algebra_simps)
  ultimately have "(s * s - x) * 2251799813685248 \<le> s * s" and "(x - s * s) * 2251799813685248 \<le> s * s"
    unfolding left_diff_distrib by linarith+
  then have "\<bar>s * s - x\<bar> * 2251799813685248 \<le> s * s" by (simp add: abs_if)
  then have "\<bar>s * s - x\<bar> \<le> s * s / 2 ^ 51" by (simp add: field_simps)
  then show "\<bar>f64_sqrt x * f64_sqrt x - x\<bar> \<le> f64_sqrt x * f64_sqrt x / 2 ^ 51" by (simp add: s_def)
qed

section \<open>Fixed decimals\<close>

text \<open>\<open>{:.k}\<close>: the exact value rounded to \<open>k\<close> decimals, ties to even; the sign is kept.\<close>

definition show_fixed :: "nat \<Rightarrow> rat \<Rightarrow> string" where
  "show_fixed k x =
     (let n = nat (round_even (\<bar>x\<bar> * 10 ^ k))
      in (if x < 0 then ''-'' else []) @ show_nat (n div 10 ^ k) @ ''.'' @
         pad_left k (CHR ''0'') (show_nat (n mod 10 ^ k)))"

lemma plain_show_fixed [simp]: "plain (show_fixed k x)"
  using show_nat_chars
  by (auto simp: show_fixed_def Let_def plain_def pad_left_def separator_def)

section \<open>Properties\<close>

text \<open>
  C37: The reported imbalance is exact up to its last rounding: for the worker count of the program
  and loads within \<open>2 ^ 22\<close>, \<open>std_dev\<close> is zero exactly when all workers carry the same load, never
  negative, and its square differs from the exact population variance by at most one part in
  \<open>2 ^ 51\<close>.
\<close>

theorem std_dev_measures_imbalance:
  assumes "modest values"
  shows "(std_dev values = 0 \<longleftrightarrow> (\<forall>v\<in>set values. v = hd values)) \<and> 0 \<le> std_dev values \<and>
    \<bar>std_dev values * std_dev values - exact_variance values\<bar> \<le> std_dev values * std_dev values / 2 ^ 51"
proof (cases "exact_variance values = 0")
  case True
  then have "\<forall>v\<in>set values. v = hd values" by (simp add: exact_variance_zero [OF modest_not_empty [OF assms]])
  then show ?thesis using True by (simp add: std_dev_exact [OF assms] f64_sqrt_def)
next
  case False
  then have "\<not> (\<forall>v\<in>set values. v = hd values)"
    by (simp add: exact_variance_zero [OF modest_not_empty [OF assms]])
  moreover have "0 < exact_variance values" using False exact_variance_nonneg [of "values"] by simp
  ultimately show ?thesis using f64_sqrt_close [of "exact_variance values"] by (auto simp: std_dev_exact [OF assms])
qed

theorem std_dev_measures_imbalance_witness:
  "0 < std_dev [3, 0, 0, 1] \<and> std_dev [2, 2, 2, 2] = 0"
proof -
  have m: "modest [3, 0, 0, 1]" "modest [2, 2, 2, 2]" by (simp_all add: modest_def NUM_WORKERS_def)
  show ?thesis
    using std_dev_measures_imbalance [OF m(1)] std_dev_measures_imbalance [OF m(2)] by (auto simp: less_le)
qed

end
