(* ===== verification/Buffered_Lines.thy ===== *)
theory Buffered_Lines
  imports Rust_Text
begin

text \<open>
  Files written line by line through a \<open>BufWriter\<close> that is flushed after every so many rows, as the
  tick writer of the workers (\<open>hermes/src/metrics.rs\<close>) and the collector of the load generator
  (\<open>hermes-bench/src/main.rs\<close>) do. The buffer belongs to the standard library, which may write out
  a part of it at any time; how much is an argument. The locale states what both writers promise
  for one row and shows what a killed process has lost.
\<close>

section \<open>The buffered file\<close>

text \<open>\<open>written\<close> has reached the operating system, \<open>buffered\<close> is in the buffer of \<open>BufWriter\<close>.\<close>

record buf_writer =
  written :: string
  buffered :: string

text \<open>What one call meets: how much leaves the buffer early, and whether writing or flushing fails.\<close>

record write_env =
  we_spill :: nat
  we_write_error :: "errno option"
  we_flush_error :: "errno option"

definition buf_create :: buf_writer where
  "buf_create = \<lparr>written = [], buffered = []\<rparr>"

definition buf_write :: "write_env \<Rightarrow> string \<Rightarrow> buf_writer \<Rightarrow> errno + buf_writer" where
  "buf_write env s w =
     (case we_write_error env of
        Some e \<Rightarrow> Inl e
      | None \<Rightarrow>
          let b = buffered w @ s
          in Inr \<lparr>written = written w @ take (we_spill env) b, buffered = drop (we_spill env) b\<rparr>)"

definition buf_flush :: "errno option \<Rightarrow> buf_writer \<Rightarrow> errno + buf_writer" where
  "buf_flush err w =
     (case err of Some e \<Rightarrow> Inl e | None \<Rightarrow> Inr \<lparr>written = written w @ buffered w, buffered = []\<rparr>)"

lemma buf_write_Inr:
  assumes "buf_write env s w = Inr w'"
  shows "written w' @ buffered w' = written w @ buffered w @ s" and "prefix (written w) (written w')"
  using assms by (auto simp: buf_write_def Let_def simp del: take_append drop_append split: option.splits)

lemma buf_flush_Inr:
  "buf_flush err w = Inr w' \<longleftrightarrow> err = None \<and> w' = \<lparr>written = written w @ buffered w, buffered = []\<rparr>"
  by (auto simp: buf_flush_def split: option.splits)

section \<open>Rows\<close>

definition lines_text :: "string \<Rightarrow> string list \<Rightarrow> string" where
  "lines_text head ls = concat (map write_line (head # ls))"

lemma lines_text_snoc: "lines_text head (ls @ [l]) = lines_text head ls @ write_line l"
  by (simp add: lines_text_def)

text \<open>File and buffer hold the header and all lines, the file all but the pending ones.\<close>

definition lines_ok :: "u32 \<Rightarrow> string \<Rightarrow> string list \<Rightarrow> buf_writer \<Rightarrow> u32 \<Rightarrow> bool" where
  "lines_ok every head ls w pending \<longleftrightarrow> written w @ buffered w = lines_text head ls \<and> pending < every \<and>
     unat pending \<le> length ls \<and>
     (unat pending < length ls \<longrightarrow> prefix (lines_text head (take (length ls - unat pending) ls)) (written w))"

text \<open>Rows written one after the other, until one fails.\<close>

fun write_rows :: "('e \<Rightarrow> 'r \<Rightarrow> 's \<Rightarrow> errno + 's) \<Rightarrow> ('e \<times> 'r) list \<Rightarrow> 's \<Rightarrow> errno + 's" where
  "write_rows put [] s = Inr s"
| "write_rows put ((env, row) # rows) s =
     (case put env row s of Inl e \<Rightarrow> Inl e | Inr s \<Rightarrow> write_rows put rows s)"

locale flushed_lines =
  fixes writer :: "'s \<Rightarrow> buf_writer" and pending :: "'s \<Rightarrow> u32" and every :: u32
    and put :: "'e \<Rightarrow> 'r \<Rightarrow> 's \<Rightarrow> errno + 's" and print :: "'r \<Rightarrow> string"
  assumes flushes: "put env row s = Inr s' \<Longrightarrow> every \<le> pending s + 1 \<Longrightarrow>
      written (writer s') = written (writer s) @ buffered (writer s) @ write_line (print row) \<and>
      buffered (writer s') = [] \<and> pending s' = 0"
    and buffers: "put env row s = Inr s' \<Longrightarrow> \<not> every \<le> pending s + 1 \<Longrightarrow>
      written (writer s') @ buffered (writer s') = written (writer s) @ buffered (writer s) @ write_line (print row) \<and>
      prefix (written (writer s)) (written (writer s')) \<and> pending s' = pending s + 1"
begin

lemma write_ok:
  assumes "lines_ok every head ls (writer s) (pending s)" and "put env row s = Inr s'"
  shows "lines_ok every head (ls @ [print row]) (writer s') (pending s')"
proof -
  note ok = assms(1) [unfolded lines_ok_def]
  show ?thesis
  proof (cases "every \<le> pending s + 1")
    case True
    have "0 < every" using ok by (auto simp: word_gt_0)
    moreover have "written (writer s') = lines_text head (ls @ [print row])"
      using flushes [OF assms(2) True] ok by (simp add: lines_text_snoc flip: append_assoc)
    ultimately show ?thesis using flushes [OF assms(2) True] by (simp add: lines_ok_def)
  next
    case False
    have "unat (pending s) < unat every" "unat every < 2 ^ 32"
      using ok unsigned_less [of every] by (simp_all add: word_less_nat_alt)
    then have "unat (pending s + 1) = unat (pending s) + 1" by (simp add: unat_word_ariths)
    moreover have "prefix t (written (writer s'))" if "prefix t (written (writer s))" for t
      using buffers [OF assms(2) False] that prefix_order.trans by blast
    ultimately show ?thesis
      using buffers [OF assms(2) False] ok False
      by (auto simp: lines_ok_def lines_text_snoc not_le simp flip: append_assoc)
  qed
qed

lemma write_rows_ok:
  "lines_ok every head ls (writer s) (pending s) \<Longrightarrow> write_rows put rows s = Inr s' \<Longrightarrow>
    lines_ok every head (ls @ map (print \<circ> snd) rows) (writer s') (pending s')"
proof (induction rows arbitrary: ls s)
  case (Cons m rows)
  obtain env row where m: "m = (env, row)" by fastforce
  with Cons.prems obtain s1 where "put env row s = Inr s1" "write_rows put rows s1 = Inr s'"
    by (auto split: sum.splits)
  then show ?case using Cons.IH [OF write_ok [OF Cons.prems(1)]] m by simp
qed simp

text \<open>What a kill can cost, and that a flush completes the file.\<close>

lemma rows_survive:
  assumes "lines_ok every head [] (writer s) (pending s)" and "write_rows put rows s = Inr s'"
  shows "\<exists>lost. lost < unat every \<and> lost \<le> length rows \<and>
    written (writer s') @ buffered (writer s') = lines_text head (map (print \<circ> snd) rows) \<and>
    (lost < length rows \<longrightarrow>
      prefix (lines_text head (take (length rows - lost) (map (print \<circ> snd) rows))) (written (writer s'))) \<and>
    (\<exists>w. buf_flush None (writer s') = Inr w \<and> written w = lines_text head (map (print \<circ> snd) rows))"
  using write_rows_ok [OF assms]
  by (intro exI [of _ "unat (pending s')"]) (auto simp: lines_ok_def buf_flush_def word_less_nat_alt)

end

end
