(* ===== verification/Tick_Csv.thy ===== *)
theory Tick_Csv
  imports Balance Buffered_Lines Worker_Loop
begin

text \<open>
  The tick metrics of the eBPF version, \<open>hermes/src/metrics.rs\<close>: the lines of the CSV file, its
  header, the console line, and the buffered writer, which keeps the contract \<open>flushed_lines\<close>. The
  lines of the simulation differ in the name of one column and share the definitions.
\<close>

section \<open>Lines\<close>

definition show_hex_06 :: "u64 \<Rightarrow> string" where
  "show_hex_06 b = ''0x'' @ pad_left 4 (CHR ''0'') (show_radix 16 (unat b))"

definition show_bin :: "u64 \<Rightarrow> string" where
  "show_bin b = pad_left NUM_WORKERS (CHR ''0'') (show_radix 2 (unat b))"

text \<open>The first ten columns, the metrics of every worker, and the two deviations.\<close>

definition tick_line ::
  "i64 \<Rightarrow> nat \<Rightarrow> u32 \<Rightarrow> schedule_result option \<Rightarrow> nat \<Rightarrow> string \<Rightarrow> worker_snapshot list \<Rightarrow> string" where
  "tick_line timestamp_ns worker_id iter result held policy_name snapshots =
     (let (bm, s1, s2, s3) =
            (case result of
               Some r \<Rightarrow> (bitmap r, after_stage1 r, after_stage2 r, after_stage3 r)
             | None \<Rightarrow> (0, 0, 0, 0));
          line = join_with '','' [show_int (sint timestamp_ns), show_nat worker_id, show_nat (unat iter),
            show_hex_06 bm, show_bin bm, show_nat s1, show_nat s2, show_nat s3, show_nat held, policy_name];
          conns = map snap_accumulated_conns snapshots;
          events = map snap_pending_events snapshots;
          line = line @ concat (map (\<lambda>i. '','' @ show_int (sint (conns ! i)) @ '','' @ show_int (sint (events ! i)))
            [0..<NUM_WORKERS])
      in line @ '','' @ show_fixed 3 (std_dev conns) @ '','' @ show_fixed 3 (std_dev events))"

definition header_line :: "string \<Rightarrow> string" where
  "header_line held_name =
     ''timestamp_ns,worker_id,iter,bitmap_hex,bitmap_bin,after_stage1,after_stage2,after_stage3,'' @
     held_name @ '',policy'' @
     concat (map (\<lambda>i. '',w'' @ show_nat i @ ''_conns,w'' @ show_nat i @ ''_events'') [0..<NUM_WORKERS]) @
     '',conn_sd,events_sd''"

definition format_tick_row :: "tick_row \<Rightarrow> string" where
  "format_tick_row row =
     tick_line (tk_timestamp_ns row) (tk_worker_id row) (tk_iter row) (tk_result row) (tk_open_conns row)
       (policy_as_str (tk_policy row)) (tk_snapshots row)"

definition tick_header :: string where
  "tick_header = header_line ''open_conns''"

text \<open>The console line of a verbose run.\<close>

definition print_metric :: "(worker_snapshot \<Rightarrow> i64) \<Rightarrow> worker_snapshot list \<Rightarrow> string" where
  "print_metric f snapshots = join_with '' '' (map (\<lambda>s. pad_left 3 (CHR '' '') (show_int (sint (f s)))) snapshots)"

definition print_tick :: "tick_row \<Rightarrow> string" where
  "print_tick row =
     (let sched = (case tk_result row of
            Some r \<Rightarrow> ''stages '' @ show_nat (after_stage1 r) @ ''/'' @ show_nat (after_stage2 r) @ ''/'' @
              show_nat (after_stage3 r) @ '' bitmap='' @ show_bin (bitmap r)
          | None \<Rightarrow> ''(no scheduler)'')
      in ''[w'' @ show_nat (tk_worker_id row) @ ''][''  @ policy_as_str (tk_policy row) @ ''] iter '' @
         pad_left 4 (CHR '' '') (show_nat (unat (tk_iter row))) @
         '' | conns=['' @ print_metric snap_accumulated_conns (tk_snapshots row) @
         ''] events=['' @ print_metric snap_pending_events (tk_snapshots row) @
         ''] open='' @ pad_left 3 (CHR '' '') (show_nat (tk_open_conns row)) @ '' | '' @ sched)"

section \<open>The columns of a line\<close>

definition tick_columns ::
  "i64 \<Rightarrow> nat \<Rightarrow> u32 \<Rightarrow> schedule_result option \<Rightarrow> nat \<Rightarrow> string \<Rightarrow> worker_snapshot list \<Rightarrow> string list" where
  "tick_columns timestamp_ns worker_id iter result held policy_name snapshots =
     (let (bm, s1, s2, s3) =
            (case result of
               Some r \<Rightarrow> (bitmap r, after_stage1 r, after_stage2 r, after_stage3 r)
             | None \<Rightarrow> (0, 0, 0, 0))
      in [show_int (sint timestamp_ns), show_nat worker_id, show_nat (unat iter), show_hex_06 bm, show_bin bm,
          show_nat s1, show_nat s2, show_nat s3, show_nat held, policy_name] @
         concat (map (\<lambda>i. [show_int (sint (snap_accumulated_conns (snapshots ! i))),
           show_int (sint (snap_pending_events (snapshots ! i)))]) [0..<NUM_WORKERS]) @
         [show_fixed 3 (std_dev (map snap_accumulated_conns snapshots)),
          show_fixed 3 (std_dev (map snap_pending_events snapshots))])"

definition header_columns :: "string \<Rightarrow> string list" where
  "header_columns held_name =
     [''timestamp_ns'', ''worker_id'', ''iter'', ''bitmap_hex'', ''bitmap_bin'', ''after_stage1'', ''after_stage2'',
      ''after_stage3'', held_name, ''policy''] @
     concat (map (\<lambda>i. [''w'' @ show_nat i @ ''_conns'', ''w'' @ show_nat i @ ''_events'']) [0..<NUM_WORKERS]) @
     [''conn_sd'', ''events_sd'']"

lemma workers_0123: "[0..<NUM_WORKERS] = [0, 1, 2, 3]"
  by (simp add: NUM_WORKERS_def upt_rec)

lemma tick_line_columns:
  assumes "length snapshots = NUM_WORKERS"
  shows "tick_line timestamp_ns worker_id iter result held policy_name snapshots =
    join_with '','' (tick_columns timestamp_ns worker_id iter result held policy_name snapshots)"
  using four_values [OF assms]
  by (auto simp: tick_line_def tick_columns_def Let_def workers_0123 split: option.splits)

lemma header_line_columns: "header_line held_name = join_with '','' (header_columns held_name)"
  by (simp add: header_line_def header_columns_def workers_0123)

lemma plain_append: "plain s \<Longrightarrow> \<forall>c\<in>set t. \<not> separator c \<Longrightarrow> plain (t @ s)"
  by (auto simp: plain_def)

lemma plain_pad: "plain s \<Longrightarrow> \<not> separator c \<Longrightarrow> plain (pad_left width c s)"
  by (auto simp: plain_def pad_left_def)

lemma plain_radix: "2 \<le> radix \<Longrightarrow> radix \<le> 36 \<Longrightarrow> plain (show_radix radix n)"
  using show_radix_digits [of radix _ n] digit_not_separator by (fastforce simp: plain_def)

lemma plain_numbers [simp]: "plain (show_hex_06 b)" "plain (show_bin b)"
  unfolding show_hex_06_def show_bin_def
  by (intro plain_append plain_pad plain_radix; simp add: separator_def)+

lemma plain_policy [simp]: "plain (policy_as_str p)"
  by (cases p) (simp_all add: policy_as_str_def plain_def separator_def)

lemma plain_columns:
  "plain policy_name \<Longrightarrow>
    \<forall>s\<in>set (tick_columns timestamp_ns worker_id iter result held policy_name snapshots). plain s"
  by (auto simp: tick_columns_def split: option.splits)

lemma plain_header_names:
  "\<forall>s\<in>set [''timestamp_ns'', ''worker_id'', ''iter'', ''bitmap_hex'', ''bitmap_bin'', ''after_stage1'', ''after_stage2'',
    ''after_stage3'', ''policy'', ''conn_sd'', ''events_sd'', ''_conns'', ''_events'']. plain s"
  by code_simp

lemma plain_header: "plain held_name \<Longrightarrow> \<forall>s\<in>set (header_columns held_name). plain s"
proof -
  have "plain (''w'' @ show_nat i @ t)" if "plain t" for i t
    using that show_nat_chars [of _ i] by (auto simp: plain_def separator_def)
  then show "plain held_name \<Longrightarrow> ?thesis"
    using plain_header_names unfolding header_columns_def set_append set_concat set_map ball_Un by auto
qed

lemma split_tick_line:
  assumes "length snapshots = NUM_WORKERS" and "plain policy_name"
  shows "split_on (CHR '','') (tick_line timestamp_ns worker_id iter result held policy_name snapshots) =
    tick_columns timestamp_ns worker_id iter result held policy_name snapshots"
proof -
  have "tick_columns timestamp_ns worker_id iter result held policy_name snapshots \<noteq> []"
    by (simp add: tick_columns_def split: prod.splits)
  then show ?thesis unfolding tick_line_columns [OF assms(1)]
    by (rule split_join_plain) (rule plain_columns [OF assms(2)])
qed

lemma split_header: "plain held_name \<Longrightarrow> split_on (CHR '','') (header_line held_name) = header_columns held_name"
  unfolding header_line_columns by (rule split_join_plain) (simp_all add: plain_header, simp add: header_columns_def)

lemma clean_tick_line:
  "length snapshots = NUM_WORKERS \<Longrightarrow> plain policy_name \<Longrightarrow>
    clean_line (tick_line timestamp_ns worker_id iter result held policy_name snapshots)"
  by (simp add: tick_line_columns clean_join plain_columns)

lemma clean_header: "plain held_name \<Longrightarrow> clean_line (header_line held_name)"
  by (simp add: header_line_columns clean_join plain_header)

text \<open>The columns of worker \<open>i\<close>.\<close>

lemma worker_columns:
  assumes "i < NUM_WORKERS"
  shows "tick_columns timestamp_ns worker_id iter result held policy_name snapshots ! (10 + 2 * i) =
      show_int (sint (snap_accumulated_conns (snapshots ! i)))"
    and "tick_columns timestamp_ns worker_id iter result held policy_name snapshots ! (11 + 2 * i) =
      show_int (sint (snap_pending_events (snapshots ! i)))"
    and "header_columns held_name ! (10 + 2 * i) = ''w'' @ show_nat i @ ''_conns''"
    and "header_columns held_name ! (11 + 2 * i) = ''w'' @ show_nat i @ ''_events''"
proof -
  have "i = 0 \<or> i = 1 \<or> i = 2 \<or> i = 3" using assms by (auto simp: NUM_WORKERS_def)
  then show "tick_columns timestamp_ns worker_id iter result held policy_name snapshots ! (10 + 2 * i) =
      show_int (sint (snap_accumulated_conns (snapshots ! i)))"
    and "tick_columns timestamp_ns worker_id iter result held policy_name snapshots ! (11 + 2 * i) =
      show_int (sint (snap_pending_events (snapshots ! i)))"
    and "header_columns held_name ! (10 + 2 * i) = ''w'' @ show_nat i @ ''_conns''"
    and "header_columns held_name ! (11 + 2 * i) = ''w'' @ show_nat i @ ''_events''"
    by (auto simp: tick_columns_def header_columns_def workers_0123 nth_Cons' split: prod.splits)
qed

section \<open>The writer\<close>

definition FLUSH_EVERY :: u32 where
  "FLUSH_EVERY = 64"

record tick_writer =
  tw_writer :: buf_writer
  tw_pending :: u32

definition tick_flush :: "errno option \<Rightarrow> tick_writer \<Rightarrow> errno + tick_writer" where
  "tick_flush err w =
     (case buf_flush err (tw_writer w) of Inl e \<Rightarrow> Inl e | Inr b \<Rightarrow> Inr (w\<lparr>tw_writer := b\<rparr>))"

definition tick_create :: "errno option \<Rightarrow> write_env \<Rightarrow> errno + tick_writer" where
  "tick_create create_error env =
     (case create_error of
        Some e \<Rightarrow> Inl e
      | None \<Rightarrow>
          case buf_write env (write_line tick_header) buf_create of
            Inl e \<Rightarrow> Inl e
          | Inr b \<Rightarrow> Inr \<lparr>tw_writer = b, tw_pending = 0\<rparr>)"

definition tick_write :: "write_env \<Rightarrow> tick_row \<Rightarrow> tick_writer \<Rightarrow> errno + tick_writer" where
  "tick_write env row w =
     (case buf_write env (write_line (format_tick_row row)) (tw_writer w) of
        Inl e \<Rightarrow> Inl e
      | Inr b \<Rightarrow>
          let w = w\<lparr>tw_writer := b, tw_pending := tw_pending w + 1\<rparr>
          in if FLUSH_EVERY \<le> tw_pending w
             then case tick_flush (we_flush_error env) w of
               Inl e \<Rightarrow> Inl e
             | Inr w \<Rightarrow> Inr (w\<lparr>tw_pending := 0\<rparr>)
             else Inr w)"

abbreviation tick_writes :: "(write_env \<times> tick_row) list \<Rightarrow> tick_writer \<Rightarrow> errno + tick_writer" where
  "tick_writes \<equiv> write_rows tick_write"

lemma tick_write_flushes:
  "tick_write env row w = Inr w' \<Longrightarrow> FLUSH_EVERY \<le> tw_pending w + 1 \<Longrightarrow>
    written (tw_writer w') = written (tw_writer w) @ buffered (tw_writer w) @ write_line (format_tick_row row) \<and>
    buffered (tw_writer w') = [] \<and> tw_pending w' = 0"
  by (auto simp: tick_write_def tick_flush_def buf_flush_Inr Let_def dest: buf_write_Inr split: sum.splits)

lemma tick_write_buffers:
  "tick_write env row w = Inr w' \<Longrightarrow> \<not> FLUSH_EVERY \<le> tw_pending w + 1 \<Longrightarrow>
    written (tw_writer w') @ buffered (tw_writer w') =
      written (tw_writer w) @ buffered (tw_writer w) @ write_line (format_tick_row row) \<and>
    prefix (written (tw_writer w)) (written (tw_writer w')) \<and> tw_pending w' = tw_pending w + 1"
  by (auto simp: tick_write_def Let_def dest: buf_write_Inr split: sum.splits)

interpretation tick_lines: flushed_lines tw_writer tw_pending FLUSH_EVERY tick_write format_tick_row
  by unfold_locales (fact tick_write_flushes tick_write_buffers)+

lemma tick_create_ok:
  "tick_create create_error env = Inr w \<Longrightarrow> lines_ok FLUSH_EVERY tick_header [] (tw_writer w) (tw_pending w)"
  by (auto simp: tick_create_def lines_ok_def lines_text_def FLUSH_EVERY_def buf_create_def
      dest: buf_write_Inr split: option.splits sum.splits)

section \<open>Properties\<close>

text \<open>
  C36: Every line of the tick file fits its header: it has the header's columns in the header's
  order. Under the ten names of the first columns the clock, the worker, the iteration, the bitmap in
  hexadecimal and in binary, the stage counts (zeros where the policy runs no scheduler), the
  connections held and the policy are read back exactly, under the names of each worker that
  worker's connections and events; under the last two names stand the deviations of the
  connections and of the events, in this order, with three decimals.
\<close>

theorem tick_rows_fit_header:
  assumes "length (tk_snapshots row) = NUM_WORKERS" and "tk_worker_id row < 2 ^ 64" and "tk_open_conns row < 2 ^ 64"
    and "case tk_result row of None \<Rightarrow> r = \<lparr>bitmap = 0, after_stage1 = 0, after_stage2 = 0, after_stage3 = 0\<rparr>
      | Some r' \<Rightarrow> r = r' \<and> after_stage1 r \<le> NUM_WORKERS \<and> after_stage2 r \<le> NUM_WORKERS \<and> after_stage3 r \<le> NUM_WORKERS"
  shows "let fields = split_on (CHR '','') (format_tick_row row); names = split_on (CHR '','') tick_header
    in length fields = 20 \<and> length names = 20 \<and>
      take 10 names = [''timestamp_ns'', ''worker_id'', ''iter'', ''bitmap_hex'', ''bitmap_bin'', ''after_stage1'', ''after_stage2'',
        ''after_stage3'', ''open_conns'', ''policy''] \<and>
      parse_i64 (fields ! 0) = Some (tk_timestamp_ns row) \<and> parse_unsigned (fields ! 1) = Some (tk_worker_id row) \<and>
      parse_unsigned (fields ! 2) = Some (unat (tk_iter row)) \<and>
      parse_digits 16 0 (drop 2 (fields ! 3)) = Some (unat (bitmap r)) \<and>
      parse_digits 2 0 (fields ! 4) = Some (unat (bitmap r)) \<and>
      map parse_unsigned (take 3 (drop 5 fields)) = [Some (after_stage1 r), Some (after_stage2 r), Some (after_stage3 r)] \<and>
      parse_unsigned (fields ! 8) = Some (tk_open_conns row) \<and> policy_parse (fields ! 9) = Some (tk_policy row) \<and>
      (\<forall>i<NUM_WORKERS.
        names ! (10 + 2 * i) = ''w'' @ show_nat i @ ''_conns'' \<and>
        parse_i64 (fields ! (10 + 2 * i)) = Some (snap_accumulated_conns (tk_snapshots row ! i)) \<and>
        names ! (11 + 2 * i) = ''w'' @ show_nat i @ ''_events'' \<and>
        parse_i64 (fields ! (11 + 2 * i)) = Some (snap_pending_events (tk_snapshots row ! i))) \<and>
      drop 18 names = [''conn_sd'', ''events_sd''] \<and>
      drop 18 fields = [show_fixed 3 (std_dev (map snap_accumulated_conns (tk_snapshots row))),
        show_fixed 3 (std_dev (map snap_pending_events (tk_snapshots row)))]"
proof -
  let ?cols = "tick_columns (tk_timestamp_ns row) (tk_worker_id row) (tk_iter row) (tk_result row) (tk_open_conns row)
    (policy_as_str (tk_policy row)) (tk_snapshots row)"
  have f: "split_on (CHR '','') (format_tick_row row) = ?cols"
    unfolding format_tick_row_def by (rule split_tick_line [OF assms(1) plain_policy])
  have n: "split_on (CHR '','') tick_header = header_columns ''open_conns''"
    unfolding tick_header_def by (rule split_header) (simp add: plain_def separator_def)
  have head: "take 10 ?cols = [show_int (sint (tk_timestamp_ns row)), show_nat (tk_worker_id row), show_nat (unat (tk_iter row)),
      show_hex_06 (bitmap r), show_bin (bitmap r), show_nat (after_stage1 r), show_nat (after_stage2 r),
      show_nat (after_stage3 r), show_nat (tk_open_conns row), policy_as_str (tk_policy row)]"
    using assms(4) by (auto simp: tick_columns_def split: option.splits)
  have len: "length ?cols = 20" "length (header_columns ''open_conns'') = 20"
    by (auto simp: tick_columns_def header_columns_def workers_0123 split: option.splits)
  have ends: "drop 18 ?cols = [show_fixed 3 (std_dev (map snap_accumulated_conns (tk_snapshots row))),
      show_fixed 3 (std_dev (map snap_pending_events (tk_snapshots row)))]"
    "drop 18 (header_columns ''open_conns'') = [''conn_sd'', ''events_sd'']"
    by (auto simp: tick_columns_def header_columns_def workers_0123 split: option.splits)
  have names: "take 10 (header_columns ''open_conns'') = [''timestamp_ns'', ''worker_id'', ''iter'', ''bitmap_hex'', ''bitmap_bin'',
      ''after_stage1'', ''after_stage2'', ''after_stage3'', ''open_conns'', ''policy'']"
    by (simp add: header_columns_def)
  have at: "?cols ! k = take 10 ?cols ! k" if "k < 10" for k using that by simp
  have stage: "after_stage1 r \<le> 4 \<and> after_stage2 r \<le> 4 \<and> after_stage3 r \<le> 4"
    using assms(4) by (auto simp: NUM_WORKERS_def split: option.splits)
  have three: "take 3 (drop 5 ?cols) = [show_nat (after_stage1 r), show_nat (after_stage2 r), show_nat (after_stage3 r)]"
  proof -
    have "take 3 (drop 5 ?cols) = take 3 (drop 5 (take 10 ?cols))" by (simp add: drop_take)
    then show ?thesis unfolding head by simp
  qed
  have "unat (tk_iter row) < 2 ^ 32" using unsigned_less [of "tk_iter row"] by simp
  then have it: "unat (tk_iter row) < 2 ^ 64" by simp
  have bits: "parse_digits 16 0 (drop 2 (show_hex_06 (bitmap r))) = Some (unat (bitmap r))"
    "parse_digits 2 0 (show_bin (bitmap r)) = Some (unat (bitmap r))"
    by (simp_all add: show_hex_06_def show_bin_def parse_padded_radix)
  have policy: "policy_parse (policy_as_str (tk_policy row)) = Some (tk_policy row)"
    by (simp add: policy_names_round_trip)
  show ?thesis
    unfolding f n Let_def three ends names using len at [of 0] at [of 1] at [of 2] at [of 3] at [of 4] at [of 8] at [of 9]
      usize_text.parse_print assms(2,3) stage it bits policy
    by (simp add: head worker_columns i64_text.parse_print)
qed

definition sample_tick :: tick_row where
  "sample_tick = \<lparr>tk_timestamp_ns = 900000000, tk_worker_id = 1, tk_iter = 7, tk_snapshots = snapshot_all sample_table,
     tk_open_conns = 1, tk_result = None, tk_policy = Lifo\<rparr>"

theorem tick_rows_fit_header_witness:
  "policy_parse (split_on (CHR '','') (format_tick_row sample_tick) ! 9) = Some Lifo \<and>
   parse_i64 (split_on (CHR '','') (format_tick_row sample_tick) ! 16) = Some 100"
proof -
  have l: "length (tk_snapshots sample_tick) = NUM_WORKERS"
    by (simp add: sample_tick_def snapshot_all_def workers_upt NUM_WORKERS_def)
  note t = tick_rows_fit_header [OF l, of "\<lparr>bitmap = 0, after_stage1 = 0, after_stage2 = 0, after_stage3 = 0\<rparr>",
      unfolded Let_def]
  have p: "tk_policy sample_tick = Lifo" "snap_accumulated_conns (tk_snapshots sample_tick ! 3) = 100"
    by (simp_all add: sample_tick_def nth_snapshot_all NUM_WORKERS_def slot_snapshot_def sample_table_def)
  show ?thesis using t p by (auto simp: sample_tick_def NUM_WORKERS_def dest: spec [of _ 3])
qed

text \<open>
  C35: A killed worker loses less than \<open>FLUSH_EVERY\<close> rows: after any number of successful writes,
  whenever the buffer spilled, the file and the buffer together are the header and every row in
  order, fewer than 64 rows are pending, the file holds all the others, and one flush completes
  the file, whose lines are then the header and the rows.
\<close>

theorem tick_file_loses_few_rows:
  assumes "tick_create create_error env = Inr w0" and "tick_writes writes w0 = Inr w"
  shows "\<exists>lost. lost < 64 \<and> lost \<le> length writes \<and>
    (let text_of = \<lambda>n. lines_text tick_header (take n (map (format_tick_row \<circ> snd) writes)); all = text_of (length writes)
     in written (tw_writer w) @ buffered (tw_writer w) = all \<and>
       (lost < length writes \<longrightarrow> prefix (text_of (length writes - lost)) (written (tw_writer w))) \<and>
       (\<exists>w'. tick_flush None w = Inr w' \<and> written (tw_writer w') = all) \<and>
       ((\<forall>m\<in>set writes. length (tk_snapshots (snd m)) = NUM_WORKERS) \<longrightarrow>
         file_lines all = tick_header # map (format_tick_row \<circ> snd) writes))"
proof -
  have "clean_line tick_header" unfolding tick_header_def by (rule clean_header) (simp add: plain_def separator_def)
  moreover have "clean_line (format_tick_row row)" if "length (tk_snapshots row) = NUM_WORKERS" for row
    using that by (simp add: format_tick_row_def clean_tick_line)
  ultimately have "file_lines (lines_text tick_header (map (format_tick_row \<circ> snd) writes)) =
      tick_header # map (format_tick_row \<circ> snd) writes"
    if "\<forall>m\<in>set writes. length (tk_snapshots (snd m)) = NUM_WORKERS"
    unfolding lines_text_def using that by (subst lines_written) auto
  moreover have "unat FLUSH_EVERY = 64" by (simp add: FLUSH_EVERY_def)
  moreover have "(\<exists>w'. tick_flush None w = Inr w' \<and> written (tw_writer w') = s) \<longleftrightarrow>
      (\<exists>b. buf_flush None (tw_writer w) = Inr b \<and> written b = s)" for s
    by (auto simp: tick_flush_def buf_flush_def)
  ultimately show ?thesis
    using tick_lines.rows_survive [OF tick_create_ok [OF assms(1)] assms(2)] by (auto simp: Let_def)
qed

definition no_errors :: "nat \<Rightarrow> write_env" where
  "no_errors spill = \<lparr>we_spill = spill, we_write_error = None, we_flush_error = None\<rparr>"

theorem tick_file_loses_few_rows_witness:
  "\<exists>w0 w. tick_create None (no_errors 0) = Inr w0 \<and> tick_writes [(no_errors 9, sample_tick)] w0 = Inr w \<and>
    written (tw_writer w) @ buffered (tw_writer w) = lines_text tick_header [format_tick_row sample_tick]"
proof -
  obtain w0 where w0: "tick_create None (no_errors 0) = Inr w0" "tw_pending w0 = 0"
    by (simp add: tick_create_def no_errors_def buf_write_def Let_def)
  then have "\<exists>w. tick_writes [(no_errors 9, sample_tick)] w0 = Inr w"
    by (simp add: tick_write_def no_errors_def FLUSH_EVERY_def buf_write_def Let_def word_le_nat_alt)
  then obtain w where w: "tick_writes [(no_errors 9, sample_tick)] w0 = Inr w" ..
  show ?thesis using tick_file_loses_few_rows [OF w0(1) w] w0(1) w by (auto simp: Let_def)
qed

end
