(* ===== verification/Launcher.thy ===== *)
theory Launcher
  imports Rust_Text Worker_Loop
begin

text \<open>
  The parent process of the eBPF version, \<open>hermes/src/main.rs\<close>, and the loading of the eBPF object
  in \<open>hermes/src/loader.rs\<close>. The results of \<open>fork\<close> and the readings of the shutdown flag are
  scripts; which step of \<open>aya\<close> fails is a function. What the parent does is a log of actions; what
  a child does before it enters \<open>worker_loop\<close> is a record.
\<close>

section \<open>Injecting a hang\<close>

text \<open>\<open>None\<close> as environment: the variable is not set.\<close>

definition parse_hang_inject :: "string option \<Rightarrow> (nat \<times> hang_spec) option" where
  "parse_hang_inject env =
     (case env of
        None \<Rightarrow> None
      | Some raw \<Rightarrow>
          (case split_on (CHR '':'') raw of
             [w, at_text, dur] \<Rightarrow>
               Option.bind (parse_unsigned w) (\<lambda>worker_id.
               Option.bind (parse_u64 at_text) (\<lambda>at_ms.
               Option.bind (parse_u64 dur) (\<lambda>dur_ms.
                 Some (worker_id, \<lparr>hang_at = from_millis at_ms, hang_duration = from_millis dur_ms\<rparr>))))
           | _ \<Rightarrow> None))"

section \<open>Forking the workers\<close>

text \<open>How a child starts: the descriptors it closes and the arguments of its \<open>worker_loop\<close>.\<close>

record child =
  ch_worker :: nat
  ch_closed :: "int list"
  ch_listen_fd :: int
  ch_hang :: "hang_spec option"

definition start_child :: "int list \<Rightarrow> (nat \<times> hang_spec) option \<Rightarrow> nat \<Rightarrow> child" where
  "start_child fds hang worker_id =
     \<lparr>ch_worker = worker_id,
      ch_closed = map snd (filter (\<lambda>(i, fd). i \<noteq> worker_id \<and> fd \<noteq> fds ! worker_id) (enumerate 0 fds)),
      ch_listen_fd = fds ! worker_id,
      ch_hang = (case hang of Some (w, h) \<Rightarrow> if w = worker_id then Some h else None | None \<Rightarrow> None)\<rparr>"

datatype action = Forked int child | Terminated int | Reaped int | Pins_Removed

datatype exit = Fork_Failed errno | Clean_Exit

text \<open>The parent's side of the loop: the pids so far and the log, or the error of a failed fork.\<close>

fun fork_workers ::
  "int list \<Rightarrow> (nat \<times> hang_spec) option \<Rightarrow> nat list \<Rightarrow> (int \<times> errno) list \<Rightarrow> int list \<Rightarrow> action list \<Rightarrow>
    (errno option \<times> int list \<times> action list) option" where
  "fork_workers fds hang [] forks pids actions = Some (None, pids, actions)"
| "fork_workers fds hang (w # ws) [] pids actions = None"
| "fork_workers fds hang (w # ws) ((pid, err) # forks) pids actions =
     (if pid = - 1 then Some (Some err, pids, actions)
      else fork_workers fds hang ws forks (pids @ [pid]) (actions @ [Forked pid (start_child fds hang w)]))"

text \<open>The parent sleeps until the flag is set; a script that ends before has no result.\<close>

fun await_shutdown :: "bool list \<Rightarrow> unit option" where
  "await_shutdown [] = None"
| "await_shutdown (flag # flags) = (if flag then Some () else await_shutdown flags)"

definition supervise ::
  "policy \<Rightarrow> int list \<Rightarrow> (nat \<times> hang_spec) option \<Rightarrow> (int \<times> errno) list \<Rightarrow> bool list \<Rightarrow> (exit \<times> action list) option" where
  "supervise p fds hang forks flags =
     (case fork_workers fds hang [0..<NUM_WORKERS] forks [] [] of
        None \<Rightarrow> None
      | Some (Some err, pids, actions) \<Rightarrow> Some (Fork_Failed err, actions)
      | Some (None, pids, actions) \<Rightarrow>
          (case await_shutdown flags of
             None \<Rightarrow> None
           | Some _ \<Rightarrow>
               Some (Clean_Exit, actions @ map Terminated pids @ map Reaped pids @
                 (if p = Hermes then [Pins_Removed] else []))))"

section \<open>Loading the eBPF object\<close>

datatype load_step =
    Create_Pin_Dir
  | Load_Object
  | Take_Socket_Map
  | Socket_Map_Type
  | Set_Socket nat
  | Find_Program
  | Program_Type
  | Load_Program
  | Attach_Program int

text \<open>
  What the kernel holds while the steps run: the pinned maps, the socket map and the listener the
  program is attached through.
\<close>

record ebpf =
  eb_pinned :: bool
  eb_sockets :: "u32 \<rightharpoonup> int"
  eb_attached :: "int option"

definition do_step :: "int list \<Rightarrow> load_step \<Rightarrow> ebpf \<Rightarrow> ebpf" where
  "do_step fds st e =
     (case st of
        Load_Object \<Rightarrow> e\<lparr>eb_pinned := True\<rparr>
      | Set_Socket i \<Rightarrow> e\<lparr>eb_sockets := (eb_sockets e)(of_nat i \<mapsto> fds ! i)\<rparr>
      | Attach_Program fd \<Rightarrow> e\<lparr>eb_attached := Some fd\<rparr>
      | _ \<Rightarrow> e)"

definition load_steps :: "int list \<Rightarrow> load_step list" where
  "load_steps fds =
     [Create_Pin_Dir, Load_Object, Take_Socket_Map, Socket_Map_Type] @ map Set_Socket [0..<length fds] @
     [Find_Program, Program_Type, Load_Program, Attach_Program (fds ! 0)]"

fun run_load :: "(load_step \<Rightarrow> errno option) \<Rightarrow> int list \<Rightarrow> load_step list \<Rightarrow> ebpf \<Rightarrow> errno option \<times> ebpf" where
  "run_load fails fds [] e = (None, e)"
| "run_load fails fds (st # sts) e =
     (case fails st of Some err \<Rightarrow> (Some err, e) | None \<Rightarrow> run_load fails fds sts (do_step fds st e))"

text \<open>Raising the memory limit is tried first; a failure of \<open>setrlimit\<close> is logged and no error.\<close>

definition bump_memlock_rlimit :: "int \<Rightarrow> errno option" where
  "bump_memlock_rlimit ret = (if ret \<noteq> 0 then None else None)"

definition load_ebpf :: "(load_step \<Rightarrow> errno option) \<Rightarrow> int \<Rightarrow> int list \<Rightarrow> errno option \<times> ebpf" where
  "load_ebpf fails rlimit_ret fds =
     (let e = \<lparr>eb_pinned = False, eb_sockets = Map.empty, eb_attached = None\<rparr>
      in case bump_memlock_rlimit rlimit_ret of
           Some err \<Rightarrow> (Some err, e)
         | None \<Rightarrow> run_load fails fds (load_steps fds) e)"

definition cleanup_pins :: "errno option \<Rightarrow> ebpf \<Rightarrow> ebpf" where
  "cleanup_pins err e = (case err of Some _ \<Rightarrow> e | None \<Rightarrow> e\<lparr>eb_pinned := False\<rparr>)"

section \<open>Lemmas\<close>

lemma fork_workers_all:
  assumes "length ws \<le> length forks" and "\<forall>(pid, err)\<in>set (take (length ws) forks). pid \<noteq> - 1"
  shows "fork_workers fds hang ws forks pids actions =
    Some (None, pids @ map fst (take (length ws) forks),
      actions @ map2 (\<lambda>f w. Forked (fst f) (start_child fds hang w)) (take (length ws) forks) ws)"
  using assms
proof (induction fds hang ws forks pids actions rule: fork_workers.induct)
  case (3 fds hang w ws pid err forks pids actions)
  then show ?case by simp
qed simp_all

lemma fork_workers_fails:
  assumes "k < length ws" and "k < length forks" and "\<forall>(pid, err)\<in>set (take k forks). pid \<noteq> - 1" and "fst (forks ! k) = - 1"
  shows "\<exists>pids'. fork_workers fds hang ws forks pids actions =
    Some (Some (snd (forks ! k)), pids', actions @
      map2 (\<lambda>f w. Forked (fst f) (start_child fds hang w)) (take k forks) (take k ws))"
  using assms
proof (induction fds hang ws forks pids actions arbitrary: k rule: fork_workers.induct)
  case (3 fds hang w ws pid err forks pids actions)
  show ?case
  proof (cases k)
    case 0
    then show ?thesis using 3 by simp
  next
    case (Suc j)
    then show ?thesis using "3.IH" [of j] "3.prems" by auto
  qed
qed simp_all

lemma await_shutdown_returns: "True \<in> set flags \<Longrightarrow> await_shutdown flags = Some ()"
  by (induction flags) auto

text \<open>A child closes what differs from its own listener.\<close>

lemma start_child_closed: "ch_closed (start_child fds hang w) = filter (\<lambda>fd. fd \<noteq> fds ! w) fds"
proof -
  have "filter (\<lambda>(i, fd). i \<noteq> w \<and> fd \<noteq> fds ! w) (enumerate 0 fds) =
      filter (\<lambda>p. snd p \<noteq> fds ! w) (enumerate 0 fds)"
    by (rule filter_cong) (auto simp: in_set_enumerate_eq)
  then have "ch_closed (start_child fds hang w) = map snd (filter (\<lambda>p. snd p \<noteq> fds ! w) (enumerate 0 fds))"
    by (simp add: start_child_def)
  also have "\<dots> = filter (\<lambda>fd. fd \<noteq> fds ! w) (map snd (enumerate 0 fds))" by (simp only: filter_map comp_def)
  finally show ?thesis by simp
qed

lemma closed_others:
  assumes "distinct fds" and "w < length fds"
  shows "distinct (filter (\<lambda>fd. fd \<noteq> fds ! w) fds)" and "length (filter (\<lambda>fd. fd \<noteq> fds ! w) fds) = length fds - 1"
proof -
  have "filter (\<lambda>fd. fd \<noteq> fds ! w) fds = remove1 (fds ! w) fds"
    using assms(1) by (simp add: distinct_remove1_removeAll removeAll_filter_not_eq neq_commute)
  then show "distinct (filter (\<lambda>fd. fd \<noteq> fds ! w) fds)" "length (filter (\<lambda>fd. fd \<noteq> fds ! w) fds) = length fds - 1"
    using assms by (simp_all add: length_remove1)
qed

lemma length_split_on: "length (split_on c s) = Suc (count_list s c)"
  by (induction s) (auto split: list.splits)

section \<open>Properties\<close>

text \<open>
  C21: Every worker accepts from its own listener and holds no other: after a successful setup with
  distinct sockets, a child has closed exactly the listeners of the others, which under LIFO are
  none because all share one, and under Hermes its listener is the one the socket map holds at its
  id.
\<close>

theorem child_keeps_own_listener:
  assumes "setup_policy p port aya_error s = Some (Inr st, s')" and "distinct (owned st)" and "w < NUM_WORKERS"
  shows "let c = start_child (listen_fds st) hang w
    in set (owned st) - set (ch_closed c) = {ch_listen_fd c} \<and> distinct (ch_closed c) \<and>
      length (ch_closed c) = (if p = Lifo then 0 else NUM_WORKERS - 1) \<and>
      (p = Hermes \<longrightarrow> m_socket st (of_nat w) = Some (ch_listen_fd c)) \<and>
      ch_hang c = (case hang of Some (v, h) \<Rightarrow> if v = w then Some h else None | None \<Rightarrow> None)"
proof -
  note fds = setup_owned [OF assms(1)]
  have h: "ch_hang (start_child (listen_fds st) hang w) =
      (case hang of Some (v, h) \<Rightarrow> if v = w then Some h else None | None \<Rightarrow> None)"
    by (simp add: start_child_def)
  have own: "ch_listen_fd (start_child (listen_fds st) hang w) = listen_fds st ! w" by (simp add: start_child_def)
  have hermes: "p = Hermes \<longrightarrow> m_socket st (of_nat w) = Some (listen_fds st ! w)"
    using hermes_setup_sockets [OF _ assms(3)] assms(1) by auto
  have "set (owned st) - set (filter (\<lambda>fd. fd \<noteq> listen_fds st ! w) (listen_fds st)) = {listen_fds st ! w} \<and>
      distinct (filter (\<lambda>fd. fd \<noteq> listen_fds st ! w) (listen_fds st)) \<and>
      length (filter (\<lambda>fd. fd \<noteq> listen_fds st ! w) (listen_fds st)) = (if p = Lifo then 0 else NUM_WORKERS - 1)"
  proof (cases "p = Lifo")
    case True
    then obtain fd where "listen_fds st = replicate NUM_WORKERS fd" "owned st = [fd]" using fds by auto
    then show ?thesis using True assms(3) by simp
  next
    case False
    then have "distinct (listen_fds st)" "owned st = listen_fds st" "w < length (listen_fds st)"
      using fds assms(2,3) by simp_all
    then show ?thesis using False fds closed_others [of "listen_fds st" w] by auto
  qed
  then show ?thesis using hermes own h by (simp only: start_child_closed Let_def)
qed

theorem child_keeps_own_listener_witness:
  "\<exists>st s'. setup_policy Hermes 9000 None (sample_net (replicate 4 (0, 0))) = Some (Inr st, s') \<and>
    ch_closed (start_child (listen_fds st) None 2) = [5, 6, 8] \<and>
    set (owned st) - set (ch_closed (start_child (listen_fds st) None 2)) = {7}"
proof -
  obtain st s' where s: "setup_policy Hermes 9000 None (sample_net (replicate 4 (0, 0))) = Some (Inr st, s')"
    "listen_fds st = [5, 6, 7, 8]"
    using sample_setup by blast
  then have o: "owned st = [5, 6, 7, 8]" using setup_owned [OF s(1)] by simp
  have c: "ch_closed (start_child [5, 6, 7, 8] None 2) = [5, 6, 8]" "ch_listen_fd (start_child [5, 6, 7, 8] None 2) = 7"
    by (simp_all add: start_child_def)
  have "distinct (owned st)" by (simp add: o)
  from child_keeps_own_listener [OF s(1) this, of 2 None]
  have "set (owned st) - set (ch_closed (start_child (listen_fds st) None 2)) = {7}"
    by (simp add: s(2) c Let_def NUM_WORKERS_def)
  then show ?thesis using s c by (intro exI [of _ st] exI [of _ s']) simp
qed

text \<open>
  C39: A clean shutdown leaves nothing behind: once all forks succeed and the flag is eventually
  seen, the parent has started the workers in order, then signals every child, then waits for
  every child, and removes the pinned maps under Hermes only.
\<close>

theorem shutdown_reaps_every_worker:
  assumes "NUM_WORKERS \<le> length forks" and "\<forall>f\<in>set (take NUM_WORKERS forks). fst f \<noteq> - 1" and "True \<in> set flags"
  defines "pids \<equiv> map fst (take NUM_WORKERS forks)"
  shows "supervise p fds hang forks flags = Some (Clean_Exit,
    map2 (\<lambda>pid w. Forked pid (start_child fds hang w)) pids [0..<NUM_WORKERS] @
    map Terminated pids @ map Reaped pids @ (if p = Hermes then [Pins_Removed] else []))"
  using fork_workers_all [of "[0..<NUM_WORKERS]" forks fds hang "[]" "[]"] assms(1,2) await_shutdown_returns [OF assms(3)]
  by (simp add: supervise_def pids_def zip_map1 case_prod_beta)

theorem shutdown_reaps_every_worker_witness:
  "\<exists>started. supervise Lifo [5, 5, 5, 5] None [(11, 0), (12, 0), (13, 0), (14, 0)] [False, True] =
    Some (Clean_Exit, started @ map Terminated [11, 12, 13, 14] @ map Reaped [11, 12, 13, 14])"
  using shutdown_reaps_every_worker [of "[(11, 0), (12, 0), (13, 0), (14, 0)]" "[False, True]" Lifo "[5, 5, 5, 5]" None]
  by (auto simp: NUM_WORKERS_def)

text \<open>
  C40: A failed fork abandons the workers already running: the parent returns the error at once and
  neither signals nor waits for the children it has started, nor removes the pins.
\<close>

theorem failed_fork_abandons_workers:
  assumes "k < NUM_WORKERS" and "k < length forks" and "\<forall>f\<in>set (take k forks). fst f \<noteq> - 1" and "fst (forks ! k) = - 1"
  shows "supervise p fds hang forks flags = Some (Fork_Failed (snd (forks ! k)),
    map2 (\<lambda>f w. Forked (fst f) (start_child fds hang w)) (take k forks) [0..<k])"
  using fork_workers_fails [of k "[0..<NUM_WORKERS]" forks fds hang "[]" "[]"] assms
  by (auto simp: supervise_def take_upt case_prod_beta)

theorem failed_fork_abandons_workers_witness:
  "supervise Hermes [5, 6, 7, 8] None [(11, 0), (- 1, 12)] [True] =
    Some (Fork_Failed 12, [Forked 11 (start_child [5, 6, 7, 8] None 0)])"
  using failed_fork_abandons_workers [of 1 "[(11, 0), (- 1, 12)]" Hermes "[5, 6, 7, 8]" None "[True]"]
  by (simp add: NUM_WORKERS_def)

text \<open>
  The hang setting reads back what it is written from, \<open>worker:start:duration\<close> in milliseconds;
  a text without exactly two colons, or with a component that is not a number in range, is
  ignored, and so is an unset variable.
\<close>

lemma hang_inject_round_trip:
  "(w < 2 ^ 64 \<longrightarrow> parse_hang_inject (Some (join_with '':'' [show_nat w, show_nat (unat a), show_nat (unat d)])) =
      Some (w, \<lparr>hang_at = from_millis a, hang_duration = from_millis d\<rparr>)) \<and>
   (parse_hang_inject (Some s) = Some (w', h) \<longrightarrow> count_list s (CHR '':'') = 2 \<and>
      (\<exists>at_ms dur_ms. map parse_unsigned (split_on (CHR '':'') s) = [Some w', Some (unat at_ms), Some (unat dur_ms)] \<and>
        h = \<lparr>hang_at = from_millis at_ms, hang_duration = from_millis dur_ms\<rparr>)) \<and>
   parse_hang_inject None = None"
proof (intro conjI impI)
  assume w: "w < 2 ^ 64"
  have "CHR '':'' \<notin> set (show_nat n)" for n using plain_show_nat [of n] by (auto simp: plain_def separator_def)
  then have "split_on (CHR '':'') (join_with '':'' [show_nat w, show_nat (unat a), show_nat (unat d)]) =
      [show_nat w, show_nat (unat a), show_nat (unat d)]"
    by (intro split_join) auto
  then show "parse_hang_inject (Some (join_with '':'' [show_nat w, show_nat (unat a), show_nat (unat d)])) =
      Some (w, \<lparr>hang_at = from_millis a, hang_duration = from_millis d\<rparr>)"
    using w by (simp add: parse_hang_inject_def usize_text.parse_print u64_text.parse_print)
next
  assume p: "parse_hang_inject (Some s) = Some (w', h)"
  then obtain x y z where xyz: "split_on (CHR '':'') s = [x, y, z]"
    by (auto simp: parse_hang_inject_def split: list.splits)
  then show "count_list s (CHR '':'') = 2" using length_split_on [of "CHR '':''" s] by simp
  have u: "parse_u64 t = Some v \<Longrightarrow> parse_unsigned t = Some (unat v)" for t v
    by (auto simp: parse_u64_def parse_unsigned_def Let_def unat_of_nat take_bit_eq_mod split: option.splits if_splits)
  show "\<exists>at_ms dur_ms. map parse_unsigned (split_on (CHR '':'') s) = [Some w', Some (unat at_ms), Some (unat dur_ms)] \<and>
      h = \<lparr>hang_at = from_millis at_ms, hang_duration = from_millis dur_ms\<rparr>"
    using p u by (auto simp: parse_hang_inject_def xyz bind_eq_Some_conv)
qed (simp add: parse_hang_inject_def)

lemma hang_inject_round_trip_witness:
  "parse_hang_inject (Some (join_with '':'' [show_nat 0, show_nat (unat (1500 :: u64)), show_nat (unat (400 :: u64))])) =
    Some (0, \<lparr>hang_at = from_millis 1500, hang_duration = from_millis 400\<rparr>)"
  using hang_inject_round_trip [of 0 1500 400 "[]" 0 "\<lparr>hang_at = 0, hang_duration = 0\<rparr>"] by simp

text \<open>
  C24: The program never runs on a half-filled map: whichever step of the loading fails, the eBPF
  program is attached only after every worker's listener is in the socket map, it is attached
  through the first listener, and success and failure are those of \<open>load_and_attach_ebpf\<close>.
\<close>

theorem attached_only_with_full_map:
  assumes "length fds = NUM_WORKERS"
  shows "case load_ebpf fails rlimit_ret fds of (err, e) \<Rightarrow>
    (eb_attached e = (if err = None then Some (fds ! 0) else None)) \<and>
    (eb_attached e \<noteq> None \<longrightarrow> eb_pinned e \<and> (\<forall>i<NUM_WORKERS. eb_sockets e (of_nat i) = Some (fds ! i))) \<and>
    load_and_attach_ebpf err fds = (case err of None \<Rightarrow> Inr (eb_sockets e) | Some x \<Rightarrow> Inl (Ebpf_Error x))"
proof -
  obtain a b c d where fds: "fds = [a, b, c, d]"
    using assms by (auto simp: NUM_WORKERS_def length_Suc_conv eval_nat_numeral)
  have i: "i = 0 \<or> i = 1 \<or> i = 2 \<or> i = 3" if "i < NUM_WORKERS" for i
    using that by (auto simp: NUM_WORKERS_def)
  have "[0..<length fds] = [0, 1, 2, 3]" by (simp add: fds upt_rec)
  then show ?thesis
    unfolding load_ebpf_def load_steps_def bump_memlock_rlimit_def Let_def
    by (auto simp: fds do_step_def load_and_attach_ebpf_def fun_eq_iff split: option.splits dest!: i)
qed

theorem attached_only_with_full_map_witness:
  "eb_attached (snd (load_ebpf (\<lambda>st. if st = Set_Socket 2 then Some 22 else None) 0 [5, 6, 7, 8])) = None \<and>
   eb_attached (snd (load_ebpf (\<lambda>st. None) 0 [5, 6, 7, 8])) = Some 5"
proof -
  have l: "length [5, 6, 7, 8 :: int] = NUM_WORKERS" by (simp add: NUM_WORKERS_def)
  have "fst (load_ebpf (\<lambda>st. if st = Set_Socket 2 then Some 22 else None) 0 [5, 6, 7, 8]) = Some 22"
    and "fst (load_ebpf (\<lambda>st. None) 0 [5, 6, 7, 8]) = None"
    by (simp_all add: load_ebpf_def load_steps_def bump_memlock_rlimit_def upt_rec)
  then show ?thesis
    using attached_only_with_full_map [OF l, of "\<lambda>st. if st = Set_Socket 2 then Some 22 else None" 0]
      attached_only_with_full_map [OF l, of "\<lambda>st. None" 0]
    by (auto split: prod.splits)
qed

end
