(* ===== verification/Hermes_Process.thy ===== *)
theory Hermes_Process
  imports Launcher
begin

text \<open>
  The eBPF version as a process, \<open>main\<close> of \<open>hermes/src/main.rs\<close> around \<open>Launcher\<close>: the options, what
  the parent does before its first \<open>fork\<close> and which failure ends it there, the arguments of every
  worker and how a worker's process ends. Every call that may fail is an input; strings are UTF-8
  bytes, and the text of an error is a parameter.
\<close>

section \<open>The command line\<close>

record hermes_cli =
  hc_policy :: string
  hc_port :: u16
  hc_metrics_dir :: string
  hc_verbose :: bool


section \<open>The parent\<close>

datatype stop_signal = SIGINT | SIGTERM

text \<open>What the system answers to the calls of the parent, in their order.\<close>

record hermes_system =
  hs_dir_error :: "errno option"
  hs_hang_env :: "string option"
  hs_register_error :: "stop_signal \<Rightarrow> errno option"
  hs_map_failed :: bool
  hs_aya_error :: "nat option"
  hs_net :: net
  hs_forks :: "(int \<times> errno) list"
  hs_flags :: "bool list"

datatype main_exit =
    Unknown_Policy string
  | Metrics_Dir_Failed errno
  | Handler_Failed stop_signal errno
  | Wst_Panic map_error
  | Setup_Failed setup_error
  | Ran exit

text \<open>A call of a chain that ends at the first error, as \<open>?\<close> does.\<close>

fun first_error :: "'e option list \<Rightarrow> 'e option" where
  "first_error [] = None"
| "first_error (Some e # rest) = Some e"
| "first_error (None # rest) = first_error rest"

text \<open>What \<open>main\<close> does between the parsed policy and the sockets.\<close>

definition prepare :: "hermes_system \<Rightarrow> main_exit option" where
  "prepare sy =
     first_error
       [map_option Metrics_Dir_Failed (hs_dir_error sy),
        map_option (Handler_Failed SIGINT) (hs_register_error sy SIGINT),
        map_option (Handler_Failed SIGTERM) (hs_register_error sy SIGTERM),
        (case mmap_wst (hs_map_failed sy) of Inl e \<Rightarrow> Some (Wst_Panic e) | Inr w \<Rightarrow> None)]"

definition main_process :: "hermes_cli \<Rightarrow> hermes_system \<Rightarrow> (main_exit \<times> net \<times> action list) option" where
  "main_process cli sy =
     (case policy_parse (hc_policy cli) of
        None \<Rightarrow> Some (Unknown_Policy (hc_policy cli), hs_net sy, [])
      | Some p \<Rightarrow>
          (case prepare sy of
             Some e \<Rightarrow> Some (e, hs_net sy, [])
           | None \<Rightarrow>
               let hang = parse_hang_inject (hs_hang_env sy)
               in case setup_policy p (hc_port cli) (hs_aya_error sy) (hs_net sy) of
                 None \<Rightarrow> None
               | Some (Inl e, s) \<Rightarrow> Some (Setup_Failed e, s, [])
               | Some (Inr st, s) \<Rightarrow>
                   map_option (\<lambda>(ex, actions). (Ran ex, s, actions))
                     (supervise p (listen_fds st) hang (hs_forks sy) (hs_flags sy))))"

section \<open>A worker's process\<close>

record hermes_worker_args =
  ha_worker_id :: nat
  ha_listen_fd :: fd
  ha_policy :: policy
  ha_hang :: "hang_spec option"
  ha_tick_path :: string
  ha_verbose :: bool

definition hermes_tick_path :: "string \<Rightarrow> nat \<Rightarrow> string" where
  "hermes_tick_path dir worker_id = path_join dir (''w'' @ show_nat worker_id @ ''_ticks.csv'')"

definition hermes_child :: "hermes_cli \<Rightarrow> policy \<Rightarrow> child \<Rightarrow> hermes_worker_args" where
  "hermes_child cli p c =
     \<lparr>ha_worker_id = ch_worker c, ha_listen_fd = ch_listen_fd c, ha_policy = p, ha_hang = ch_hang c,
      ha_tick_path = hermes_tick_path (hc_metrics_dir cli) (ch_worker c), ha_verbose = hc_verbose cli\<rparr>"

datatype worker_error = Start_Error start_error | Loop_Error errno

text \<open>What the calls before the loop return in one worker's process, and its turns.\<close>

record worker_run =
  wr_create :: "int \<times> errno"
  wr_add :: "int \<times> errno"
  wr_map_failed :: bool
  wr_tick_error :: "errno option"
  wr_turns :: "turn list"

definition run_worker ::
  "hermes_worker_args \<Rightarrow> worker_run \<Rightarrow> loop_state \<Rightarrow> (worker_error + loop_state \<times> fd set) option" where
  "run_worker a r lp =
     (case worker_start (ha_listen_fd a) (ha_policy a) (wr_create r) (wr_add r) (wr_map_failed r) (wr_tick_error r) of
        Inl e \<Rightarrow> Some (Inl (Start_Error e))
      | Inr started \<Rightarrow>
          (case worker_loop (ha_worker_id a) (ha_listen_fd a) (ha_policy a) (wr_turns r) (lp\<lparr>lp_hang := ha_hang a\<rparr>) of
             None \<Rightarrow> None
           | Some (Inl e) \<Rightarrow> Some (Inl (Loop_Error e))
           | Some (Inr finished) \<Rightarrow> Some (Inr finished)))"

text \<open>The status of the process and its line on the error console.\<close>

definition child_exit :: "(worker_error \<Rightarrow> string) \<Rightarrow> nat \<Rightarrow> worker_error + 'a \<Rightarrow> nat \<times> string" where
  "child_exit error_text worker_id result =
     (case result of
        Inl e \<Rightarrow> (1, write_line (''[w'' @ show_nat worker_id @ ''] fatal: '' @ error_text e))
      | Inr _ \<Rightarrow> (0, []))"


section \<open>How the process ends\<close>





text \<open>The errors before the sockets name the call that failed, and every call before it succeeded.\<close>

lemma prepare_Some:
  "prepare sy = Some e \<Longrightarrow>
    (case e of
       Metrics_Dir_Failed err \<Rightarrow> hs_dir_error sy = Some err
     | Handler_Failed sg err \<Rightarrow> hs_dir_error sy = None \<and> hs_register_error sy sg = Some err
     | Wst_Panic err \<Rightarrow> hs_map_failed sy \<and> (\<forall>sg. hs_register_error sy sg = None)
     | _ \<Rightarrow> False)"
proof -
  have all: "\<forall>sg. hs_register_error sy sg = None"
    if "hs_register_error sy SIGINT = None" "hs_register_error sy SIGTERM = None"
    using that by (metis stop_signal.exhaust)
  show "prepare sy = Some e \<Longrightarrow> ?thesis"
    using all
    by (cases "hs_dir_error sy"; cases "hs_register_error sy SIGINT"; cases "hs_register_error sy SIGTERM")
      (auto simp: prepare_def mmap_wst_def split: if_splits)
qed

text \<open>
  The process fails early and clean: an unknown policy, and every failure before the sockets, ends it with
  no socket opened and no worker forked; otherwise it reaches the setup, whose failure forks no worker
  either, and with all that done it runs the workers to the end of the supervision.
\<close>

lemma main_process_ends:
  assumes "\<forall>p. setup_policy p (hc_port cli) (hs_aya_error sy) (hs_net sy) \<noteq> None"
    and "NUM_WORKERS \<le> length (hs_forks sy)" and "\<forall>f\<in>set (hs_forks sy). fst f \<noteq> - 1" and "True \<in> set (hs_flags sy)"
  shows "\<exists>ex s actions. main_process cli sy = Some (ex, s, actions) \<and>
    (case ex of
       Unknown_Policy word \<Rightarrow> policy_parse word = None \<and> word = hc_policy cli
     | Ran r \<Rightarrow> r = Clean_Exit \<and> prepare sy = None
     | Setup_Failed e \<Rightarrow> prepare sy = None
     | e \<Rightarrow> prepare sy = Some e) \<and>
    ((\<forall>r. ex \<noteq> Ran r) \<longrightarrow> actions = []) \<and>
    ((\<forall>r. ex \<noteq> Ran r) \<and> (\<forall>e. ex \<noteq> Setup_Failed e) \<longrightarrow> s = hs_net sy)"
proof (cases "policy_parse (hc_policy cli)")
  case None
  then show ?thesis by (simp add: main_process_def)
next
  case p: (Some p)
  show ?thesis
  proof (cases "prepare sy")
    case None
    obtain res s where r: "setup_policy p (hc_port cli) (hs_aya_error sy) (hs_net sy) = Some (res, s)"
      using assms(1) by fastforce
    have "\<forall>(pid, err)\<in>set (take NUM_WORKERS (hs_forks sy)). pid \<noteq> - 1"
      using assms(3) by (fastforce dest: in_set_takeD)
    then have f: "fork_workers fds h [0..<NUM_WORKERS] (hs_forks sy) [] [] =
        Some (None, map fst (take NUM_WORKERS (hs_forks sy)),
          map2 (\<lambda>f w. Forked (fst f) (start_child fds h w)) (take NUM_WORKERS (hs_forks sy)) [0..<NUM_WORKERS])" for fds h
      using fork_workers_all [of "[0..<NUM_WORKERS]" "hs_forks sy" fds h "[]" "[]"] assms(2) by simp
    show ?thesis
      using p None r await_shutdown_returns [OF assms(4)]
      by (cases res) (simp_all add: main_process_def supervise_def f Let_def)
  next
    case (Some e)
    from prepare_Some [OF this] show ?thesis
      using p Some by (cases e) (simp_all add: main_process_def)
  qed
qed

text \<open>
  The tick files do not collide, each worker listens where the parent put it, and a worker that is
  named in the hang setting is the only one that hangs.
\<close>

lemma hermes_workers_are_apart:
  "hermes_tick_path dir v = hermes_tick_path dir w \<longleftrightarrow> v = w"
  "parse_hang_inject env = Some (v, h) \<Longrightarrow>
    ha_hang (hermes_child cli p (start_child fds (parse_hang_inject env) w)) = (if w = v then Some h else None)"
  "setup_policy p port aya_error s = Some (Inr st, s') \<Longrightarrow>
    ha_listen_fd (hermes_child cli p (start_child (listen_fds st) hang w)) = listen_fds st ! w"
  by (auto simp: hermes_tick_path_def path_join_inject show_nat_inject hermes_child_def start_child_def)

text \<open>A worker that cannot start, or whose loop fails, says so and ends with status 1.\<close>

lemma child_exit_status:
  "run_worker a r lp = Some result \<Longrightarrow>
    fst (child_exit error_text (ha_worker_id a) result) = 0 \<longleftrightarrow>
      (\<exists>started lp' closed_fds.
        worker_start (ha_listen_fd a) (ha_policy a) (wr_create r) (wr_add r) (wr_map_failed r) (wr_tick_error r) =
          Inr started \<and>
        worker_loop (ha_worker_id a) (ha_listen_fd a) (ha_policy a) (wr_turns r) (lp\<lparr>lp_hang := ha_hang a\<rparr>) =
          Some (Inr (lp', closed_fds)) \<and>
        snd (child_exit error_text (ha_worker_id a) result) = [])"
  by (auto simp: run_worker_def child_exit_def split: sum.splits option.splits)

section \<open>Properties\<close>




end
