(* ===== verification/Sim_Metrics.thy ===== *)
theory Sim_Metrics
  imports Tick_Csv Latency Sim_Worker
begin

text \<open>
  The CSV output of the simulation, \<open>userspace_simulation/src/metrics.rs\<close>: the rows as lines, the
  shard files of the workers, their merge by the parent, and the summary it computes from the
  merged lines. A shard is what opening and reading it yields: \<open>None\<close> if it cannot be opened, else
  the items of \<open>BufRead::lines\<close>, each a line or an error. What is written to a file is a string.
\<close>

section \<open>Lines\<close>

definition sim_tick_header :: string where
  "sim_tick_header = header_line ''queue_len''"

definition sim_format_tick_row :: "sim_tick_row \<Rightarrow> string" where
  "sim_format_tick_row row =
     tick_line (stk_timestamp_ns row) (stk_worker_id row) (stk_iter row) (stk_result row) (stk_queue_len row)
       (Sim_Dispatcher.policy_as_str (stk_policy row)) (stk_snapshots row)"

definition sim_print_tick :: "sim_tick_row \<Rightarrow> string" where
  "sim_print_tick row =
     (let sched = (case stk_result row of
            Some r \<Rightarrow> ''stages '' @ show_nat (after_stage1 r) @ ''/'' @ show_nat (after_stage2 r) @ ''/'' @
              show_nat (after_stage3 r) @ '' bitmap='' @ show_bin (bitmap r)
          | None \<Rightarrow> ''(no scheduler)'')
      in ''[w'' @ show_nat (stk_worker_id row) @ ''][''  @ Sim_Dispatcher.policy_as_str (stk_policy row) @ ''] iter '' @
         pad_left 4 (CHR '' '') (show_nat (unat (stk_iter row))) @
         '' | conns=['' @ print_metric snap_accumulated_conns (stk_snapshots row) @
         ''] events=['' @ print_metric snap_pending_events (stk_snapshots row) @
         ''] qlen='' @ pad_left 3 (CHR '' '') (show_nat (stk_queue_len row)) @ '' | '' @ sched)"

definition kind_str :: "row_kind \<Rightarrow> string" where
  "kind_str k = (case k of Accept_Row \<Rightarrow> ''accept'' | Burst_Row \<Rightarrow> ''burst'')"

definition conn_header :: string where
  "conn_header = ''conn_id,worker_id,arrival_ns,dequeue_ns,done_ns,queue_wait_us,service_us,latency_us,policy,kind''"

definition format_conn_row :: "sim_conn_row \<Rightarrow> string" where
  "format_conn_row row =
     (let queue_wait_us = micros_between (row_arrival_ns row) (row_dequeue_ns row);
          latency_us = micros_between (row_arrival_ns row) (row_done_ns row)
      in join_with '','' [show_nat (unat (row_conn_id row)), show_nat (row_worker_id row),
           show_int (sint (row_arrival_ns row)), show_int (sint (row_dequeue_ns row)), show_int (sint (row_done_ns row)),
           show_int (sint queue_wait_us), show_nat (unat (row_service_us row)), show_int (sint latency_us),
           Sim_Dispatcher.policy_as_str (row_policy row), kind_str (row_kind_of row)])"

text \<open>\<open>write_lines\<close> truncates the file and writes one line each.\<close>

definition write_lines :: "string list \<Rightarrow> string" where
  "write_lines ls = concat (map write_line ls)"

definition shards_write :: "sim_state \<Rightarrow> string \<times> string" where
  "shards_write s = (write_lines (map sim_format_tick_row (sw_ticks s)), write_lines (map format_conn_row (sw_conns s)))"

section \<open>Merging\<close>

type_synonym shard = "(errno + string) list option"

definition line_key :: "string \<Rightarrow> i64" where
  "line_key line =
     (case parse_i64 (case split_on (CHR '','') line of f # fs \<Rightarrow> f | [] \<Rightarrow> ''0'') of
        Some k \<Rightarrow> k
      | None \<Rightarrow> 0)"

fun read_shard :: "(errno + string) list \<Rightarrow> (i64 \<times> string) list \<Rightarrow> errno + (i64 \<times> string) list" where
  "read_shard [] ls = Inr ls"
| "read_shard (Inl e # items) ls = Inl e"
| "read_shard (Inr line # items) ls =
     (if line = [] then read_shard items ls else read_shard items (ls @ [(line_key line, line)]))"

fun read_shards :: "shard list \<Rightarrow> (i64 \<times> string) list \<Rightarrow> errno + (i64 \<times> string) list" where
  "read_shards [] ls = Inr ls"
| "read_shards (None # shards) ls = read_shards shards ls"
| "read_shards (Some items # shards) ls =
     (case read_shard items ls of Inl e \<Rightarrow> Inl e | Inr ls \<Rightarrow> read_shards shards ls)"

text \<open>The merged lines and the file written; \<open>out_error\<close> is a failure of creating or writing it.\<close>

definition merge_shards :: "shard list \<Rightarrow> string \<Rightarrow> errno option \<Rightarrow> errno + string list \<times> string" where
  "merge_shards shards header out_error =
     (case read_shards shards [] of
        Inl e \<Rightarrow> Inl e
      | Inr ls \<Rightarrow>
          let ls = sort_key (\<lambda>kl. sint (fst kl)) ls
          in case out_error of
            Some e \<Rightarrow> Inl e
          | None \<Rightarrow> Inr (map snd ls, write_line header @ concat (map (\<lambda>kl. write_line (snd kl)) ls)))"

section \<open>Summarizing\<close>

record conn_summary =
  cs_completed :: nat
  cs_completed_per_worker :: "nat list"
  cs_mean_us :: rat
  cs_p50_us :: i64
  cs_p99_us :: i64
  cs_max_us :: i64

definition conn_summary_default :: conn_summary where
  "conn_summary_default = \<lparr>cs_completed = 0, cs_completed_per_worker = replicate NUM_WORKERS 0, cs_mean_us = 0,
     cs_p50_us = 0, cs_p99_us = 0, cs_max_us = 0\<rparr>"

definition get_field :: "nat \<Rightarrow> string list \<Rightarrow> string option" where
  "get_field i fs = (if i < length fs then Some (fs ! i) else None)"

definition summarize_line :: "string \<Rightarrow> conn_summary \<times> i64 list \<Rightarrow> conn_summary \<times> i64 list" where
  "summarize_line line = (\<lambda>(summary, latencies).
     let fs = split_on (CHR '','') line
     in case (Option.bind (get_field 1 fs) parse_unsigned, Option.bind (get_field 7 fs) parse_i64) of
          (Some worker, Some latency) \<Rightarrow>
            ((if worker < NUM_WORKERS
              then summary\<lparr>cs_completed_per_worker :=
                (cs_completed_per_worker summary)[worker := cs_completed_per_worker summary ! worker + 1]\<rparr>
              else summary), latencies @ [latency])
        | _ \<Rightarrow> (summary, latencies))"

definition sim_percentile :: "i64 list \<Rightarrow> rat \<Rightarrow> i64" where
  "sim_percentile sorted_values p =
     (let rank = max 1 (min (nat \<lceil>f64_mul (f64_of_int (int (length sorted_values))) p\<rceil>) (length sorted_values))
      in sorted_values ! (rank - 1))"

definition summarize_conns :: "string list \<Rightarrow> conn_summary" where
  "summarize_conns ls =
     (let (summary, latencies) = fold summarize_line ls (conn_summary_default, [])
      in if latencies = [] then summary
         else let latencies = sort_i64 latencies
              in summary\<lparr>
                cs_completed := length latencies,
                cs_mean_us := f64_div (f64_of_int (sint (sum_list latencies))) (f64_of_int (int (length latencies))),
                cs_p50_us := sim_percentile latencies P50,
                cs_p99_us := sim_percentile latencies P99,
                cs_max_us := last latencies\<rparr>)"

lemma sim_percentile: "sim_percentile = percentile"
  by (simp add: fun_eq_iff sim_percentile_def percentile_def percentile_rank_def)

section \<open>The merge is a stable sort of all lines\<close>

lemma map_sort_key: "map g (sort_key (\<lambda>x. f (g x)) xs) = sort_key f (map g xs)"
proof -
  have "map g (insort_key (\<lambda>x. f (g x)) x ys) = insort_key f (g x) (map g ys)" for x ys
    by (induction ys) simp_all
  then show ?thesis by (induction xs) simp_all
qed

definition shard_lines :: "shard \<Rightarrow> string list" where
  "shard_lines sh = (case sh of None \<Rightarrow> [] | Some items \<Rightarrow> filter (\<lambda>l. l \<noteq> []) (map projr items))"

definition readable :: "shard \<Rightarrow> bool" where
  "readable sh = (case sh of None \<Rightarrow> True | Some items \<Rightarrow> list_all (\<lambda>i. case i of Inl e \<Rightarrow> False | Inr l \<Rightarrow> True) items)"

definition keyed :: "string list \<Rightarrow> (i64 \<times> string) list" where
  "keyed ls = map (\<lambda>l. (line_key l, l)) ls"

lemma read_shard_lines:
  "readable (Some items) \<Longrightarrow> read_shard items ls = Inr (ls @ keyed (shard_lines (Some items)))"
proof (induction items ls rule: read_shard.induct)
  case (3 line items ls)
  then show ?case by (simp add: readable_def shard_lines_def keyed_def)
qed (simp_all add: readable_def shard_lines_def keyed_def)

lemma read_shards_lines:
  "\<forall>sh\<in>set shards. readable sh \<Longrightarrow>
    read_shards shards ls = Inr (ls @ keyed (concat (map shard_lines shards)))"
proof (induction shards ls rule: read_shards.induct)
  case (3 items shards ls)
  then have "readable (Some items)" by simp
  from 3 read_shard_lines [OF this] show ?case by (simp add: keyed_def)
qed (simp_all add: keyed_def shard_lines_def)

lemma merge_shards_sorts:
  assumes "\<forall>sh\<in>set shards. readable sh"
  shows "merge_shards shards header None =
    (let ls = sort_key (\<lambda>l. sint (line_key l)) (concat (map shard_lines shards)) in Inr (ls, write_lines (header # ls)))"
proof -
  have "sort_key (\<lambda>kl. sint (fst kl)) (keyed ls) = keyed (sort_key (\<lambda>l. sint (line_key l)) ls)" for ls
    using map_sort_key [of "\<lambda>l. (line_key l, l)" "\<lambda>kl. sint (fst kl)" ls] by (simp add: keyed_def)
  then show ?thesis
    using read_shards_lines [OF assms, of "[]"]
    by (simp add: merge_shards_def Let_def keyed_def comp_def write_lines_def)
qed

lemma unreadable_shard:
  assumes "\<not> readable sh" and "sh \<in> set shards"
  shows "\<exists>e. merge_shards shards header out_error = Inl e"
proof -
  have 1: "\<not> readable (Some items) \<Longrightarrow> \<exists>e. read_shard items ls = Inl e" for items ls
    by (induction items ls rule: read_shard.induct) (auto simp: readable_def)
  have "\<exists>e. read_shards shards ls = Inl e" for ls
    using assms(2)
  proof (induction shards ls rule: read_shards.induct)
    case (3 items shards ls)
    then show ?case using 1 [of items ls] assms(1) by (cases "read_shard items ls") auto
  qed (use assms(1) in \<open>auto simp: readable_def\<close>)
  then obtain e where "read_shards shards [] = Inl e" by blast
  then show ?thesis by (simp add: merge_shards_def)
qed

section \<open>The columns of a connection row\<close>

definition row_latency :: "sim_conn_row \<Rightarrow> i64" where
  "row_latency row = micros_between (row_arrival_ns row) (row_done_ns row)"

definition conn_columns :: "sim_conn_row \<Rightarrow> string list" where
  "conn_columns row =
     [show_nat (unat (row_conn_id row)), show_nat (row_worker_id row), show_int (sint (row_arrival_ns row)),
      show_int (sint (row_dequeue_ns row)), show_int (sint (row_done_ns row)),
      show_int (sint (micros_between (row_arrival_ns row) (row_dequeue_ns row))), show_nat (unat (row_service_us row)),
      show_int (sint (row_latency row)), Sim_Dispatcher.policy_as_str (row_policy row), kind_str (row_kind_of row)]"

lemma format_columns: "format_conn_row row = join_with '','' (conn_columns row)"
  by (simp add: format_conn_row_def conn_columns_def row_latency_def Let_def)

lemma plain_names: "plain (Sim_Dispatcher.policy_as_str p)" "plain (kind_str k)"
  by (cases p; simp add: Sim_Dispatcher.policy_as_str_def plain_def separator_def)
    (cases k; simp add: kind_str_def plain_def separator_def)

lemma plain_conn_columns: "\<forall>s\<in>set (conn_columns row). plain s"
  by (simp add: conn_columns_def plain_names)

lemma split_conn_row: "split_on (CHR '','') (format_conn_row row) = conn_columns row"
  unfolding format_columns by (rule split_join_plain [OF _ plain_conn_columns]) (simp add: conn_columns_def)

lemma format_conn_row_line: "clean_line (format_conn_row row)" "format_conn_row row \<noteq> []"
proof -
  show "clean_line (format_conn_row row)" unfolding format_columns by (rule clean_join [OF plain_conn_columns])
  show "format_conn_row row \<noteq> []" using split_conn_row [of row] by (auto simp: conn_columns_def)
qed

definition row_in_range :: "sim_conn_row \<Rightarrow> bool" where
  "row_in_range row \<longleftrightarrow> row_worker_id row < 2 ^ 64"

definition count_worker :: "nat \<Rightarrow> nat list \<Rightarrow> nat list" where
  "count_worker w ns = (if w < NUM_WORKERS then ns[w := ns ! w + 1] else ns)"

lemma summarize_row:
  assumes "row_in_range row"
  shows "summarize_line (format_conn_row row) (s, ls) =
    (s\<lparr>cs_completed_per_worker := count_worker (row_worker_id row) (cs_completed_per_worker s)\<rparr>, ls @ [row_latency row])"
  using assms
  by (simp add: summarize_line_def split_conn_row conn_columns_def get_field_def usize_text.parse_print
      i64_text.parse_print row_in_range_def count_worker_def)

lemma summarize_rows:
  assumes "\<forall>row\<in>set rows. row_in_range row"
  shows "fold summarize_line (map format_conn_row rows) (s, ls) =
    (s\<lparr>cs_completed_per_worker := fold (\<lambda>row. count_worker (row_worker_id row)) rows (cs_completed_per_worker s)\<rparr>,
     ls @ map row_latency rows)"
  using assms by (induction rows arbitrary: s ls) (simp_all add: summarize_row)

lemma count_workers:
  assumes "length ns = NUM_WORKERS"
  shows "length (fold (\<lambda>row. count_worker (row_worker_id row)) rows ns) = NUM_WORKERS \<and>
    (\<forall>w<NUM_WORKERS. fold (\<lambda>row. count_worker (row_worker_id row)) rows ns ! w =
      ns ! w + length (filter (\<lambda>row. row_worker_id row = w) rows))"
  using assms
proof (induction rows arbitrary: ns)
  case (Cons row rows)
  have "length (count_worker (row_worker_id row) ns) = NUM_WORKERS" using Cons.prems by (simp add: count_worker_def)
  from Cons.IH [OF this] show ?case using Cons.prems by (auto simp: count_worker_def nth_list_update)
qed simp

lemma summarize_conns_workers: "length (cs_completed_per_worker (summarize_conns ls)) = NUM_WORKERS"
proof -
  have "length (cs_completed_per_worker (fst (fold summarize_line ls (s, lats)))) = length (cs_completed_per_worker s)"
    for s lats
    by (induction ls arbitrary: s lats) (auto simp: summarize_line_def Let_def split: option.splits)
  from this [of conn_summary_default "[]"] show ?thesis
    by (auto simp: summarize_conns_def conn_summary_default_def Let_def split: prod.splits)
qed

text \<open>The files of the workers, one missing where there was nothing to write.\<close>

definition shard_of :: "sim_conn_row list \<Rightarrow> shard \<Rightarrow> bool" where
  "shard_of rows sh \<longleftrightarrow>
     sh = Some (map Inr (file_lines (write_lines (map format_conn_row rows)))) \<or> rows = [] \<and> sh = None"

lemma shard_of_lines: "shard_of rows sh \<Longrightarrow> readable sh \<and> shard_lines sh = map format_conn_row rows"
proof -
  have "file_lines (write_lines (map format_conn_row rows)) = map format_conn_row rows"
    unfolding write_lines_def by (rule lines_written) (simp add: format_conn_row_line)
  moreover have "filter (\<lambda>l. l \<noteq> []) (map format_conn_row rows) = map format_conn_row rows"
    by (simp add: filter_id_conv format_conn_row_line)
  ultimately show "shard_of rows sh \<Longrightarrow> ?thesis"
    by (auto simp: shard_of_def readable_def shard_lines_def comp_def list_all_iff)
qed

lemma shards_of_lines:
  "list_all2 shard_of rowss shards \<Longrightarrow> (\<forall>sh\<in>set shards. readable sh) \<and>
    concat (map shard_lines shards) = map format_conn_row (concat rowss)"
  by (induction rule: list_all2_induct) (auto dest: shard_of_lines)

lemma sint_eq_iff: "sint a = sint b \<longleftrightarrow> a = b" for a b :: i64
  by (auto intro: signed_word_eqI)

lemma sort_i64_mset: "mset xs = mset ys \<Longrightarrow> sort_i64 xs = sort_i64 ys"
  unfolding sort_i64_def
  by (rule sort_key_inj_key_eq) (auto simp: inj_on_def signed_word_eqI)

section \<open>The summary of the merged lines\<close>

text \<open>
  Whatever rows the workers wrote, the summary the parent computes from the merged text counts all
  of them, each for the worker that wrote it, and its percentiles and maximum are those of the
  rows' latencies.
\<close>

lemma summary_of_written_rows:
  assumes "list_all2 shard_of rowss shards" and "\<forall>row\<in>set (concat rowss). row_in_range row"
  shows "\<exists>ls file. merge_shards shards conn_header None = Inr (ls, file) \<and>
    cs_completed (summarize_conns ls) = length (concat rowss) \<and>
    (\<forall>w<NUM_WORKERS. cs_completed_per_worker (summarize_conns ls) ! w =
      length (filter (\<lambda>row. row_worker_id row = w) (concat rowss))) \<and>
    (concat rowss \<noteq> [] \<longrightarrow>
      cs_p50_us (summarize_conns ls) = percentile (sort_i64 (map row_latency (concat rowss))) P50 \<and>
      cs_p99_us (summarize_conns ls) = percentile (sort_i64 (map row_latency (concat rowss))) P99 \<and>
      cs_max_us (summarize_conns ls) = last (sort_i64 (map row_latency (concat rowss))))"
proof -
  note sh = shards_of_lines [OF assms(1)]
  define rows where "rows = sort_key (\<lambda>row. sint (line_key (format_conn_row row))) (concat rowss)"
  have ls: "sort_key (\<lambda>l. sint (line_key l)) (concat (map shard_lines shards)) = map format_conn_row rows"
    using sh map_sort_key [of format_conn_row "\<lambda>l. sint (line_key l)" "concat rowss"] by (simp add: rows_def)
  have m: "merge_shards shards conn_header None =
      Inr (map format_conn_row rows, write_lines (conn_header # map format_conn_row rows))"
    unfolding merge_shards_sorts [OF conjunct1 [OF sh]] ls Let_def ..
  have perm: "mset rows = mset (concat rowss)" by (simp add: rows_def)
  then have ok: "\<forall>row\<in>set rows. row_in_range row" using assms(2) by (metis mset_eq_setD)
  have len: "length rows = length (concat rowss)" using perm by (metis size_mset)
  have cnt: "length (filter P rows) = length (filter P (concat rowss))" for P
    using perm by (metis mset_filter size_mset)
  have "mset (map row_latency rows) = mset (map row_latency (concat rowss))" using perm by simp
  then have lat: "sort_i64 (map row_latency rows) = sort_i64 (map row_latency (concat rowss))" by (rule sort_i64_mset)
  let ?n = "fold (\<lambda>row. count_worker (row_worker_id row)) rows (replicate NUM_WORKERS 0)"
  have n: "\<forall>w<NUM_WORKERS. ?n ! w = length (filter (\<lambda>row. row_worker_id row = w) rows)"
    using count_workers [of "replicate NUM_WORKERS 0" rows] by simp
  have fold: "fold summarize_line (map format_conn_row rows) (conn_summary_default, []) =
      (conn_summary_default\<lparr>cs_completed_per_worker := ?n\<rparr>, map row_latency rows)"
    unfolding summarize_rows [OF ok] by (simp add: conn_summary_default_def)
  show ?thesis
  proof (cases "rows = []")
    case True
    then show ?thesis using m fold len cnt n by (auto simp: summarize_conns_def conn_summary_default_def)
  next
    case False
    then have "summarize_conns (map format_conn_row rows) =
        (let latencies = sort_i64 (map row_latency rows)
         in conn_summary_default\<lparr>cs_completed_per_worker := ?n, cs_completed := length latencies,
           cs_mean_us := f64_div (f64_of_int (sint (sum_list latencies))) (f64_of_int (int (length latencies))),
           cs_p50_us := percentile latencies P50, cs_p99_us := percentile latencies P99, cs_max_us := last latencies\<rparr>)"
      unfolding summarize_conns_def fold by (simp add: Let_def sim_percentile)
    then show ?thesis using m len cnt n lat by (auto simp: Let_def)
  qed
qed

section \<open>The rows of a worker process\<close>

lemma serve_burst_rows:
  "serve_burst worker_id p b ids clocks s = Some s' \<Longrightarrow> \<forall>row\<in>set (sw_conns s). row_worker_id row = worker_id \<Longrightarrow>
    \<forall>row\<in>set (sw_conns s'). row_worker_id row = worker_id"
  by (induction worker_id p b ids clocks s rule: serve_burst.induct) (auto simp: Let_def)

lemma serve_batch_rows:
  "serve_batch worker_id p ds clocks s = Some s' \<Longrightarrow> \<forall>row\<in>set (sw_conns s). row_worker_id row = worker_id \<Longrightarrow>
    \<forall>row\<in>set (sw_conns s'). row_worker_id row = worker_id"
  by (induction worker_id p ds clocks s rule: serve_batch.induct) (auto simp: Let_def)

lemma close_expired_rows [simp]: "sw_conns (close_expired worker_id now cs s) = sw_conns s"
  by (induction worker_id now cs s rule: close_expired.induct) simp_all

lemma sim_one_turn_rows:
  assumes "sim_one_turn worker_id p burst_spec t s = Some (b, s')" and "\<forall>row\<in>set (sw_conns s). row_worker_id row = worker_id"
  shows "\<forall>row\<in>set (sw_conns s'). row_worker_id row = worker_id"
proof -
  have fired: "sw_conns (fire_burst t s) = sw_conns s" for s
    by (simp add: fire_burst_def split: option.splits)
  have last: "sw_conns (snd (sim_end_of_turn worker_id p t s)) = sw_conns s" for s
    by (simp add: sim_end_of_turn_def Let_def split: option.splits)
  have served: "\<forall>row\<in>set (sw_conns s2). row_worker_id row = worker_id"
    if "serve_events worker_id p burst_spec t s1 = Some s2" "\<forall>row\<in>set (sw_conns s1). row_worker_id row = worker_id" for s1 s2
    using that
    by (auto simp: serve_events_def Let_def split: if_splits option.splits prod.splits
        dest!: serve_burst_rows serve_batch_rows)
  have ended: "\<forall>row\<in>set (sw_conns s'). row_worker_id row = worker_id"
    if "map_option (sim_end_of_turn worker_id p t) (serve_events worker_id p burst_spec t (fire_burst t s1)) = Some (b, s')"
      "sw_conns s1 = sw_conns s" for s1
  proof -
    from that(1) obtain s2 where s2: "serve_events worker_id p burst_spec t (fire_burst t s1) = Some s2"
      "sim_end_of_turn worker_id p t s2 = (b, s')" by blast
    have "\<forall>row\<in>set (sw_conns s2). row_worker_id row = worker_id"
      using assms(2) that(2) fired [of s1] by (intro served [OF s2(1)]) simp
    then show ?thesis using last [of s2] s2(2) by simp
  qed
  show ?thesis
  proof (cases "case sw_hang_pending (on_slot worker_id (store_loop_entry (st_entry_ns t)) s) of
      Some h \<Rightarrow> hang_at h \<le> st_elapsed t | None \<Rightarrow> False")
    case True
    then have "s' = (on_slot worker_id (store_loop_entry (st_entry_ns t)) s)\<lparr>sw_hang_pending := None\<rparr>"
      using assms(1) by (simp add: sim_one_turn_def)
    then show ?thesis using assms(2) by simp
  next
    case False
    show ?thesis
      using assms(1) unfolding sim_one_turn_def Let_def if_not_P [OF False] by (rule ended) simp
  qed
qed

lemma sim_worker_rows:
  "sim_worker_loop worker_id p burst_spec turns s = Some s' \<Longrightarrow>
    \<forall>row\<in>set (sw_conns s). row_worker_id row = worker_id \<Longrightarrow> \<forall>row\<in>set (sw_conns s'). row_worker_id row = worker_id"
proof (induction worker_id p burst_spec turns s rule: sim_worker_loop.induct)
  case (2 worker_id p burst_spec t ts s)
  then obtain b s1 where t: "sim_one_turn worker_id p burst_spec t s = Some (b, s1)" by (auto split: option.splits)
  note rows = sim_one_turn_rows [OF t 2(3)]
  show ?case using 2(1,2) t rows by (cases b) auto
qed simp

section \<open>Properties\<close>

text \<open>
  C38: The merge of the shards is a stable sort by the first column: from readable shards every
  non-empty line is kept exactly once, the keys ascend, lines with equal keys stay in the order of
  the shards and of their lines, the file is the header followed by the merged lines, shards that
  cannot be opened count as empty, and an unreadable one fails the merge.
\<close>

theorem merge_shards_is_stable_sort:
  "if \<forall>sh\<in>set shards. readable sh
   then \<exists>ls. merge_shards shards header None = Inr (ls, write_lines (header # ls)) \<and>
     mset ls = mset (concat (map shard_lines shards)) \<and> sorted (map (\<lambda>l. sint (line_key l)) ls) \<and>
     (\<forall>k. filter (\<lambda>l. line_key l = k) ls = filter (\<lambda>l. line_key l = k) (concat (map shard_lines shards)))
   else \<exists>e. merge_shards shards header None = Inl e"
proof (cases "\<forall>sh\<in>set shards. readable sh")
  case True
  let ?all = "concat (map shard_lines shards)"
  have "filter (\<lambda>l. line_key l = k) (sort_key (\<lambda>l. sint (line_key l)) ?all) = filter (\<lambda>l. line_key l = k) ?all" for k
    using sort_key_stable [of "\<lambda>l. sint (line_key l)" "sint k" ?all] by (simp only: sint_eq_iff)
  then show ?thesis
    using True merge_shards_sorts [OF True] by (simp add: Let_def)
next
  case False
  then show ?thesis using unreadable_shard by auto
qed

definition sample_shards :: "shard list" where
  "sample_shards = [Some [Inr ''2,b'', Inr ''1,a''], None, Some [Inr [], Inr ''1,c'']]"

theorem merge_shards_is_stable_sort_witness:
  "\<exists>ls. merge_shards sample_shards ''h'' None = Inr (ls, write_lines (''h'' # ls)) \<and>
    filter (\<lambda>l. line_key l = 1) ls = [''1,a'', ''1,c'']"
proof -
  have k: "line_key ''2,b'' = 2" "line_key ''1,a'' = 1" "line_key ''1,c'' = 1"
    by (simp_all add: line_key_def parse_i64_def digit_val_def Let_def)
  have "\<forall>sh\<in>set sample_shards. readable sh"
    by (simp add: sample_shards_def readable_def list_all_iff)
  note merged = merge_shards_is_stable_sort [of sample_shards "''h''", unfolded if_P [OF this]]
  then obtain ls where "merge_shards sample_shards ''h'' None = Inr (ls, write_lines (''h'' # ls))"
    and "filter (\<lambda>l. line_key l = 1) ls = filter (\<lambda>l. line_key l = 1) (concat (map shard_lines sample_shards))"
    by (elim exE conjE) simp
  moreover have "concat (map shard_lines sample_shards) = [''2,b'', ''1,a'', ''1,c'']"
    by code_simp
  ultimately show ?thesis by (intro exI [of _ ls]) (simp add: k)
qed

end
