(* ===== verification/Sim_Main.thy ===== *)
theory Sim_Main
  imports Sim_Metrics Sim_Generator
begin

text \<open>
  The parent process of the simulation, \<open>userspace_simulation/src/main.rs\<close>: the settings it reads
  from its environment, the forks, the run of the generator, and the report over the merged files.
  The results of \<open>fork\<close> and \<open>waitpid\<close>, what the workers still do to the shared memory while the
  parent waits for them, and what reading the shards yields are arguments; console lines are the
  numbers they show.
\<close>

section \<open>Settings\<close>

text \<open>\<open>None\<close>: the variable is not set. An unknown policy is Hermes, an unknown case the default one.\<close>

definition policy_of_env :: "string option \<Rightarrow> Sim_Dispatcher.policy" where
  "policy_of_env env =
     (let s = (case env of Some s \<Rightarrow> s | None \<Rightarrow> ''hermes'')
      in if s = ''lifo'' then Lifo else if s = ''reuseport'' then ReuseportHash else Hermes)"

definition case_of_env :: "string option \<Rightarrow> workload_case option" where
  "case_of_env env =
     (let s = (case env of Some s \<Rightarrow> s | None \<Rightarrow> ''default'')
      in if s = ''1'' then Some Case1
         else if s = ''2'' then Some Case2
         else if s = ''3'' then Some Case3
         else if s = ''4'' then Some Case4
         else if s = ''5'' then Some Case5
         else None)"

definition config_of_env :: "string option \<Rightarrow> string option \<Rightarrow> workload_config" where
  "config_of_env case_env load_env =
     (let wcase = case_of_env case_env;
          load = Option.bind load_env load_level_from_env_str
      in case (wcase, load) of
           (Some c, Some l) \<Rightarrow> for_case_with_load c l
         | (Some c, None) \<Rightarrow> for_case c
         | (None, _) \<Rightarrow> default_case)"

definition seed_of_env :: "string option \<Rightarrow> u64" where
  "seed_of_env env = (case Option.bind env parse_u64 of Some n \<Rightarrow> n | None \<Rightarrow> 0)"

section \<open>The report\<close>

text \<open>The deviation of \<open>metrics.rs\<close> of the simulation, a copy of the one of \<open>Balance\<close>.\<close>

definition sim_std_dev :: "i64 list \<Rightarrow> rat" where
  "sim_std_dev values =
     (if values = [] then 0
      else let n = f64_of_int (int (length values));
               mean = f64_div (f64_of_int (sint (sum_list values))) n;
               squares = map (\<lambda>v. let d = f64_sub (f64_of_int (sint v)) mean in f64_mul d d) values;
               variance = f64_div (fold (\<lambda>x total. f64_add total x) squares 0) n
           in f64_sqrt variance)"

lemma sim_std_dev_eq: "sim_std_dev = std_dev"
  by (simp add: fun_eq_iff sim_std_dev_def std_dev_def)

record run_report =
  rp_generated :: u64
  rp_completed :: nat
  rp_dropped :: u64
  rp_dispatched :: "u64 list"
  rp_completed_per_worker :: "i64 list"
  rp_open_at_exit :: "i64 list"
  rp_drops :: "u64 list"
  rp_completed_sd :: rat
  rp_open_sd :: rat
  rp_mean_us :: rat
  rp_p50_us :: i64
  rp_p99_us :: i64
  rp_max_us :: i64

text \<open>A merge that fails counts as one without lines.\<close>

definition make_report :: "shard list \<Rightarrow> errno option \<Rightarrow> gen_stats \<Rightarrow> shared_state \<Rightarrow> run_report" where
  "make_report conn_shards out_error stats sh =
     (let conn_lines = (case merge_shards conn_shards conn_header out_error of Inr (rows, file) \<Rightarrow> rows | Inl e \<Rightarrow> []);
          summary = summarize_conns conn_lines;
          final_open = map (\<lambda>i. accumulated_conns (slots (sh_wst sh) ! i)) [0..<NUM_WORKERS];
          completed = map (\<lambda>c. of_nat c) (cs_completed_per_worker summary)
      in \<lparr>rp_generated = generated stats, rp_completed = cs_completed summary, rp_dropped = dropped stats,
          rp_dispatched = dispatched_per_worker stats, rp_completed_per_worker = completed,
          rp_open_at_exit = final_open, rp_drops = map (\<lambda>i. sh_drops sh ! i) [0..<NUM_WORKERS],
          rp_completed_sd = sim_std_dev completed, rp_open_sd = sim_std_dev final_open,
          rp_mean_us = cs_mean_us summary, rp_p50_us = cs_p50_us summary, rp_p99_us = cs_p99_us summary, rp_max_us = cs_max_us summary\<rparr>)"

section \<open>The process\<close>

fun fork_children :: "nat list \<Rightarrow> (int \<times> errno) list \<Rightarrow> int list \<Rightarrow> (errno + int list) option" where
  "fork_children [] forks pids = Some (Inr pids)"
| "fork_children (w # ws) [] pids = None"
| "fork_children (w # ws) ((pid, err) # forks) pids =
     (if pid = - 1 then Some (Inl err) else fork_children ws forks (pids @ [pid]))"

text \<open>
  \<open>wait pid sh\<close> is the shared memory when \<open>waitpid\<close> returns for that child, \<open>None\<close> if it never does;
  its status is not looked at. The result lists the children waited for.
\<close>

fun reap_children ::
  "(int \<Rightarrow> shared_state \<Rightarrow> shared_state option) \<Rightarrow> int list \<Rightarrow> int list \<Rightarrow> shared_state \<Rightarrow> (int list \<times> shared_state) option" where
  "reap_children wait [] reaped sh = Some (reaped, sh)"
| "reap_children wait (pid # pids) reaped sh =
     (case wait pid sh of None \<Rightarrow> None | Some sh \<Rightarrow> reap_children wait pids (reaped @ [pid]) sh)"

datatype sim_exit = Fork_Panic errno | Generator_Panic | Reported "int list" run_report

definition sim_main ::
  "(int \<times> errno) list \<Rightarrow> gen_env \<Rightarrow> shared_state \<Rightarrow> workload_config \<Rightarrow> Sim_Dispatcher.policy \<Rightarrow> u64 \<Rightarrow>
    (int \<Rightarrow> shared_state \<Rightarrow> shared_state option) \<Rightarrow> shard list \<Rightarrow> errno option \<Rightarrow> sim_exit option" where
  "sim_main forks env sh cfg p seed wait conn_shards out_error =
     (case fork_children [0..<NUM_WORKERS] forks [] of
        None \<Rightarrow> None
      | Some (Inl err) \<Rightarrow> Some (Fork_Panic err)
      | Some (Inr pids) \<Rightarrow>
          (case run env sh cfg p seed of
             None \<Rightarrow> None
           | Some (Inl panic) \<Rightarrow> Some Generator_Panic
           | Some (Inr (stats, sh)) \<Rightarrow>
               (case reap_children wait pids [] sh of
                  None \<Rightarrow> None
                | Some (reaped, sh) \<Rightarrow> Some (Reported reaped (make_report conn_shards out_error stats sh)))))"

text \<open>A child exits once shutdown is requested, and the request stays.\<close>

definition children_exit :: "(int \<Rightarrow> shared_state \<Rightarrow> shared_state option) \<Rightarrow> bool" where
  "children_exit wait \<longleftrightarrow>
     (\<forall>pid sh. shutdown_requested sh \<longrightarrow> (\<exists>sh'. wait pid sh = Some sh' \<and> shutdown_requested sh'))"

lemma reap_children_all:
  assumes "children_exit wait" and "shutdown_requested sh"
  shows "\<exists>sh'. reap_children wait pids reaped sh = Some (reaped @ pids, sh')"
  using assms(2)
proof (induction pids arbitrary: reaped sh)
  case (Cons pid pids)
  then obtain sh1 where "wait pid sh = Some sh1" "shutdown_requested sh1"
    using assms(1) unfolding children_exit_def by blast
  then show ?case using Cons.IH [of sh1 "reaped @ [pid]"] by simp
qed simp

lemma requested_shutdown: "shutdown_requested (request_shutdown sh)"
  by (simp add: shutdown_requested_def request_shutdown_def)

section \<open>What the workers wrote\<close>

lemma fork_children_all:
  "length ws \<le> length forks \<Longrightarrow> \<forall>f\<in>set (take (length ws) forks). fst f \<noteq> - 1 \<Longrightarrow>
    fork_children ws forks pids = Some (Inr (pids @ map fst (take (length ws) forks)))"
  by (induction ws forks pids rule: fork_children.induct) auto

definition conn_shard :: "sim_state \<Rightarrow> shard" where
  "conn_shard s = Some (map Inr (file_lines (snd (shards_write s))))"

lemma conn_shards_of: "list_all2 shard_of (map (sw_conns \<circ> final) ws) (map (conn_shard \<circ> final) ws)"
  by (simp add: list_all2_conv_all_nth conn_shard_def shard_of_def shards_write_def)

lemma rows_per_worker:
  assumes "\<forall>v\<in>set ws. \<forall>row\<in>set (rows v). row_worker_id row = v" and "distinct ws" and "w \<in> set ws"
  shows "length (filter (\<lambda>row. row_worker_id row = w) (concat (map rows ws))) = length (rows w)"
  using assms
proof (induction ws)
  case (Cons v ws)
  have "filter (\<lambda>row. row_worker_id row = w) (rows v) = (if v = w then rows v else [])"
    using Cons.prems(1) by (auto simp: filter_id_conv filter_empty_conv)
  moreover have "filter (\<lambda>row. row_worker_id row = w) (concat (map rows ws)) = []" if "v = w"
    using Cons.prems(1,2) that by (force simp: filter_empty_conv)
  ultimately show ?case using Cons by auto
qed simp

text \<open>What the report says of the rows the workers recorded, through files, merge and parsing.\<close>

lemma report_counts_rows:
  fixes stats :: gen_stats and sh :: shared_state and final :: "nat \<Rightarrow> sim_state"
  assumes "\<forall>w<NUM_WORKERS. \<forall>row\<in>set (sw_conns (final w)). row_worker_id row = w"
  defines "report \<equiv> make_report (map (conn_shard \<circ> final) [0..<NUM_WORKERS]) None stats sh"
  shows "rp_completed report = (\<Sum>w\<leftarrow>[0..<NUM_WORKERS]. length (sw_conns (final w))) \<and>
    rp_completed_per_worker report = map (\<lambda>w. of_nat (length (sw_conns (final w)))) [0..<NUM_WORKERS] \<and>
    (let latencies = map row_latency (concat (map (sw_conns \<circ> final) [0..<NUM_WORKERS]))
     in latencies \<noteq> [] \<longrightarrow> rp_p50_us report = percentile (sort_i64 latencies) P50 \<and>
       rp_p99_us report = percentile (sort_i64 latencies) P99 \<and> rp_max_us report = last (sort_i64 latencies))"
proof -
  let ?ws = "[0..<NUM_WORKERS]" and ?rowss = "map (sw_conns \<circ> final) [0..<NUM_WORKERS]"
  have ids: "\<forall>w\<in>set ?ws. \<forall>row\<in>set (sw_conns (final w)). row_worker_id row = w" using assms(1) by simp
  have ok: "\<forall>row\<in>set (concat ?rowss). row_in_range row" using ids by (auto simp: row_in_range_def NUM_WORKERS_def)
  obtain ls merged where m: "merge_shards (map (conn_shard \<circ> final) ?ws) conn_header None = Inr (ls, merged)"
    and s: "cs_completed (summarize_conns ls) = length (concat ?rowss)"
    "\<forall>w<NUM_WORKERS. cs_completed_per_worker (summarize_conns ls) ! w =
      length (filter (\<lambda>row. row_worker_id row = w) (concat ?rowss))"
    "concat ?rowss \<noteq> [] \<longrightarrow>
      cs_p50_us (summarize_conns ls) = percentile (sort_i64 (map row_latency (concat ?rowss))) P50 \<and>
      cs_p99_us (summarize_conns ls) = percentile (sort_i64 (map row_latency (concat ?rowss))) P99 \<and>
      cs_max_us (summarize_conns ls) = last (sort_i64 (map row_latency (concat ?rowss)))"
    using summary_of_written_rows [OF conn_shards_of ok] by blast
  have per: "cs_completed_per_worker (summarize_conns ls) = map (\<lambda>w. length (sw_conns (final w))) ?ws"
  proof (rule nth_equalityI)
    fix w assume "w < length (cs_completed_per_worker (summarize_conns ls))"
    then have "w < NUM_WORKERS" by (simp add: summarize_conns_workers)
    then show "cs_completed_per_worker (summarize_conns ls) ! w = map (\<lambda>w. length (sw_conns (final w))) ?ws ! w"
      using s(2) rows_per_worker [of ?ws "sw_conns \<circ> final" w] ids by simp
  qed (simp add: summarize_conns_workers)
  show ?thesis
    using m s(1,3) per by (auto simp: report_def make_report_def Let_def length_concat comp_def)
qed

text \<open>
  A simulation run ends and its report is faithful: if all forks succeed and the rate is between 1
  and \<open>10 ^ 9\<close>, and the children exit once shutdown is requested, the process returns, having waited
  for every child; the report counts one generated
  connection per pacing interval, and, through the shard files, their merge and the parsing of the
  merged text, exactly the rows each worker recorded, whose latencies give its percentiles.
\<close>

lemma simulation_report_is_faithful:
  assumes "\<forall>w<NUM_WORKERS. sim_worker_loop w p burst_spec (turns w) (sim_start w hang_spec burst_spec (start w)) = Some (final w)"
    and "NUM_WORKERS \<le> length forks" and "\<forall>f\<in>set (take NUM_WORKERS forks). fst f \<noteq> - 1"
    and "0 < unat (cps cfg)" and "unat (cps cfg) \<le> 1000000000" and "children_exit wait"
  shows "\<exists>report interval.
    sim_main forks env sh cfg p seed wait (map (conn_shard \<circ> final) [0..<NUM_WORKERS]) None =
      Some (Reported (map fst (take NUM_WORKERS forks)) report) \<and>
    gen_interval (cps cfg) = Some interval \<and>
    rp_generated report = of_nat (ceil_div (duration_of cfg) interval) \<and>
    rp_completed report = (\<Sum>w\<leftarrow>[0..<NUM_WORKERS]. length (sw_conns (final w))) \<and>
    rp_completed_per_worker report = map (\<lambda>w. of_nat (length (sw_conns (final w)))) [0..<NUM_WORKERS] \<and>
    (let latencies = map row_latency (concat (map (sw_conns \<circ> final) [0..<NUM_WORKERS]))
     in latencies \<noteq> [] \<longrightarrow> rp_p50_us report = percentile (sort_i64 latencies) P50 \<and>
       rp_p99_us report = percentile (sort_i64 latencies) P99 \<and> rp_max_us report = last (sort_i64 latencies))"
proof -
  let ?ws = "[0..<NUM_WORKERS]"
  obtain interval stats sh' where r: "gen_interval (cps cfg) = Some interval"
    "gen_iter env cfg p seed (ceil_div (duration_of cfg) interval) 0 (gen_start, sh) = (stats, sh')"
    "run env sh cfg p seed = Some (Inr (stats, request_shutdown sh'))"
    using run_eq [OF assms(4,5)] by metis
  let ?pids = "map fst (take NUM_WORKERS forks)"
  obtain sh2 where reap: "reap_children wait ?pids [] (request_shutdown sh') = Some (?pids, sh2)"
    using reap_children_all [OF assms(6) requested_shutdown, of ?pids "[]"] by auto
  define report where "report = make_report (map (conn_shard \<circ> final) ?ws) None stats sh2"
  have "generated stats = of_nat (ceil_div (duration_of cfg) interval)"
    using gen_iter_counts [of "(gen_start, sh)" env cfg p seed "ceil_div (duration_of cfg) interval" 0] r(2)
    by (simp add: gen_start_def Let_def)
  then have g: "rp_generated report = of_nat (ceil_div (duration_of cfg) interval)"
    by (simp add: report_def make_report_def Let_def)
  have ids: "\<forall>w<NUM_WORKERS. \<forall>row\<in>set (sw_conns (final w)). row_worker_id row = w"
    using assms(1) sim_worker_rows [where s = "sim_start _ hang_spec burst_spec (start _)"] by (auto simp: sim_start_def)
  have "fork_children ?ws forks [] = Some (Inr (map fst (take NUM_WORKERS forks)))"
    using fork_children_all [of ?ws forks "[]"] assms(2,3) by simp
  then have "sim_main forks env sh cfg p seed wait (map (conn_shard \<circ> final) ?ws) None =
      Some (Reported (map fst (take NUM_WORKERS forks)) report)"
    using r(3) reap by (simp add: sim_main_def report_def)
  then show ?thesis using r(1) g report_counts_rows [OF ids, of stats sh2] by (auto simp: report_def)
qed

text \<open>Every worker serves one connection that arrives while it polls, and then shuts down.\<close>

definition sample_desc :: conn_desc where
  "sample_desc = \<lparr>conn_id = 5, desc_hash = 0, arrival_ns = 1000000, service_us = 20, lifetime_ms = 100\<rparr>"

definition push_first :: "nat \<Rightarrow> conn_queue \<Rightarrow> conn_queue" where
  "push_first n q = (if n = 0 then snd (push q sample_desc) else q)"

definition serving_turn :: sim_turn where
  "serving_turn = last_sim_turn\<lparr>
     st_polls := [\<lparr>pr_before_pop = push_first, pr_timeout = True, pr_shutdown = False\<rparr>],
     st_times := [(2000000, 4500000)]\<rparr>"

lemma one_arrival:
  "\<exists>q. pop_batch push_first SIM_MAX_EVENTS [] zeroed_queue = ([sample_desc], q) \<and> queue_is_empty q"
proof -
  have four: "SIM_MAX_EVENTS = Suc (Suc (Suc (Suc 0)))" by (simp add: SIM_MAX_EVENTS_def)
  have "\<not> QUEUE_CAP \<le> 0" by simp
  then show ?thesis
    unfolding four by (simp add: push_first_def push_def pop_def zeroed_queue_def Let_def queue_is_empty_def queue_len_def)
qed

definition sample_final :: "nat \<Rightarrow> sim_state" where
  "sample_final w = the (sim_worker_loop w Lifo None [serving_turn] (sim_start w None None (request_shutdown zeroed_state)))"

lemma sample_final:
  assumes "w < NUM_WORKERS"
  shows "sim_worker_loop w Lifo None [serving_turn] (sim_start w None None (request_shutdown zeroed_state)) = Some (sample_final w)
    \<and> length (sw_conns (sample_final w)) = 1"
proof -
  obtain q where q: "pop_batch push_first SIM_MAX_EVENTS [] zeroed_queue = ([sample_desc], q)" "queue_is_empty q"
    using one_arrival by blast
  have "replicate NUM_WORKERS zeroed_queue ! w = zeroed_queue" using assms by simp
  then have "\<exists>s'. sim_worker_loop w Lifo None [serving_turn] (sim_start w None None (request_shutdown zeroed_state)) = Some s' \<and>
      length (sw_conns s') = 1"
    using assms q
    by (simp add: sim_one_turn_def sim_start_def serving_turn_def last_sim_turn_def fire_burst_def serve_events_def on_slot_def
        request_shutdown_def zeroed_state_def sim_end_of_turn_def shutdown_requested_def Let_def)
  then show ?thesis by (auto simp: sample_final_def)
qed

lemma simulation_report_is_faithful_witness:
  "\<exists>report. sim_main [(11, 0), (12, 0), (13, 0), (14, 0)] \<lparr>others = \<lambda>k sh. sh, clock = of_nat\<rparr> zeroed_state
      (base_case Case3) Lifo 7 (\<lambda>pid. Some) (map (conn_shard \<circ> sample_final) [0..<NUM_WORKERS]) None =
      Some (Reported [11, 12, 13, 14] report) \<and>
    rp_completed report = 4"
proof -
  have "cps (base_case Case3) = 60" by (simp add: base_case_def)
  moreover have "(\<Sum>w\<leftarrow>[0..<NUM_WORKERS]. length (sw_conns (sample_final w))) = 4"
    using sample_final by (simp add: NUM_WORKERS_def upt_rec)
  ultimately show ?thesis
    using simulation_report_is_faithful [of Lifo None "\<lambda>w. [serving_turn]" None "\<lambda>w. request_shutdown zeroed_state" sample_final
        "[(11, 0), (12, 0), (13, 0), (14, 0)]" "base_case Case3" "\<lambda>pid. Some" "\<lparr>others = \<lambda>k sh. sh, clock = of_nat\<rparr>" zeroed_state 7]
      sample_final
    by (auto simp: NUM_WORKERS_def children_exit_def)
qed

end
