(* ===== verification/Versions_Agree.thy ===== *)
theory Versions_Agree
  imports Sim_Scheduler Sim_Dispatcher
begin

text \<open>
  The two versions of the program from the status table to the chosen worker: the simulation's
  scheduler and dispatcher against those of the eBPF version.
\<close>

text \<open>
  C22: Both versions steer alike: for every status table, clock and hash, the two schedulers publish
  the same bitmap; with two or more survivors the eBPF program and the simulated dispatcher choose
  the same worker, a survivor, and with fewer both fall back to the plain hash, the kernel's in
  one version and the simulated one in the other.
\<close>

theorem versions_steer_alike:
  "let r = schedule w now threshold;
       bm = bitmap (sim_schedule w now threshold);
       verdict = try_select (Some bm) \<lparr>ip_protocol = IPPROTO_TCP, ctx_hash = ucast conn_hash\<rparr>;
       target = dispatch (sh\<lparr>sh_msel := sel_store bm (sh_msel sh)\<rparr>) Hermes conn_hash
   in bm = bitmap r \<and>
     (if 2 \<le> after_stage3 r
      then target < NUM_WORKERS \<and> bit bm target \<and> verdict = Some (of_nat target)
      else verdict = None \<and> target = reuseport_hash conn_hash)"
proof -
  let ?bm = "bitmap (schedule w now threshold)"
  let ?ctx = "\<lparr>ip_protocol = IPPROTO_TCP, ctx_hash = ucast conn_hash\<rparr>"
  have n: "after_stage3 (schedule w now threshold) = length (set_bits ?bm 64)"
    by (simp add: schedule_def set_bits_schedule schedule_stage_counts(1))
  have d: "dispatch (sh\<lparr>sh_msel := sel_store ?bm (sh_msel sh)\<rparr>) Hermes conn_hash = dispatch_hermes ?bm conn_hash"
    by (simp add: dispatch_def sel_load_def sel_store_def)
  have few: "count_ones ?bm \<le> 1 \<longleftrightarrow> \<not> 2 \<le> length (set_bits ?bm 64)"
    by (simp add: word_le_nat_alt unat_count_ones) linarith
  show ?thesis
  proof (cases "2 \<le> length (set_bits ?bm 64)")
    case True
    then obtain i where i: "i \<in> set (set_bits ?bm 64)" "try_select (Some ?bm) ?ctx = Some (of_nat i)"
      using scheduler_out.select_candidate [of ?ctx "(w, now, threshold)"] by auto
    have "i < NUM_WORKERS" using i(1) survivors_below by (simp add: schedule_def set_bits_schedule)
    then have "unat (of_nat i :: u32) = i" by (simp add: NUM_WORKERS_def unat_of_nat take_bit_nat_eq_self)
    then have "dispatch_hermes ?bm conn_hash = i"
      using i(2) few True
      by (simp add: dispatch_hermes_def try_select_def sim_find_nth_set_bit_eq sim_reciprocal_scale_eq Let_def
          split: if_splits)
    then show ?thesis using i True \<open>i < NUM_WORKERS\<close> by (simp add: sim_schedule_eq n d Let_def)
  next
    case False
    then show ?thesis
      using few by (simp add: sim_schedule_eq n d Let_def try_select_def dispatch_hermes_def)
  qed
qed

end
