(* ===== verification/Bench_Client.thy ===== *)
theory Bench_Client
  imports Latency Bench_Workload Wire_Protocol Rust_Text
begin

text \<open>
  The load generator's connections, \<open>hermes-bench/src/client.rs\<close>, and the collection of their rows,
  \<open>hermes-bench/src/main.rs\<close>. The asynchronous runtime is outside: what \<open>connect\<close>, \<open>write_all\<close> and
  \<open>read_exact\<close> return, the clock readings and which branch of \<open>select!\<close> completes are arguments.
  Rows reach the collector over a channel, in any order; the file it writes is a string.
\<close>

section \<open>Rows\<close>

record conn_row =
  cr_conn_id :: u64
  cr_seq :: u32
  cr_kind :: string
  cr_worker_id :: "u32 option"
  cr_send_ns :: i64
  cr_recv_ns :: i64
  cr_service_us :: u32
  cr_label :: string

definition row_ok :: "u64 \<Rightarrow> u32 \<Rightarrow> string \<Rightarrow> u32 \<Rightarrow> i64 \<Rightarrow> i64 \<Rightarrow> u32 \<Rightarrow> string \<Rightarrow> conn_row" where
  "row_ok cid seq kind worker_id send_ns recv_ns service_us label =
     \<lparr>cr_conn_id = cid, cr_seq = seq, cr_kind = kind, cr_worker_id = Some worker_id, cr_send_ns = send_ns,
      cr_recv_ns = recv_ns, cr_service_us = service_us, cr_label = label\<rparr>"

definition row_failed :: "u64 \<Rightarrow> u32 \<Rightarrow> string \<Rightarrow> string \<Rightarrow> conn_row" where
  "row_failed cid seq kind label =
     \<lparr>cr_conn_id = cid, cr_seq = seq, cr_kind = kind, cr_worker_id = None, cr_send_ns = 0,
      cr_recv_ns = 0, cr_service_us = 0, cr_label = label\<rparr>"

definition latency_us :: "conn_row \<Rightarrow> i64 option" where
  "latency_us row =
     (if cr_worker_id row \<noteq> None then Some (micros_between (cr_send_ns row) (cr_recv_ns row)) else None)"

text \<open>The line of the CSV file; a failed row leaves the worker and the latency empty.\<close>

definition to_csv_line :: "conn_row \<Rightarrow> string" where
  "to_csv_line row =
     (let worker = (case cr_worker_id row of Some w \<Rightarrow> show_nat (unat w) | None \<Rightarrow> []);
          latency = (case latency_us row of Some l \<Rightarrow> show_int (sint l) | None \<Rightarrow> [])
      in join_with '','' [show_nat (unat (cr_conn_id row)), show_nat (unat (cr_seq row)), cr_kind row, worker,
           show_int (sint (cr_send_ns row)), show_int (sint (cr_recv_ns row)), latency,
           show_nat (unat (cr_service_us row)), cr_label row])"

definition csv_header :: string where
  "csv_header = ''conn_id,seq,kind,worker_id,send_ns,recv_ns,latency_us,service_us,label''"

section \<open>One request\<close>

text \<open>
  What a request meets: the clock when it is sent, whether the write fails, what is read back after
  these bytes were written (\<open>None\<close> for a failed read), and the clock afterwards.
\<close>

record exchange =
  ex_send_elapsed :: duration
  ex_write_failed :: bool
  ex_response :: "u8 list \<Rightarrow> u8 list option"
  ex_recv_elapsed :: duration

definition now_ns :: "duration \<Rightarrow> i64" where
  "now_ns elapsed = of_nat (as_nanos elapsed)"

text \<open>Whether the connection goes on, and the row sent; \<open>None\<close> is the decoder's panic.\<close>

definition fire_request ::
  "exchange \<Rightarrow> u32 \<Rightarrow> u32 \<Rightarrow> u64 \<Rightarrow> string \<Rightarrow> string \<Rightarrow> (bool \<times> conn_row) option" where
  "fire_request ex seq service_us cid kind label =
     (let send_ns = now_ns (ex_send_elapsed ex);
          req = encode_request seq service_us send_ns (replicate REQUEST_HEADER_LEN 0)
      in if ex_write_failed ex then Some (False, row_failed cid seq ''error'' label)
         else case ex_response ex req of
           None \<Rightarrow> Some (False, row_failed cid seq ''error'' label)
         | Some resp \<Rightarrow>
             (let recv_ns = now_ns (ex_recv_elapsed ex)
              in case decode_response resp of
                   None \<Rightarrow> None
                 | Some (rseq, worker_id, echoed_send_ns) \<Rightarrow>
                     Some (True, row_ok cid rseq kind worker_id echoed_send_ns recv_ns service_us label)))"

section \<open>One connection\<close>

datatype wakeup = Close_Due | Burst_Due

text \<open>
  The branches of \<open>select!\<close> that become ready, one per round; the burst branch has a guard and is
  disabled once it has fired. A script that ends before the close deadline leaves the task
  waiting and has no result.
\<close>

fun conn_loop ::
  "burst_spec option \<Rightarrow> exchange \<Rightarrow> u64 \<Rightarrow> string \<Rightarrow> wakeup list \<Rightarrow> u32 \<Rightarrow> bool \<Rightarrow> conn_row list \<Rightarrow> conn_row list option" where
  "conn_loop burst_spec ex cid label [] seq burst_fired rows = None"
| "conn_loop burst_spec ex cid label (Close_Due # ws) seq burst_fired rows = Some rows"
| "conn_loop burst_spec ex cid label (Burst_Due # ws) seq burst_fired rows =
     (if \<not> burst_fired \<and> burst_spec \<noteq> None
      then
        let service_us = of_nat (as_micros (burst_service (the burst_spec)))
        in case fire_request ex seq service_us cid ''burst'' label of
             None \<Rightarrow> None
           | Some (ok, row) \<Rightarrow>
               if ok then conn_loop burst_spec ex cid label ws (seq + 1) True (rows @ [row]) else Some (rows @ [row])
      else conn_loop burst_spec ex cid label ws seq burst_fired rows)"

definition run_connection ::
  "bool \<Rightarrow> exchange \<Rightarrow> exchange \<Rightarrow> wakeup list \<Rightarrow> u64 \<Rightarrow> u32 \<Rightarrow> burst_spec option \<Rightarrow> string \<Rightarrow> conn_row list option" where
  "run_connection connect_failed first second ws cid initial_service_us burst_spec label =
     (if connect_failed then Some [row_failed cid 0 ''drop'' label]
      else case fire_request first 0 initial_service_us cid ''accept'' label of
        None \<Rightarrow> None
      | Some (ok, row) \<Rightarrow>
          if \<not> ok then Some [row] else conn_loop burst_spec second cid label ws 1 False [row])"

section \<open>Collecting\<close>

record summary =
  completed :: nat
  errors :: nat
  drops :: nat
  mean_us :: rat
  p50_us :: i64
  p99_us :: i64
  max_us :: i64

definition summary_default :: summary where
  "summary_default = \<lparr>completed = 0, errors = 0, drops = 0, mean_us = 0, p50_us = 0, p99_us = 0, max_us = 0\<rparr>"

definition count_row :: "conn_row \<Rightarrow> summary \<times> i64 list \<Rightarrow> summary \<times> i64 list" where
  "count_row row = (\<lambda>(summary, latencies).
     if cr_kind row = ''drop'' then (summary\<lparr>drops := drops summary + 1\<rparr>, latencies)
     else if cr_kind row = ''error'' then (summary\<lparr>errors := errors summary + 1\<rparr>, latencies)
     else (summary\<lparr>completed := completed summary + 1\<rparr>,
       case latency_us row of Some l \<Rightarrow> latencies @ [l] | None \<Rightarrow> latencies))"

definition finish_summary :: "summary \<times> i64 list \<Rightarrow> summary" where
  "finish_summary = (\<lambda>(summary, latencies).
     if latencies \<noteq> []
     then let sorted_latencies = sort_i64 latencies
          in summary\<lparr>
            mean_us := f64_div (f64_of_int (sint (sum_list sorted_latencies))) (f64_of_int (int (length sorted_latencies))),
            p50_us := percentile sorted_latencies P50,
            p99_us := percentile sorted_latencies P99,
            max_us := last sorted_latencies\<rparr>
     else summary)"

definition collect :: "conn_row list \<Rightarrow> summary" where
  "collect rows = finish_summary (fold count_row rows (summary_default, []))"

text \<open>The file \<open>collect\<close> writes while it counts: the header and a line per row, in order of arrival.\<close>

definition collect_file :: "conn_row list \<Rightarrow> string" where
  "collect_file rows = write_line csv_header @ concat (map (\<lambda>row. write_line (to_csv_line row)) rows)"

section \<open>What a connection reports\<close>

lemma now_ns_latency:
  assumes "sent \<le> received" and "received < 2 ^ 63"
  shows "sint (micros_between (now_ns sent) (now_ns received)) = int ((received - sent) div 1000)"
proof -
  have "sint (of_nat n :: i64) = int n" if "n < 2 ^ 63" for n
    using sint_of_int_i64 [of "int n"] that by simp
  then have "sint (now_ns sent) = int sent" and "sint (now_ns received) = int received"
    using assms by (simp_all add: now_ns_def as_nanos_def)
  then show ?thesis using assms(1) by (simp add: micros_between_nonneg of_nat_diff zdiv_int)
qed

lemma fire_request_row:
  assumes "fire_request ex seq service_us cid kind label = Some (ok, row)"
  shows "cr_conn_id row = cid \<and> cr_label row = label \<and> (if ok then cr_kind row = kind \<and> cr_worker_id row \<noteq> None
    else cr_kind row = ''error'' \<and> cr_worker_id row = None)"
  using assms by (auto simp: fire_request_def Let_def row_ok_def row_failed_def split: if_splits option.splits)

lemma conn_loop_rows:
  assumes "conn_loop burst_spec ex cid label ws seq burst_fired rows = Some rows'"
  shows "rows' = rows \<or>
    (\<not> burst_fired \<and> burst_spec \<noteq> None \<and> (\<exists>row. rows' = rows @ [row] \<and> cr_conn_id row = cid \<and> cr_label row = label \<and>
      (cr_kind row = ''burst'' \<and> cr_worker_id row \<noteq> None \<or> cr_kind row = ''error'')))"
  using assms
proof (induction burst_spec ex cid label ws seq burst_fired rows rule: conn_loop.induct)
  case (3 burst_spec ex cid label ws seq burst_fired rows)
  show ?case
  proof (cases "\<not> burst_fired \<and> burst_spec \<noteq> None")
    case True
    let ?service = "of_nat (as_micros (burst_service (the burst_spec)))"
    obtain ok row where f: "fire_request ex seq ?service cid ''burst'' label = Some (ok, row)"
      using "3.prems" True by (auto simp: Let_def split: option.splits)
    note row = fire_request_row [OF f]
    show ?thesis
    proof (cases ok)
      case ok: True
      then have "conn_loop burst_spec ex cid label ws (seq + 1) True (rows @ [row]) = Some rows'"
        using "3.prems" True f by (simp add: Let_def)
      with "3.IH"(1) [OF True refl f refl ok this] show ?thesis using True row ok by simp
    next
      case False
      then have "rows' = rows @ [row]" using "3.prems" True f by (simp add: Let_def)
      then show ?thesis using True row False by auto
    qed
  next
    case False
    then show ?thesis using "3.IH"(2) [OF False] "3.prems" by auto
  qed
qed simp_all

lemma run_connection_rows:
  assumes "run_connection connect_failed first second ws cid initial_service_us burst_spec label = Some rows"
  shows "(\<forall>row\<in>set rows. cr_conn_id row = cid \<and> cr_label row = label) \<and>
    map cr_kind rows \<in> {[''drop''], [''error''], [''accept''], [''accept'', ''burst''], [''accept'', ''error'']} \<and>
    (burst_spec = None \<longrightarrow> length rows = 1)"
proof (cases connect_failed)
  case True
  then show ?thesis using assms by (auto simp: run_connection_def row_failed_def)
next
  case False
  then obtain ok row where f: "fire_request first 0 initial_service_us cid ''accept'' label = Some (ok, row)"
    using assms by (auto simp: run_connection_def split: option.splits)
  note row = fire_request_row [OF f]
  show ?thesis
  proof (cases ok)
    case ok: True
    then have "conn_loop burst_spec second cid label ws 1 False [row] = Some rows"
      using assms False f by (simp add: run_connection_def)
    from conn_loop_rows [OF this] show ?thesis using row ok by auto
  next
    case nok: False
    then have "rows = [row]" using assms False f by (simp add: run_connection_def)
    then show ?thesis using row nok by auto
  qed
qed

section \<open>What the collector counts\<close>

definition good_row :: "conn_row \<Rightarrow> bool" where
  "good_row row \<longleftrightarrow> cr_kind row \<noteq> ''drop'' \<and> cr_kind row \<noteq> ''error''"

definition row_latencies :: "conn_row list \<Rightarrow> i64 list" where
  "row_latencies rows = List.map_filter latency_us (filter good_row rows)"

lemma row_latencies_simps [simp]:
  "row_latencies [] = []"
  "row_latencies (row # rows) =
    (if good_row row then (case latency_us row of Some l \<Rightarrow> [l] | None \<Rightarrow> []) else []) @ row_latencies rows"
  by (auto simp: row_latencies_def List.map_filter_def split: option.splits)

lemma fold_count_row:
  "let (s', ls') = fold count_row rows (s, ls)
   in completed s' = completed s + length (filter good_row rows) \<and>
     errors s' = errors s + length (filter (\<lambda>row. cr_kind row = ''error'') rows) \<and>
     drops s' = drops s + length (filter (\<lambda>row. cr_kind row = ''drop'') rows) \<and>
     ls' = ls @ row_latencies rows"
proof (induction rows arbitrary: s ls)
  case (Cons row rows)
  obtain s1 ls1 where c: "count_row row (s, ls) = (s1, ls1)" by fastforce
  obtain s2 ls2 where f: "fold count_row rows (s1, ls1) = (s2, ls2)" by fastforce
  have "completed s1 = completed s + (if good_row row then 1 else 0)"
    and "errors s1 = errors s + (if cr_kind row = ''error'' then 1 else 0)"
    and "drops s1 = drops s + (if cr_kind row = ''drop'' then 1 else 0)"
    and "ls1 = ls @ (if good_row row then (case latency_us row of Some l \<Rightarrow> [l] | None \<Rightarrow> []) else [])"
    using c by (auto simp: count_row_def good_row_def split: if_splits option.splits)
  then show ?case using Cons.IH [of s1 ls1] c f by simp
qed simp

lemma collect_counts:
  "completed (collect rows) = length (filter good_row rows) \<and>
   errors (collect rows) = length (filter (\<lambda>row. cr_kind row = ''error'') rows) \<and>
   drops (collect rows) = length (filter (\<lambda>row. cr_kind row = ''drop'') rows)"
  using fold_count_row [of rows summary_default "[]"]
  by (auto simp: collect_def finish_summary_def summary_default_def Let_def split: prod.splits)

lemma collect_latencies:
  assumes "row_latencies rows \<noteq> []"
  shows "p50_us (collect rows) = percentile (sort_i64 (row_latencies rows)) P50 \<and>
    p99_us (collect rows) = percentile (sort_i64 (row_latencies rows)) P99 \<and>
    max_us (collect rows) = last (sort_i64 (row_latencies rows))"
  using fold_count_row [of rows summary_default "[]"] assms
  by (auto simp: collect_def finish_summary_def Let_def split: prod.splits)

lemma count_partition:
  "length (filter good_row rows) + length (filter (\<lambda>row. cr_kind row = ''error'') rows) +
    length (filter (\<lambda>row. cr_kind row = ''drop'') rows) = length rows"
  by (induction rows) (auto simp: good_row_def)

definition reported :: "conn_row list \<Rightarrow> bool" where
  "reported rows \<longleftrightarrow> (\<exists>connect_failed first second ws cid service_us burst_spec label.
     run_connection connect_failed first second ws cid service_us burst_spec label = Some rows)"

lemma reported_kinds:
  "reported rows \<Longrightarrow>
    map cr_kind rows \<in> {[''drop''], [''error''], [''accept''], [''accept'', ''burst''], [''accept'', ''error'']}"
  unfolding reported_def using run_connection_rows by blast

lemma reported_counts:
  assumes "reported rows"
  shows "1 \<le> length rows" and "length rows \<le> 2"
    and "length (filter (\<lambda>row. cr_kind row = ''drop'') rows) = (if map cr_kind rows = [''drop''] then 1 else 0)"
proof -
  have "length rows = length (map cr_kind rows)" by simp
  then show "1 \<le> length rows" "length rows \<le> 2" using reported_kinds [OF assms] by auto
  have "length (filter (\<lambda>row. cr_kind row = ''drop'') rows) = length (filter (\<lambda>k. k = ''drop'') (map cr_kind rows))"
    by (simp add: filter_map comp_def)
  then show "length (filter (\<lambda>row. cr_kind row = ''drop'') rows) = (if map cr_kind rows = [''drop''] then 1 else 0)"
    using reported_kinds [OF assms] by auto
qed

lemma reported_runs:
  assumes "\<forall>R\<in>set runs. reported R"
  shows "length runs \<le> length (concat runs) \<and> length (concat runs) \<le> 2 * length runs \<and>
    length (filter (\<lambda>row. cr_kind row = ''drop'') (concat runs)) =
      length (filter (\<lambda>R. map cr_kind R = [''drop'']) runs)"
  using assms
proof (induction runs)
  case (Cons R runs)
  then show ?case using reported_counts [of R] by auto
qed simp

section \<open>The file\<close>

lemma csv_columns:
  assumes "CHR '','' \<notin> set (cr_kind row)" and "CHR '','' \<notin> set (cr_label row)"
  shows "split_on (CHR '','') (to_csv_line row) =
    [show_nat (unat (cr_conn_id row)), show_nat (unat (cr_seq row)), cr_kind row,
     (case cr_worker_id row of Some w \<Rightarrow> show_nat (unat w) | None \<Rightarrow> []),
     show_int (sint (cr_send_ns row)), show_int (sint (cr_recv_ns row)),
     (case latency_us row of Some l \<Rightarrow> show_int (sint l) | None \<Rightarrow> []),
     show_nat (unat (cr_service_us row)), cr_label row]"
proof -
  have n: "CHR '','' \<notin> set (show_nat k)" "CHR '','' \<notin> set (show_int i)" for k i
    using plain_show_nat [of k] plain_show_int [of i] by (auto simp: plain_def separator_def)
  show ?thesis
    unfolding to_csv_line_def Let_def by (rule split_join) (use assms n in \<open>auto split: option.splits\<close>)
qed

text \<open>Reading a row back from the columns of its line.\<close>

definition read_row :: "string list \<Rightarrow> conn_row option" where
  "read_row cols =
     (case cols of
        [cid, seq, kind, worker, send, recv, latency, cost, label] \<Rightarrow>
          (case (parse_u64 cid, parse_unsigned seq, parse_i64 send, parse_i64 recv, parse_unsigned cost) of
             (Some cid, Some seq, Some send, Some recv, Some cost) \<Rightarrow>
               Some \<lparr>cr_conn_id = cid, cr_seq = of_nat seq, cr_kind = kind,
                 cr_worker_id = map_option of_nat (parse_unsigned worker), cr_send_ns = send, cr_recv_ns = recv,
                 cr_service_us = of_nat cost, cr_label = label\<rparr>
           | _ \<Rightarrow> None)
      | _ \<Rightarrow> None)"

lemma unat_u32_parse: "parse_unsigned (show_nat (unat w)) = Some (unat w)" for w :: u32
proof -
  have "unat w < 2 ^ 32" using unsigned_less [of w] by simp
  then have "unat w < 2 ^ 64" by simp
  then show ?thesis by (rule parse_unsigned_show)
qed

lemma read_csv_line:
  assumes "CHR '','' \<notin> set (cr_kind row)" and "CHR '','' \<notin> set (cr_label row)"
  shows "read_row (split_on (CHR '','') (to_csv_line row)) = Some row"
  unfolding csv_columns [OF assms] read_row_def
  by (cases row; cases "cr_worker_id row")
    (simp_all add: u64_text.parse_print i64_text.parse_print unat_u32_parse, simp add: parse_unsigned_def)

lemma csv_line_clean:
  assumes "clean_line (cr_kind row)" and "clean_line (cr_label row)"
  shows "clean_line (to_csv_line row)"
proof -
  have p: "CHR 0x0A \<notin> set (show_nat k) \<and> CHR 0x0D \<notin> set (show_nat k)"
    "CHR 0x0A \<notin> set (show_int i) \<and> CHR 0x0D \<notin> set (show_int i)" for k i
    using plain_show_nat [of k] plain_show_int [of i] by (auto simp: plain_def separator_def)
  then show ?thesis
    using assms by (auto simp: clean_line_def to_csv_line_def Let_def split: option.splits)
qed

section \<open>Properties\<close>

text \<open>
  No connection goes unreported: each opens with exactly one row, accepted, failed or dropped, may
  add one for its burst, and in whatever order the tasks' rows arrive, the summary's completed,
  failed and dropped rows are all the rows there are, between one and two per connection, with
  one drop for each connection that could not be opened.
\<close>

lemma every_connection_is_reported:
  assumes "\<forall>R\<in>set runs. reported R" and "mset rows = mset (concat runs)"
  shows "completed (collect rows) + errors (collect rows) + drops (collect rows) = length rows \<and>
    length runs \<le> length rows \<and> length rows \<le> 2 * length runs \<and>
    drops (collect rows) = length (filter (\<lambda>R. map cr_kind R = [''drop'']) runs)"
proof -
  have "length rows = length (concat runs)" using assms(2) by (metis size_mset)
  moreover have "length (filter (\<lambda>row. cr_kind row = ''drop'') rows) =
      length (filter (\<lambda>row. cr_kind row = ''drop'') (concat runs))"
    using assms(2) by (metis mset_filter size_mset)
  ultimately show ?thesis
    using reported_runs [OF assms(1)] collect_counts [of rows] count_partition [of rows] by simp
qed

definition answering :: exchange where
  "answering = \<lparr>ex_send_elapsed = 1000000, ex_write_failed = False,
     ex_response = (\<lambda>req. map_option (\<lambda>(seq, service_us, send_ns).
       encode_response seq 3 send_ns (replicate RESPONSE_LEN 0)) (decode_request req)),
     ex_recv_elapsed = 4500000\<rparr>"

lemma answering_fires:
  "fire_request answering seq service_us cid kind label =
    Some (True, row_ok cid seq kind 3 1000000 4500000 service_us label)"
proof -
  have "decode_request (encode_request seq service_us 1000000 (replicate REQUEST_HEADER_LEN 0)) = Some (seq, service_us, 1000000)"
    using request_codec.dec_enc [of "replicate REQUEST_HEADER_LEN 0" "(seq, service_us, 1000000)"] by simp
  moreover have "decode_response (encode_response seq 3 1000000 (replicate RESPONSE_LEN 0)) = Some (seq, 3, 1000000)"
    using response_codec.dec_enc [of "replicate RESPONSE_LEN 0" "(seq, 3, 1000000)"] by simp
  ultimately show ?thesis
    by (simp add: fire_request_def answering_def now_ns_def as_nanos_def Let_def)
qed

lemma every_connection_is_reported_witness:
  "let rows = [row_ok 8 0 ''accept'' 3 1000000 4500000 20 ''run'', row_failed 9 0 ''drop'' ''run'']
   in completed (collect rows) + errors (collect rows) + drops (collect rows) = 2 \<and> drops (collect rows) = 1"
proof -
  let ?a = "[row_ok 8 0 ''accept'' 3 1000000 4500000 20 ''run'']" and ?d = "[row_failed 9 0 ''drop'' ''run'']"
  have "run_connection False answering answering [Close_Due] 8 20 None ''run'' = Some ?a"
    by (simp add: run_connection_def answering_fires)
  then have "reported ?a" unfolding reported_def by blast
  have "run_connection True answering answering [] 9 20 None ''run'' = Some ?d"
    by (simp add: run_connection_def)
  then have "reported ?d" unfolding reported_def by blast
  with \<open>reported ?a\<close> have "\<forall>R\<in>set [?d, ?a]. reported R" by simp
  then show ?thesis
    using every_connection_is_reported [of "[?d, ?a]" "?a @ ?d"] by (simp add: row_ok_def row_failed_def)
qed

text \<open>
  C28: The reported percentiles are the nearest ranks, although their rank is computed with a rounded
  probability: for up to \<open>2 ^ 40\<close> latencies, the 50th and the 99th percentile are the least values
  that at least 50 and 99 percent of the latencies do not exceed, both occur, and the maximum is
  an upper bound that occurs.
\<close>

theorem percentiles_are_nearest_rank:
  assumes "row_latencies rows \<noteq> []" and "length (row_latencies rows) \<le> 2 ^ 40"
    and "(v, k) = (p50_us (collect rows), 50) \<or> (v, k) = (p99_us (collect rows), 99)"
  shows "v \<in> set (row_latencies rows) \<and>
    k * length (row_latencies rows) \<le> 100 * length (filter (\<lambda>l. l \<le>s v) (row_latencies rows)) \<and>
    (\<forall>u. k * length (row_latencies rows) \<le> 100 * length (filter (\<lambda>l. l \<le>s u) (row_latencies rows)) \<longrightarrow> v \<le>s u) \<and>
    max_us (collect rows) \<in> set (row_latencies rows) \<and>
    (\<forall>l\<in>set (row_latencies rows). l \<le>s max_us (collect rows))"
proof -
  let ?ls = "row_latencies rows" and ?ss = "sort_i64 (row_latencies rows)"
  have ss: "?ss \<noteq> []" using assms(1) by (metis sort_i64_props(2) length_0_conv)
  obtain p where p: "v = percentile ?ss p" "percent_ok p k" "0 < k"
    using assms(3) collect_latencies [OF assms(1)] P50_ok P99_ok by auto
  note near = percentile_nearest [OF sort_i64_props(1) ss _ p(2,3), unfolded sort_i64_props filter_sort_i64,
      OF assms(2), folded p(1)]
  have m: "max_us (collect rows) = last ?ss" using collect_latencies [OF assms(1)] by simp
  have "last ?ss \<in> set ?ls" using last_in_set [OF ss] by simp
  moreover have "l \<le>s last ?ss" if "l \<in> set ?ls" for l
  proof -
    from that obtain i where "i < length ?ss" "?ss ! i = l" by (metis in_set_conv_nth sort_i64_props(3))
    then show ?thesis
      using sorted_nth_mono [OF sort_i64_props(1) [of ?ls], of i "length ?ss - 1"] ss
      by (simp add: word_sle_eq last_conv_nth)
  qed
  ultimately show ?thesis using near m by simp
qed

theorem percentiles_are_nearest_rank_witness:
  "let rows = [row_ok 8 0 ''accept'' 3 1000000 4500000 20 ''run'', row_ok 9 0 ''accept'' 1 1000000 2500000 20 ''run'']
   in p99_us (collect rows) \<in> set (row_latencies rows) \<and> max_us (collect rows) \<in> {1500, 3500}"
proof -
  let ?rows = "[row_ok 8 0 ''accept'' 3 1000000 4500000 20 ''run'', row_ok 9 0 ''accept'' 1 1000000 2500000 20 ''run'']"
  have "row_latencies ?rows = [3500, 1500]"
    by (simp add: row_latencies_def List.map_filter_def good_row_def row_ok_def latency_us_def micros_between_def
        signed_divide_int_def)
  then show ?thesis
    using percentiles_are_nearest_rank [of ?rows "p99_us (collect ?rows)" 99] by auto
qed

text \<open>
  The file of a run holds its rows: if the label contains no comma or line break, reading the
  file back line by line and column by column gives the header and exactly the collected rows, in
  order, whatever the tasks reported; each line has the nine columns of the header.
\<close>

lemma collected_file_reads_back:
  assumes "\<forall>row\<in>set rows. cr_kind row \<in> {''accept'', ''burst'', ''error'', ''drop''} \<and> cr_label row = label"
    and "CHR '','' \<notin> set label" and "clean_line label"
  shows "\<exists>ls. file_lines (collect_file rows) = csv_header # ls \<and>
    map (\<lambda>l. read_row (split_on (CHR '','') l)) ls = map Some rows \<and>
    (\<forall>l\<in>set ls. length (split_on (CHR '','') l) = length (split_on (CHR '','') csv_header))"
proof -
  have k: "CHR '','' \<notin> set (cr_kind row) \<and> clean_line (cr_kind row)" if "row \<in> set rows" for row
  proof -
    have "\<forall>s\<in>set [''accept'', ''burst'', ''error'', ''drop'']. CHR '','' \<notin> set s \<and> clean_line s" by code_simp
    moreover have "cr_kind row \<in> set [''accept'', ''burst'', ''error'', ''drop'']" using assms(1) that by simp
    ultimately show ?thesis by (rule bspec)
  qed
  have h: "clean_line csv_header" "length (split_on (CHR '','') csv_header) = 9" by code_simp+
  have "collect_file rows = concat (map write_line (csv_header # map to_csv_line rows))"
    by (simp add: collect_file_def comp_def)
  moreover have "\<forall>l\<in>set (csv_header # map to_csv_line rows). clean_line l"
    using h k assms(1,3) by (auto intro: csv_line_clean)
  ultimately have "file_lines (collect_file rows) = csv_header # map to_csv_line rows"
    by (simp only: lines_written)
  moreover have "read_row (split_on (CHR '','') (to_csv_line row)) = Some row" if "row \<in> set rows" for row
    using read_csv_line k assms(1,2) that by auto
  moreover have "length (split_on (CHR '','') (to_csv_line row)) = 9" if "row \<in> set rows" for row
    using csv_columns [of row] k assms(1,2) that by simp
  ultimately show ?thesis using h(2) by (intro exI [of _ "map to_csv_line rows"]) simp
qed

lemma collected_file_reads_back_witness:
  "\<exists>ls. file_lines (collect_file [row_failed 9 0 ''drop'' ''run'']) = csv_header # ls \<and>
    map (\<lambda>l. read_row (split_on (CHR '','') l)) ls = [Some (row_failed 9 0 ''drop'' ''run'')]"
proof -
  have "clean_line ''run''" by code_simp
  then show ?thesis
    using collected_file_reads_back [of "[row_failed 9 0 ''drop'' ''run'']" "''run''"]
    by (auto simp: row_failed_def)
qed

text \<open>
  A request's measurement is the client's own: if the worker answers by decoding the header and
  encoding the response, as its serving loop does, the row carries the sequence number, the
  worker's id and both clock readings of the client, and its latency is their difference in whole
  microseconds, never negative.
\<close>

lemma round_trip_is_measured:
  assumes "\<not> ex_write_failed ex"
    and "\<And>seq service_us send_ns req. decode_request req = Some (seq, service_us, send_ns) \<Longrightarrow>
      ex_response ex req = Some (encode_response seq worker_id send_ns (replicate RESPONSE_LEN 0))"
    and "ex_send_elapsed ex \<le> ex_recv_elapsed ex" and "ex_recv_elapsed ex < 2 ^ 63"
  shows "\<exists>row l. fire_request ex seq service_us cid kind label = Some (True, row) \<and>
    cr_seq row = seq \<and> cr_worker_id row = Some worker_id \<and> latency_us row = Some l \<and>
    sint l = int ((ex_recv_elapsed ex - ex_send_elapsed ex) div 1000)"
proof -
  let ?send = "now_ns (ex_send_elapsed ex)" and ?recv = "now_ns (ex_recv_elapsed ex)"
  have "decode_request (encode_request seq service_us ?send (replicate REQUEST_HEADER_LEN 0)) = Some (seq, service_us, ?send)"
    using request_codec.dec_enc [of "replicate REQUEST_HEADER_LEN 0" "(seq, service_us, ?send)"] by simp
  moreover have "decode_response (encode_response seq worker_id ?send (replicate RESPONSE_LEN 0)) = Some (seq, worker_id, ?send)"
    using response_codec.dec_enc [of "replicate RESPONSE_LEN 0" "(seq, worker_id, ?send)"] by simp
  ultimately have f: "fire_request ex seq service_us cid kind label =
      Some (True, row_ok cid seq kind worker_id ?send ?recv service_us label)"
    using assms(1,2) by (simp add: fire_request_def Let_def)
  have "sint (micros_between ?send ?recv) = int ((ex_recv_elapsed ex - ex_send_elapsed ex) div 1000)"
    using assms(3,4) by (rule now_ns_latency)
  with f show ?thesis
    by (intro exI [of _ "row_ok cid seq kind worker_id ?send ?recv service_us label"]) (simp add: row_ok_def latency_us_def)
qed

lemma round_trip_is_measured_witness:
  "\<exists>row l. fire_request answering 5 20 9 ''accept'' ''run'' = Some (True, row) \<and>
    cr_seq row = 5 \<and> cr_worker_id row = Some 3 \<and> latency_us row = Some l \<and> sint l = 3500"
  using round_trip_is_measured [of answering 3 5 20 9 "''accept''" "''run''"]
  by (simp add: answering_def)

end
