(* ===== verification/Bench_Main.thy ===== *)
theory Bench_Main
  imports Bench_Client Sim_Generator Workloads_Agree
begin

text \<open>
  The main program of the load generator, \<open>hermes-bench/src/main.rs\<close>: the choice of the profile from
  the command line, and the loop that spawns one task per connection. As in \<open>Sim_Generator\<close> real
  time only paces the loop, so the offset from the start is kept. What a task does is
  \<open>run_connection\<close> of \<open>Bench_Client\<close>. The lemmas compare the loop with the simulation's generator.
\<close>

section \<open>The profile\<close>

datatype cli_error = Unknown_Case string | Unknown_Load string

definition select_config :: "string option \<Rightarrow> string option \<Rightarrow> cli_error + Bench_Workload.workload_config" where
  "select_config case_arg load_arg =
     (case case_arg of
        Some c \<Rightarrow>
          (case workload_case_from_str c of
             None \<Rightarrow> Inl (Unknown_Case c)
           | Some wcase \<Rightarrow>
               (case map_option load_level_from_str load_arg of
                  Some (Some l) \<Rightarrow> Inr (Bench_Workload.for_case_with_load wcase l)
                | Some None \<Rightarrow> Inl (Unknown_Load (the load_arg))
                | None \<Rightarrow> Inr (Bench_Workload.for_case wcase)))
      | None \<Rightarrow> Inr Bench_Workload.default_case)"

section \<open>The loop\<close>

definition GRACE :: duration where
  "GRACE = from_millis 500"

text \<open>What a spawned task gets; times are offsets from the start of the generator.\<close>

record spawned =
  sp_conn_id :: u64
  sp_service_us :: u32
  sp_close_at :: duration
  sp_burst :: "Bench_Workload.burst_spec option"

definition bench_hash :: "u64 \<Rightarrow> u64 \<Rightarrow> u64" where
  "bench_hash cid seed = (cid XOR (seed * 0xff51afd7ed558ccd)) * 0x9e3779b97f4a7c15"

definition bench_interval :: "u32 \<Rightarrow> duration option" where
  "bench_interval c = (if c = 0 then None else from_secs_f64 (f64_div 1 (f64_of_int (uint c))))"

definition close_offset :: "Bench_Workload.workload_config \<Rightarrow> duration" where
  "close_offset cfg = min (Bench_Workload.lifetime cfg) (Bench_Workload.duration_of cfg + GRACE)"

definition spawn_task :: "Bench_Workload.workload_config \<Rightarrow> u64 \<Rightarrow> u64 \<Rightarrow> spawned" where
  "spawn_task cfg seed cid =
     (let hash = bench_hash cid seed;
          cost = of_nat (as_micros (Bench_Workload.sample (Bench_Workload.service cfg) hash))
      in \<lparr>sp_conn_id = cid, sp_service_us = cost, sp_close_at = close_offset cfg, sp_burst = Bench_Workload.burst cfg\<rparr>)"

partial_function (option) bench_loop ::
  "Bench_Workload.workload_config \<Rightarrow> u64 \<Rightarrow> duration \<Rightarrow> duration \<Rightarrow> u64 \<Rightarrow> spawned list \<Rightarrow> (u64 \<times> spawned list) option" where
  "bench_loop cfg seed interval offset cid tasks =
     (if offset < Bench_Workload.duration_of cfg
      then bench_loop cfg seed interval (offset + interval) (cid + 1) (tasks @ [spawn_task cfg seed cid])
      else Some (cid, tasks))"

text \<open>The number of generated connections and the tasks; a rate of zero panics.\<close>

definition bench_run :: "Bench_Workload.workload_config \<Rightarrow> u64 \<Rightarrow> (gen_panic + u64 \<times> spawned list) option" where
  "bench_run cfg seed =
     (case bench_interval (Bench_Workload.cps cfg) of
        None \<Rightarrow> Some (Inl IntervalPanic)
      | Some interval \<Rightarrow> map_option Inr (bench_loop cfg seed interval 0 0 []))"

section \<open>The loop as a list\<close>

lemma bench_loop_tasks:
  assumes "0 < interval"
  shows "bench_loop cfg seed interval offset cid tasks =
    (let n = ceil_div (Bench_Workload.duration_of cfg - offset) interval
     in Some (cid + of_nat n, tasks @ map (\<lambda>k. spawn_task cfg seed (cid + of_nat k)) [0..<n]))"
proof (induction "ceil_div (Bench_Workload.duration_of cfg - offset) interval" arbitrary: offset cid tasks)
  case 0
  then have "Bench_Workload.duration_of cfg - offset = 0" using ceil_div_zero [OF assms] by metis
  then show ?case using 0 [symmetric] by (subst bench_loop.simps) simp
next
  case (Suc n)
  note s = ceil_div_step [OF assms Suc.hyps(2) [symmetric]]
  have "bench_loop cfg seed interval offset cid tasks =
      bench_loop cfg seed interval (offset + interval) (cid + 1) (tasks @ [spawn_task cfg seed cid])"
    using s(1) by (subst bench_loop.simps) simp
  also have "\<dots> = Some (cid + 1 + of_nat n,
      tasks @ [spawn_task cfg seed cid] @ map (\<lambda>k. spawn_task cfg seed (cid + 1 + of_nat k)) [0..<n])"
    using Suc.hyps(1) [OF s(2) [symmetric]] s(2) by (simp add: Let_def)
  also have "\<dots> = Some (cid + of_nat (Suc n), tasks @ map (\<lambda>k. spawn_task cfg seed (cid + of_nat k)) [0..<Suc n])"
    by (simp add: map_upt_Suc add.assoc del: upt_Suc)
  finally show ?case by (simp add: Suc.hyps(2) [symmetric] Let_def)
qed

lemma bench_run_tasks:
  assumes "bench_interval (Bench_Workload.cps cfg) = Some interval" and "0 < interval"
  shows "bench_run cfg seed =
    (let n = ceil_div (Bench_Workload.duration_of cfg) interval
     in Some (Inr (of_nat n, map (\<lambda>k. spawn_task cfg seed (of_nat k)) [0..<n])))"
  using bench_loop_tasks [OF assms(2), of cfg seed 0 0 "[]"] assms(1) by (simp add: bench_run_def Let_def)

section \<open>Properties\<close>

text \<open>The descriptor of the connection that a task stands for, at the simulation's clock reading.\<close>

definition desc_of_task :: "workload_config \<Rightarrow> u64 \<Rightarrow> i64 \<Rightarrow> spawned \<Rightarrow> conn_desc" where
  "desc_of_task cfg seed now t =
     \<lparr>conn_id = sp_conn_id t, desc_hash = bench_hash (sp_conn_id t) seed, arrival_ns = now, service_us = sp_service_us t,
      lifetime_ms = of_nat (as_millis (lifetime cfg))\<rparr>"

lemma task_desc:
  "desc_of_task cfg seed now (spawn_task (without_hang cfg) seed cid) = gen_desc cfg cid (gen_hash cid seed) now"
  by (simp add: desc_of_task_def spawn_task_def without_hang_def gen_desc_def bench_hash_def gen_hash_def samples_agree Let_def)

text \<open>
  C23: The load generator offers the simulation's traffic connection by connection: for every
  profile, seed and rate from 1 to \<open>10 ^ 9\<close>, it spawns as many tasks as the simulation generates
  connections, and, in a run of the simulation's generator, whatever the workers do in between as
  long as they keep the shared memory well formed, what the \<open>k\<close>-th round appends to the queue of the
  worker it dispatches to, or drops when that is full, is the descriptor with the id and the service
  time of the \<open>k\<close>-th task and with the hash that the load generator computes from that id to draw
  the service time. The task has the profile's burst, and a common deadline no later than its
  lifetime or the grace period after the run.
\<close>

theorem bench_generates_simulation_traffic:
  assumes "0 < unat (cps cfg)" and "unat (cps cfg) \<le> 1000000000"
    and "shared_ok sh" and "\<And>k sh. shared_ok sh \<Longrightarrow> shared_ok (others env k sh)"
  shows "\<exists>n tasks states. bench_run (without_hang cfg) seed = Some (Inr (n, tasks)) \<and> n = of_nat (length tasks) \<and>
    states 0 = (gen_start, sh) \<and>
    run env sh cfg p seed = Some (Inr (fst (states (length tasks)), request_shutdown (snd (states (length tasks))))) \<and>
    generated (fst (states (length tasks))) = n \<and>
    (\<forall>k<length tasks.
      let t = tasks ! k; before = others env k (snd (states k)); (stats, after) = states (Suc k);
          d = desc_of_task cfg seed (clock env k) t; target = dispatch before p (desc_hash d);
          full = (queue_len (sh_queues before ! target) = QUEUE_CAP)
      in (\<forall>i<NUM_WORKERS. queue_list (sh_queues after ! i) =
            queue_list (sh_queues before ! i) @ (if i = target \<and> \<not> full then [d] else [])) \<and>
        dropped stats = dropped (fst (states k)) + (if full then 1 else 0) \<and>
        sp_burst t = map_option bench_burst (burst cfg) \<and>
        sp_close_at t \<le> lifetime cfg \<and> sp_close_at t \<le> duration_of cfg + GRACE)"
proof -
  obtain interval stats sh' where r: "gen_interval (cps cfg) = Some interval" "0 < interval"
    "gen_iter env cfg p seed (ceil_div (duration_of cfg) interval) 0 (gen_start, sh) = (stats, sh')"
    "run env sh cfg p seed = Some (Inr (stats, request_shutdown sh'))"
    using run_eq [OF assms(1,2)] by metis
  define n where "n = ceil_div (duration_of cfg) interval"
  define states where "states k = gen_iter env cfg p seed k 0 (gen_start, sh)" for k
  have g: "generated (fst (states k)) = of_nat k" for k
    using gen_iter_counts [of "(gen_start, sh)" env cfg p seed k 0] by (simp add: states_def gen_start_def Let_def split_beta)
  have cfg: "Bench_Workload.cps (without_hang cfg) = cps cfg" "Bench_Workload.duration_of (without_hang cfg) = duration_of cfg"
    "Bench_Workload.lifetime (without_hang cfg) = lifetime cfg"
    "Bench_Workload.burst (without_hang cfg) = map_option bench_burst (burst cfg)"
    by (simp_all add: without_hang_def)
  have "bench_interval (Bench_Workload.cps (without_hang cfg)) = Some interval"
    using r(1) by (simp add: cfg bench_interval_def gen_interval_def)
  from bench_run_tasks [OF this r(2)]
  have tasks: "bench_run (without_hang cfg) seed =
      Some (Inr (of_nat n, map (\<lambda>k. spawn_task (without_hang cfg) seed (of_nat k)) [0..<n]))"
    by (simp add: cfg n_def Let_def)
  have round: "let t = spawn_task (without_hang cfg) seed (of_nat k); before = others env k (snd (states k));
        (stats, after) = states (Suc k); d = desc_of_task cfg seed (clock env k) t; target = dispatch before p (desc_hash d);
        full = (queue_len (sh_queues before ! target) = QUEUE_CAP)
      in queue_list (sh_queues after ! i) =
          queue_list (sh_queues before ! i) @ (if i = target \<and> \<not> full then [d] else []) \<and>
        dropped stats = dropped (fst (states k)) + (if full then 1 else 0)"
    if "i < NUM_WORKERS" for i k
  proof -
    have "shared_ok (others env k (snd (states k)))"
      using gen_iter_shared_ok [OF assms(4)] assms(3,4) by (simp add: states_def)
    moreover have "states (Suc k) = gen_conn cfg p seed (clock env k) (fst (states k), others env k (snd (states k)))"
      unfolding states_def gen_iter_snoc by simp
    ultimately show ?thesis
      using gen_conn_delivers_or_drops [of "others env k (snd (states k))" i "fst (states k)" seed p cfg "clock env k"] that
      by (simp add: task_desc g Let_def split_beta gen_desc_def)
  qed
  have "states n = (stats, sh')" using r(3) by (simp add: states_def n_def)
  moreover have "sp_burst (spawn_task (without_hang cfg) seed cid) = map_option bench_burst (burst cfg)"
    "sp_close_at (spawn_task (without_hang cfg) seed cid) \<le> lifetime cfg"
    "sp_close_at (spawn_task (without_hang cfg) seed cid) \<le> duration_of cfg + GRACE" for cid
    by (simp_all add: spawn_task_def cfg close_offset_def Let_def)
  moreover have "dropped (fst (states (Suc k))) = dropped (fst (states k)) +
      (let before = others env k (snd (states k))
       in if queue_len (sh_queues before ! dispatch before p (desc_hash (desc_of_task cfg seed (clock env k)
         (spawn_task (without_hang cfg) seed (of_nat k))))) = QUEUE_CAP then 1 else 0)" for k
    using round [of 0 k] by (simp add: Let_def split_beta)
  ultimately show ?thesis
    using r(4) tasks g [of n] round
    by (intro exI [of _ "of_nat n"] exI [of _ "map (\<lambda>k. spawn_task (without_hang cfg) seed (of_nat k)) [0..<n]"] exI [of _ states])
      (simp add: states_def [of 0] Let_def split_beta)
qed

theorem bench_generates_simulation_traffic_witness:
  "\<exists>n tasks stats sh'. bench_run (without_hang (base_case Case3)) 7 = Some (Inr (n, tasks)) \<and> n = of_nat (length tasks) \<and>
    run \<lparr>others = \<lambda>k sh. sh, clock = of_nat\<rparr> zeroed_state (base_case Case3) Hermes 7 = Some (Inr (stats, sh')) \<and>
    generated stats = n"
proof -
  have "cps (base_case Case3) = 60" by (simp add: base_case_def)
  moreover have "shared_ok zeroed_state" by (simp add: shared_ok_def wst_ok_def zeroed_state_def)
  ultimately show ?thesis
    using bench_generates_simulation_traffic [of "base_case Case3" zeroed_state "\<lparr>others = \<lambda>k sh. sh, clock = of_nat\<rparr>" 7 Hermes]
    by fastforce
qed

end
