(* ===== verification/Front_Ends.thy ===== *)
theory Front_Ends
  imports Bench_Main Sim_Main
begin

text \<open>
  The two front ends that choose a traffic profile, the command line of the load generator
  (\<open>hermes-bench/src/main.rs\<close>) and the environment of the simulation
  (\<open>userspace_simulation/src/main.rs\<close>), on the same words.
\<close>

lemma cases_agree: "workload_case_from_str c = map_option bench_case (case_of_env (Some c))"
  by (simp add: workload_case_from_str_def case_of_env_def)

lemma levels_agree: "load_level_from_str s = map_option bench_level (load_level_from_env_str s)"
  by (simp add: load_level_from_str_def load_level_from_env_str_def)

lemma defaults_agree: "Bench_Workload.default_case = without_hang Sim_Workload.default_case"
  by (simp add: Bench_Workload.default_case_def Sim_Workload.default_case_def without_hang_def)

text \<open>
  The same words choose the same traffic on both front ends: whatever the load generator accepts
  as \<open>--case\<close> and \<open>--load\<close>, the simulation reads from \<open>WORKLOAD_CASE\<close> and \<open>LOAD\<close> as that profile, but
  for the injected hang. They differ on words neither knows: the load generator refuses an unknown
  case, where the simulation runs its default profile, and an unknown level, where the simulation
  runs the case's characteristic one.
\<close>

lemma front_ends_choose_same_traffic:
  "case select_config case_arg load_arg of
     Inr cfg \<Rightarrow> cfg = without_hang (config_of_env case_arg load_arg)
   | Inl (Unknown_Case c) \<Rightarrow> case_arg = Some c \<and> case_of_env case_arg = None \<and>
       config_of_env case_arg load_arg = Sim_Workload.default_case
   | Inl (Unknown_Load l) \<Rightarrow> load_arg = Some l \<and> load_level_from_env_str l = None \<and>
       (\<exists>c. case_of_env case_arg = Some c \<and> config_of_env case_arg load_arg = Sim_Workload.for_case c)"
proof (cases case_arg)
  case None
  then show ?thesis
    by (simp add: select_config_def config_of_env_def case_of_env_def defaults_agree split: option.splits)
next
  case (Some c)
  show ?thesis
  proof (cases "case_of_env (Some c)")
    case unknown: None
    then show ?thesis using Some by (simp add: select_config_def config_of_env_def cases_agree)
  next
    case known: (Some k)
    show ?thesis
    proof (cases load_arg)
      case None
      then show ?thesis
        using Some known by (simp add: select_config_def config_of_env_def cases_agree for_cases_agree)
    next
      case level: (Some l)
      show ?thesis
      proof (cases "load_level_from_env_str l")
        case None
        then show ?thesis using Some known level
          by (simp add: select_config_def config_of_env_def cases_agree levels_agree)
      next
        case (Some lv)
        then show ?thesis using \<open>case_arg = Some c\<close> known level
          by (simp add: select_config_def config_of_env_def cases_agree levels_agree with_load_agree)
      qed
    qed
  qed
qed

end
