(* ===== verification/Cluster.thy ===== *)
theory Cluster
  imports Worker_Loop
begin

text \<open>
  The workers of the eBPF version together: the event loops of \<open>hermes/src/worker.rs\<close> run by several
  processes over the one Worker Status Table and the one map \<open>M_Sel\<close>, interleaved at every access
  to that shared memory. A worker's loop is a step relation over its phases; each step touches at
  most one atomic of the table (a load of the scheduler's snapshot, a store, a \<open>fetch_add\<close>), and the
  results of the system calls are chosen by the step. Between two steps of a worker the others, the
  clock and the kernel may do anything they can.
\<close>

section \<open>State\<close>

text \<open>
  The shared memory. Beside it, as a record of the run that no code reads, what the content of
  \<open>M_Sel\<close> was computed from: the scheduler's clock reading and the snapshots it loaded.
\<close>

record memory =
  mem_wst :: wst
  mem_sel :: u64
  mem_pub :: "(i64 \<times> worker_snapshot list) option"

text \<open>
  Where in its loop a worker is; the loads of a snapshot done so far are part of it. Beside it what
  the loop carries, and the number of warnings it has logged about failed writes of \<open>M_Sel\<close>.
\<close>

datatype phase =
    At_Top
  | At_Stamp
  | Stamping i64
  | At_Hang
  | At_Wait
  | Waiting i64
  | Counting "(u64 \<times> u32) list"
  | Handling "(u64 \<times> u32) list"
  | Accepting "(u64 \<times> u32) list"
  | Registering fd "(u64 \<times> u32) list"
  | Finishing "(u64 \<times> u32) list"
  | At_Schedule
  | Reading i64 "i64 list"
  | At_Tick "schedule_result option"
  | Ticking "schedule_result option" i64 "i64 list"
  | Flushing
  | Exited
  | Failed errno

record proc =
  pr_phase :: phase
  pr_io :: io
  pr_hang :: "hang_spec option"
  pr_iter :: u32
  pr_ticks :: "tick_row list"
  pr_warnings :: nat

record cluster =
  cl_mem :: memory
  cl_procs :: "proc list"
  cl_now :: i64

abbreviation goto :: "phase \<Rightarrow> proc \<Rightarrow> proc" where
  "goto ph pr \<equiv> pr\<lparr>pr_phase := ph\<rparr>"

abbreviation conns_of :: "proc \<Rightarrow> fd set" where
  "conns_of pr \<equiv> dom (io_conns (pr_io pr))"

definition mem_slot :: "nat \<Rightarrow> (worker_slot \<Rightarrow> worker_slot) \<Rightarrow> memory \<Rightarrow> memory" where
  "mem_slot i f m = m\<lparr>mem_wst := upd_slot i f (mem_wst m)\<rparr>"

section \<open>One step of a worker\<close>

definition EPOLL_TIMEOUT_MS :: "32 word" where
  "EPOLL_TIMEOUT_MS = 5"

text \<open>When a call of \<open>epoll_wait\<close> made at \<open>t0\<close> times out; a negative timeout never does.\<close>

definition timed_out :: "i64 \<Rightarrow> i64 \<Rightarrow> bool" where
  "timed_out t0 now \<longleftrightarrow> 0 \<le> sint EPOLL_TIMEOUT_MS \<and> sint t0 + sint EPOLL_TIMEOUT_MS * 1000000 \<le> sint now"

text \<open>
  \<open>worker_step i listen_fd p now\<close> relates memory and worker before and after one step at the clock
  reading \<open>now\<close>. The premises on the system calls are the kernel's promises: \<open>epoll_wait\<close> returns
  zero only when its timeout has passed, fills at most the given array and reports a registered
  descriptor at most once per call, and \<open>accept4\<close> returns a 32-bit descriptor that is not open. The
  handler of a connection's event is one step: of its calls only the last, when it closes the
  connection, touches the table, and all it reads besides is the worker's own.
\<close>

inductive worker_step :: "nat \<Rightarrow> fd \<Rightarrow> policy \<Rightarrow> i64 \<Rightarrow> memory \<times> proc \<Rightarrow> memory \<times> proc \<Rightarrow> bool"
  for i :: nat and listen_fd :: fd and p :: policy and now :: i64
where
  shutdown: "pr_phase pr = At_Top \<Longrightarrow> worker_step i listen_fd p now (m, pr) (m, goto Flushing pr)"
| enter: "pr_phase pr = At_Top \<Longrightarrow> worker_step i listen_fd p now (m, pr) (m, goto At_Stamp pr)"
| stamp_clock: "pr_phase pr = At_Stamp \<Longrightarrow> worker_step i listen_fd p now (m, pr) (m, goto (Stamping now) pr)"
| stamp_store: "pr_phase pr = Stamping t \<Longrightarrow>
    worker_step i listen_fd p now (m, pr) (mem_slot i (store_loop_entry t) m, goto At_Hang pr)"
| hang: "pr_phase pr = At_Hang \<Longrightarrow> pr_hang pr = Some h \<Longrightarrow> hang_at h \<le> elapsed \<Longrightarrow>
    worker_step i listen_fd p now (m, pr) (m, goto At_Top (pr\<lparr>pr_hang := None\<rparr>))"
| no_hang: "pr_phase pr = At_Hang \<Longrightarrow> (case pr_hang pr of Some h \<Rightarrow> \<not> hang_at h \<le> elapsed | None \<Rightarrow> True) \<Longrightarrow>
    worker_step i listen_fd p now (m, pr) (m, goto At_Wait pr)"
| wait: "pr_phase pr = At_Wait \<Longrightarrow> worker_step i listen_fd p now (m, pr) (m, goto (Waiting now) pr)"
| wait_failed: "pr_phase pr = Waiting t0 \<Longrightarrow> epoll_wait r = Inl err \<Longrightarrow>
    worker_step i listen_fd p now (m, pr) (m, goto (Failed err) pr)"
| waited: "pr_phase pr = Waiting t0 \<Longrightarrow> epoll_wait r = Inr (length evs) \<Longrightarrow> (fst r = 0 \<longrightarrow> timed_out t0 now) \<Longrightarrow>
    length evs \<le> MAX_EVENTS \<Longrightarrow> distinct (map (event_fd \<circ> fst) evs) \<Longrightarrow> (event_fd \<circ> fst) ` set evs \<subseteq> insert listen_fd (conns_of pr) \<Longrightarrow>
    worker_step i listen_fd p now (m, pr) (m, goto (Counting evs) pr)"
| count: "pr_phase pr = Counting evs \<Longrightarrow>
    worker_step i listen_fd p now (m, pr) (m\<lparr>mem_wst := count_ready i (length evs) (mem_wst m)\<rparr>, goto (Handling evs) pr)"
| accept_event: "pr_phase pr = Handling (ev # evs) \<Longrightarrow> event_fd (fst ev) = listen_fd \<Longrightarrow>
    worker_step i listen_fd p now (m, pr) (m, goto (Accepting evs) pr)"
| accept_none: "pr_phase pr = Accepting evs \<Longrightarrow> fd < (0 :: fd) \<Longrightarrow>
    worker_step i listen_fd p now (m, pr) (m, goto (Finishing evs) pr)"
| accepted: "pr_phase pr = Accepting evs \<Longrightarrow> (0 :: fd) \<le> fd \<Longrightarrow> fd < 2 ^ 31 \<Longrightarrow> fd \<notin> conns_of pr \<Longrightarrow>
    worker_step i listen_fd p now (m, pr) (mem_slot i (add_conns 1) m, goto (Registering fd evs) pr)"
| register_failed: "pr_phase pr = Registering fd evs \<Longrightarrow> ret \<noteq> (0 :: int) \<Longrightarrow>
    worker_step i listen_fd p now (m, pr) (mem_slot i (sub_conns 1) m,
      goto (Accepting evs) (pr\<lparr>pr_io := (pr_io pr)\<lparr>io_log := io_log (pr_io pr) @ [Close fd]\<rparr>\<rparr>))"
| registered: "pr_phase pr = Registering fd evs \<Longrightarrow>
    worker_step i listen_fd p now (m, pr) (m,
      goto (Accepting evs) (pr\<lparr>pr_io := (pr_io pr)\<lparr>io_conns := (io_conns (pr_io pr))(fd \<mapsto> \<lparr>buf = []\<rparr>)\<rparr>\<rparr>))"
| conn_event: "pr_phase pr = Handling (ev # evs) \<Longrightarrow> event_fd (fst ev) \<noteq> listen_fd \<Longrightarrow>
    handle_conn_event i (event_fd (fst ev)) (snd ev)
      ((pr_io pr)\<lparr>io_slot := slots (mem_wst m) ! i, k_read := rs, k_write := ws\<rparr>) = Some io' \<Longrightarrow>
    k_read io' = [] \<Longrightarrow> k_write io' = [] \<Longrightarrow>
    worker_step i listen_fd p now (m, pr) (mem_slot i (\<lambda>_. io_slot io') m, goto (Finishing evs) (pr\<lparr>pr_io := io'\<rparr>))"
| finish: "pr_phase pr = Finishing evs \<Longrightarrow>
    worker_step i listen_fd p now (m, pr) (mem_slot i (sub_pending 1) m, goto (Handling evs) pr)"
| handled: "pr_phase pr = Handling [] \<Longrightarrow>
    worker_step i listen_fd p now (m, pr) (m, goto (if runs_scheduler p then At_Schedule else At_Tick None) pr)"
| schedule_clock: "pr_phase pr = At_Schedule \<Longrightarrow> worker_step i listen_fd p now (m, pr) (m, goto (Reading now []) pr)"
| schedule_load: "pr_phase pr = Reading t vs \<Longrightarrow> length vs < SNAPSHOT_LOADS \<Longrightarrow>
    worker_step i listen_fd p now (m, pr) (m, goto (Reading t (vs @ [load_nth (mem_wst m) (length vs)])) pr)"
| publish: "pr_phase pr = Reading t vs \<Longrightarrow> length vs = SNAPSHOT_LOADS \<Longrightarrow>
    r = schedule_from_snapshots (assemble vs) t HANG_THRESHOLD_NS \<Longrightarrow>
    worker_step i listen_fd p now (m, pr) (m\<lparr>mem_sel := bitmap r, mem_pub := Some (t, assemble vs)\<rparr>, goto (At_Tick (Some r)) pr)"
| publish_failed: "pr_phase pr = Reading t vs \<Longrightarrow> length vs = SNAPSHOT_LOADS \<Longrightarrow>
    r = schedule_from_snapshots (assemble vs) t HANG_THRESHOLD_NS \<Longrightarrow>
    worker_step i listen_fd p now (m, pr) (m, goto (At_Tick (Some r)) (pr\<lparr>pr_warnings := pr_warnings pr + 1\<rparr>))"
| tick_clock: "pr_phase pr = At_Tick res \<Longrightarrow> worker_step i listen_fd p now (m, pr) (m, goto (Ticking res now []) pr)"
| tick_load: "pr_phase pr = Ticking res t vs \<Longrightarrow> length vs < SNAPSHOT_LOADS \<Longrightarrow>
    worker_step i listen_fd p now (m, pr) (m, goto (Ticking res t (vs @ [load_nth (mem_wst m) (length vs)])) pr)"
| tick_written: "pr_phase pr = Ticking res t vs \<Longrightarrow> length vs = SNAPSHOT_LOADS \<Longrightarrow>
    worker_step i listen_fd p now (m, pr) (m, goto At_Top (pr\<lparr>pr_iter := pr_iter pr + 1, pr_ticks := pr_ticks pr @
      [\<lparr>tk_timestamp_ns = t, tk_worker_id = i, tk_iter = pr_iter pr, tk_snapshots = assemble vs,
        tk_open_conns = card (conns_of pr), tk_result = res, tk_policy = p\<rparr>]\<rparr>))"
| tick_failed: "pr_phase pr = Ticking res t vs \<Longrightarrow> length vs = SNAPSHOT_LOADS \<Longrightarrow>
    worker_step i listen_fd p now (m, pr) (m, goto (Failed err) pr)"
| flushed: "pr_phase pr = Flushing \<Longrightarrow> worker_step i listen_fd p now (m, pr) (m, goto Exited pr)"
| flush_failed: "pr_phase pr = Flushing \<Longrightarrow> worker_step i listen_fd p now (m, pr) (m, goto (Failed err) pr)"

section \<open>The workers together\<close>

text \<open>A step of the system is a step of one worker, or the monotonic clock moves on.\<close>

inductive cluster_step :: "(nat \<Rightarrow> fd) \<Rightarrow> policy \<Rightarrow> cluster \<Rightarrow> cluster \<Rightarrow> bool" for lfds :: "nat \<Rightarrow> fd" and p :: policy
where
  work: "i < NUM_WORKERS \<Longrightarrow> worker_step i (lfds i) p (cl_now s) (cl_mem s, cl_procs s ! i) (m', pr') \<Longrightarrow>
    cluster_step lfds p s (s\<lparr>cl_mem := m', cl_procs := (cl_procs s)[i := pr']\<rparr>)"
| clock: "sint (cl_now s) \<le> sint t \<Longrightarrow> cluster_step lfds p s (s\<lparr>cl_now := t\<rparr>)"

text \<open>
  At the start every worker has set up its descriptors: the table is the zeroed mapping, \<open>M_Sel\<close> holds
  zero, no worker holds a connection.
\<close>

definition fresh_proc :: "hang_spec option \<Rightarrow> proc" where
  "fresh_proc h = \<lparr>pr_phase = At_Top, pr_io = \<lparr>io_slot = worker_slot_new, io_conns = Map.empty, io_log = [],
     k_accept = [], k_ctl_add = [], k_read = [], k_write = []\<rparr>, pr_hang = h, pr_iter = 0, pr_ticks = [],
     pr_warnings = 0\<rparr>"

definition fresh_memory :: memory where
  "fresh_memory = \<lparr>mem_wst = \<lparr>slots = replicate NUM_WORKERS worker_slot_new\<rparr>, mem_sel = 0, mem_pub = None\<rparr>"

definition fresh_cluster :: "(nat \<Rightarrow> hang_spec option) \<Rightarrow> i64 \<Rightarrow> cluster" where
  "fresh_cluster hangs t = \<lparr>cl_mem = fresh_memory, cl_procs = map (\<lambda>i. fresh_proc (hangs i)) [0..<NUM_WORKERS], cl_now = t\<rparr>"

inductive cluster_reachable :: "(nat \<Rightarrow> fd) \<Rightarrow> policy \<Rightarrow> cluster \<Rightarrow> bool" for lfds :: "nat \<Rightarrow> fd" and p :: policy
where
  start: "0 \<le> sint t \<Longrightarrow> cluster_reachable lfds p (fresh_cluster hangs t)"
| step: "cluster_reachable lfds p s \<Longrightarrow> cluster_step lfds p s s' \<Longrightarrow> cluster_reachable lfds p s'"

end
