(* ===== verification/Cluster_Inv.thy ===== *)
theory Cluster_Inv
  imports Cluster
begin

text \<open>
  What holds in every reachable state of the workers together: every slot tells the truth about its
  worker at every single access, the loads of a running snapshot are bounded and own ones exact, and
  the content of \<open>M_Sel\<close> is the result of Algorithm 1 on what its publisher loaded. The invariant is
  a conjunction of facts about one worker; a step of another worker keeps them because it writes
  its own slot only and its stamps never go back.
\<close>

section \<open>The invariant\<close>

text \<open>The events counted and not yet taken off, and the connections counted and not yet kept.\<close>

fun busy :: "phase \<Rightarrow> nat" where
  "busy (Handling evs) = length evs"
| "busy (Accepting evs) = Suc (length evs)"
| "busy (Registering fd evs) = Suc (length evs)"
| "busy (Finishing evs) = Suc (length evs)"
| "busy _ = 0"

fun outstanding :: "phase \<Rightarrow> nat" where
  "outstanding (Registering fd evs) = 1"
| "outstanding _ = 0"

fun events_left :: "phase \<Rightarrow> (u64 \<times> u32) list" where
  "events_left (Counting evs) = evs"
| "events_left (Handling evs) = evs"
| "events_left (Accepting evs) = evs"
| "events_left (Registering fd evs) = evs"
| "events_left (Finishing evs) = evs"
| "events_left _ = []"

fun registering :: "phase \<Rightarrow> fd set" where
  "registering (Registering fd evs) = {fd}"
| "registering _ = {}"

definition slot_exact :: "proc \<Rightarrow> worker_slot \<Rightarrow> bool" where
  "slot_exact pr s \<longleftrightarrow> pending_events s = of_nat (busy (pr_phase pr)) \<and>
     accumulated_conns s = of_nat (card (conns_of pr) + outstanding (pr_phase pr))"

definition fds_ok :: "proc \<Rightarrow> bool" where
  "fds_ok pr \<longleftrightarrow> conns_of pr \<union> registering (pr_phase pr) \<subseteq> {0..<2 ^ 31} \<and> conns_of pr \<inter> registering (pr_phase pr) = {}"

definition events_in_order :: "fd \<Rightarrow> proc \<Rightarrow> bool" where
  "events_in_order listen_fd pr \<longleftrightarrow> busy (pr_phase pr) \<le> MAX_EVENTS \<and> length (events_left (pr_phase pr)) \<le> MAX_EVENTS \<and>
     distinct (map (event_fd \<circ> fst) (events_left (pr_phase pr))) \<and>
     (event_fd \<circ> fst) ` set (events_left (pr_phase pr)) \<subseteq> insert listen_fd (conns_of pr)"

text \<open>The clock readings a worker has stored, is about to store, or has read for a snapshot.\<close>

fun readings :: "phase \<Rightarrow> i64 list" where
  "readings (Stamping t) = [t]"
| "readings (Reading t vs) = [t]"
| "readings (Ticking res t vs) = [t]"
| "readings _ = []"

definition clocks_in_order :: "i64 \<Rightarrow> proc \<Rightarrow> worker_slot \<Rightarrow> bool" where
  "clocks_in_order now pr s \<longleftrightarrow> 0 \<le> sint (last_loop_entry s) \<and> sint (last_loop_entry s) \<le> sint now \<and>
     (\<forall>t\<in>set (readings (pr_phase pr)). 0 \<le> sint t \<and> sint t \<le> sint now) \<and>
     (\<forall>t. pr_phase pr = Stamping t \<longrightarrow> sint (last_loop_entry s) \<le> sint t)"

fun loads :: "phase \<Rightarrow> i64 list" where
  "loads (Reading t vs) = vs"
| "loads (Ticking res t vs) = vs"
| "loads _ = []"

text \<open>A value loaded earlier: a stamp not later than the present one, a counter within its bounds.\<close>

definition load_fine :: "wst \<Rightarrow> nat \<Rightarrow> i64 \<Rightarrow> bool" where
  "load_fine w k v \<longleftrightarrow> 0 \<le> sint v \<and>
     sint v \<le> (if k mod 3 = 0 then sint (last_loop_entry (slots w ! (k div 3)))
               else if k mod 3 = 1 then int MAX_EVENTS else 2 ^ 31)"

definition loads_fine :: "nat \<Rightarrow> wst \<Rightarrow> i64 list \<Rightarrow> bool" where
  "loads_fine i w vs \<longleftrightarrow> length vs \<le> SNAPSHOT_LOADS \<and> (\<forall>k<length vs. load_fine w k (vs ! k)) \<and>
     (\<forall>k<length vs. k div 3 = i \<longrightarrow> vs ! k = load_nth w k)"

text \<open>A result is at hand exactly under the Hermes policy.\<close>

fun policy_ok :: "policy \<Rightarrow> phase \<Rightarrow> bool" where
  "policy_ok p At_Schedule = runs_scheduler p"
| "policy_ok p (Reading t vs) = runs_scheduler p"
| "policy_ok p (At_Tick res) = (res = None \<longleftrightarrow> \<not> runs_scheduler p)"
| "policy_ok p (Ticking res t vs) = (res = None \<longleftrightarrow> \<not> runs_scheduler p)"
| "policy_ok p _ = True"

definition worker_inv :: "nat \<Rightarrow> fd \<Rightarrow> policy \<Rightarrow> i64 \<Rightarrow> memory \<Rightarrow> proc \<Rightarrow> bool" where
  "worker_inv i listen_fd p now m pr \<longleftrightarrow>
     slot_exact pr (slots (mem_wst m) ! i) \<and> fds_ok pr \<and> events_in_order listen_fd pr \<and>
     clocks_in_order now pr (slots (mem_wst m) ! i) \<and> loads_fine i (mem_wst m) (loads (pr_phase pr)) \<and>
     policy_ok p (pr_phase pr) \<and> (\<forall>tick\<in>set (pr_ticks pr). tick_consistent tick)"

text \<open>What \<open>M_Sel\<close> holds: nothing yet, or the result on a snapshot that is not newer than the table.\<close>

definition published_from :: "i64 \<Rightarrow> memory \<Rightarrow> i64 \<Rightarrow> worker_snapshot list \<Rightarrow> bool" where
  "published_from now m t snaps \<longleftrightarrow>
     mem_sel m = bitmap (schedule_from_snapshots snaps t HANG_THRESHOLD_NS) \<and>
     sint t \<le> sint now \<and> table_ok snaps \<and> clocks_ok snaps t \<and>
     (\<forall>j<NUM_WORKERS. sint (snap_last_loop_entry (snaps ! j)) \<le> sint (last_loop_entry (slots (mem_wst m) ! j)))"

definition pub_inv :: "policy \<Rightarrow> i64 \<Rightarrow> memory \<Rightarrow> bool" where
  "pub_inv p now m \<longleftrightarrow>
     (case mem_pub m of None \<Rightarrow> mem_sel m = 0 | Some (t, snaps) \<Rightarrow> runs_scheduler p \<and> published_from now m t snaps)"

definition cluster_inv :: "(nat \<Rightarrow> fd) \<Rightarrow> policy \<Rightarrow> cluster \<Rightarrow> bool" where
  "cluster_inv lfds p s \<longleftrightarrow>
     wst_ok (mem_wst (cl_mem s)) \<and> length (cl_procs s) = NUM_WORKERS \<and> 0 \<le> sint (cl_now s) \<and>
     (\<forall>i<NUM_WORKERS. worker_inv i (lfds i) p (cl_now s) (cl_mem s) (cl_procs s ! i)) \<and>
     pub_inv p (cl_now s) (cl_mem s)"

section \<open>What a step writes\<close>

inductive_cases worker_step_elim: "worker_step i listen_fd p now (m, pr) (m', pr')"

lemmas worker_step_cases = worker_step_elim [consumes 1, case_names
  shutdown enter stamp_clock stamp_store hang no_hang wait wait_failed waited count accept_event accept_none accepted
  register_failed registered conn_event finish handled schedule_clock schedule_load publish publish_failed tick_clock
  tick_load tick_written tick_failed flushed flush_failed]

lemma mem_slot_frame [simp]:
  "mem_sel (mem_slot i f m) = mem_sel m" "mem_pub (mem_slot i f m) = mem_pub m"
  "mem_wst (mem_slot i f m) = upd_slot i f (mem_wst m)"
  by (simp_all add: mem_slot_def)

lemma slots_upd_other [simp]: "j \<noteq> i \<Longrightarrow> slots (upd_slot i f w) ! j = slots w ! j"
  by (simp add: upd_slot_def)

lemma count_ready_other [simp]: "j \<noteq> i \<Longrightarrow> slots (count_ready i n w) ! j = slots w ! j"
  by (simp add: count_ready_def)

lemma wst_ok_count_ready [simp]: "wst_ok w \<Longrightarrow> wst_ok (count_ready i n w)"
  by (simp add: count_ready_def)

lemma worker_step_frame:
  assumes "worker_step i listen_fd p now (m, pr) (m', pr')" and "wst_ok (mem_wst m)"
  shows "wst_ok (mem_wst m')" and "j \<noteq> i \<Longrightarrow> slots (mem_wst m') ! j = slots (mem_wst m) ! j"
  using assms by (auto elim: worker_step_elim)

lemma slot_upd_own [simp]:
  "wst_ok w \<Longrightarrow> i < NUM_WORKERS \<Longrightarrow> slots (upd_slot i f w) ! i = f (slots w ! i)"
  by (rule slot_upd_same)

lemma slot_count_own [simp]:
  "wst_ok w \<Longrightarrow> i < NUM_WORKERS \<Longrightarrow> slots (count_ready i n w) ! i = add_pending (of_nat n) (slots w ! i)"
  by (rule count_ready_slot)

section \<open>A step keeps the facts about its own worker\<close>

lemma events_head_conn:
  assumes "events_in_order listen_fd pr" and "pr_phase pr = Handling (ev # evs)" and "event_fd (fst ev) \<noteq> listen_fd"
  shows "event_fd (fst ev) \<in> conns_of pr"
  using assms by (auto simp: events_in_order_def)

lemma fds_finite: "fds_ok pr \<Longrightarrow> finite (conns_of pr)"
  unfolding fds_ok_def using finite_subset [of "conns_of pr" "{0..<2 ^ 31}"] by auto

lemma step_slot_exact:
  assumes step: "worker_step i listen_fd p now (m, pr) (m', pr')" and w: "wst_ok (mem_wst m)" "i < NUM_WORKERS"
    and inv: "slot_exact pr (slots (mem_wst m) ! i)" "fds_ok pr" "events_in_order listen_fd pr"
  shows "slot_exact pr' (slots (mem_wst m') ! i)"
  using step
proof (cases rule: worker_step_cases)
  case (conn_event ev evs ws rs io')
  let ?s = "(pr_io pr)\<lparr>io_slot := slots (mem_wst m) ! i, k_read := rs, k_write := ws\<rparr>"
  have c: "conns_counted ?s" and p: "pending_events (io_slot ?s) = of_nat (Suc (length evs))"
    using inv(1) conn_event fds_finite [OF inv(2)] by (simp_all add: conns_counted_def slot_exact_def)
  have "event_fd (fst ev) \<in> dom (io_conns ?s)"
    using events_head_conn [OF inv(3) conn_event(1,2)] by simp
  with c p handle_conn_event_counted [OF conn_event(3)] show ?thesis
    using conn_event w by (simp add: conns_counted_def slot_exact_def)
qed (use w inv fds_finite [OF inv(2)] in
  \<open>auto simp: slot_exact_def slot_op_defs fds_ok_def card_insert_if insert_Diff_if\<close>)


lemma handle_conn_event_stamp:
  assumes "handle_conn_event worker_id fd ev_mask s = Some s'"
  shows "last_loop_entry (io_slot s') = last_loop_entry (io_slot s)"
proof -
  obtain close s2 where "s' = (if close then close_conn fd s2 else s2)" and "io_slot s2 = io_slot s"
    using handle_conn_event_closes [OF assms] .
  then show ?thesis by (simp add: close_conn_def slot_op_defs)
qed

lemma step_fds_ok:
  assumes step: "worker_step i listen_fd p now (m, pr) (m', pr')" and inv: "fds_ok pr"
  shows "fds_ok pr'"
  using step
proof (cases rule: worker_step_cases)
  case (conn_event ev evs ws rs io')
  then show ?thesis using inv handle_conn_event_dom(1) [OF conn_event(3)] by (auto simp: fds_ok_def)
qed (use inv in \<open>auto simp: fds_ok_def\<close>)

lemma step_events_in_order:
  assumes step: "worker_step i listen_fd p now (m, pr) (m', pr')" and inv: "events_in_order listen_fd pr"
  shows "events_in_order listen_fd pr'"
  using step
proof (cases rule: worker_step_cases)
  case (conn_event ev evs ws rs io')
  have "(event_fd \<circ> fst) ` set evs \<subseteq> insert listen_fd (conns_of pr - {event_fd (fst ev)})"
    using inv conn_event(1) by (simp add: events_in_order_def) blast
  also have "\<dots> \<subseteq> insert listen_fd (dom (io_conns io'))"
    using handle_conn_event_dom(2) [OF conn_event(3)] by auto
  finally show ?thesis using inv conn_event by (simp add: events_in_order_def)
qed (use inv in \<open>auto simp: events_in_order_def\<close>)

lemma step_clocks_in_order:
  assumes step: "worker_step i listen_fd p now (m, pr) (m', pr')" and w: "wst_ok (mem_wst m)" "i < NUM_WORKERS"
    and now: "0 \<le> sint now" and inv: "clocks_in_order now pr (slots (mem_wst m) ! i)"
  shows "clocks_in_order now pr' (slots (mem_wst m') ! i) \<and>
    sint (last_loop_entry (slots (mem_wst m) ! i)) \<le> sint (last_loop_entry (slots (mem_wst m') ! i))"
  using step
proof (cases rule: worker_step_cases)
  case (conn_event ev evs ws rs io')
  have "last_loop_entry (io_slot io') = last_loop_entry (slots (mem_wst m) ! i)"
    using handle_conn_event_stamp [OF conn_event(3)] by simp
  then show ?thesis using inv conn_event w by (simp add: clocks_in_order_def)
qed (use w inv now in \<open>auto simp: clocks_in_order_def slot_op_defs\<close>)



lemma step_policy_ok:
  assumes step: "worker_step i listen_fd p now (m, pr) (m', pr')" and inv: "policy_ok p (pr_phase pr)"
  shows "policy_ok p (pr_phase pr')"
  using step by (cases rule: worker_step_cases) (use inv in auto)

section \<open>Values loaded from the table\<close>

lemma sint_of_nat_i64 [word_model]: "n < 2 ^ 63 \<Longrightarrow> sint (of_nat n :: i64) = int n"
  using sint_of_int_i64 [of "int n"] by simp

lemma conns_bounded:
  assumes "fds_ok pr"
  shows "card (conns_of pr) + outstanding (pr_phase pr) \<le> 2 ^ 31"
proof -
  have "outstanding (pr_phase pr) = card (registering (pr_phase pr))" by (cases "pr_phase pr") simp_all
  moreover have "finite (registering (pr_phase pr))" by (cases "pr_phase pr") simp_all
  ultimately have "card (conns_of pr) + outstanding (pr_phase pr) = card (conns_of pr \<union> registering (pr_phase pr))"
    using assms fds_finite [OF assms] by (simp add: fds_ok_def card_Un_disjoint)
  also have "\<dots> \<le> card {0..<2 ^ 31 :: int}" using assms by (intro card_mono) (simp_all add: fds_ok_def)
  finally show ?thesis by simp
qed

lemma load_nth_fine:
  assumes "clocks_in_order now pr (slots w ! (k div 3))" and "slot_exact pr (slots w ! (k div 3))"
    and "fds_ok pr" and "events_in_order listen_fd pr"
  shows "load_fine w k (load_nth w k)"
proof -
  have "busy (pr_phase pr) \<le> MAX_EVENTS" using assms(4) by (simp add: events_in_order_def)
  then have "sint (pending_events (slots w ! (k div 3))) = int (busy (pr_phase pr))"
    using assms(2) by (simp add: slot_exact_def sint_of_nat_i64 MAX_EVENTS_def)
  moreover have "sint (accumulated_conns (slots w ! (k div 3))) = int (card (conns_of pr) + outstanding (pr_phase pr))"
    using assms(2) conns_bounded [OF assms(3)] by (simp add: slot_exact_def sint_of_nat_i64 del: of_nat_add)
  ultimately show ?thesis
    using assms(1) conns_bounded [OF assms(3)] \<open>busy (pr_phase pr) \<le> MAX_EVENTS\<close>
    by (simp add: load_fine_def load_nth_def Let_def clocks_in_order_def)
qed

lemma loads_fine_snoc:
  assumes "loads_fine i w vs" and "length vs < SNAPSHOT_LOADS" and "load_fine w (length vs) (load_nth w (length vs))"
  shows "loads_fine i w (vs @ [load_nth w (length vs)])"
  using assms by (auto simp: loads_fine_def nth_append less_Suc_eq)

lemma assemble_own:
  assumes "loads_fine i w vs" and "length vs = SNAPSHOT_LOADS" and "i < NUM_WORKERS"
  shows "assemble vs ! i = slot_snapshot (slots w ! i)"
proof -
  have "vs ! (3 * i) = load_nth w (3 * i)" "vs ! Suc (3 * i) = load_nth w (Suc (3 * i))"
    "vs ! Suc (Suc (3 * i)) = load_nth w (Suc (Suc (3 * i)))"
    using assms assemble_index [OF assms(3)] by (auto simp: loads_fine_def div_mod_index)
  then show ?thesis
    using assms(3) by (simp add: nth_assemble load_nth_def div_mod_index slot_snapshot_def)
qed

lemma assemble_bounds:
  assumes "loads_fine i w vs" and "length vs = SNAPSHOT_LOADS" and "j < NUM_WORKERS"
  shows "0 \<le> sint (snap_last_loop_entry (assemble vs ! j))"
    and "sint (snap_last_loop_entry (assemble vs ! j)) \<le> sint (last_loop_entry (slots w ! j))"
    and "0 \<le> sint (snap_pending_events (assemble vs ! j))"
    and "sint (snap_pending_events (assemble vs ! j)) \<le> 2 ^ 31"
    and "0 \<le> sint (snap_accumulated_conns (assemble vs ! j))"
    and "sint (snap_accumulated_conns (assemble vs ! j)) \<le> 2 ^ 31"
proof -
  have "load_fine w (3 * j) (vs ! (3 * j))" "load_fine w (Suc (3 * j)) (vs ! Suc (3 * j))"
    "load_fine w (Suc (Suc (3 * j))) (vs ! Suc (Suc (3 * j)))"
    using assms assemble_index [OF assms(3)] by (auto simp: loads_fine_def)
  then show "0 \<le> sint (snap_last_loop_entry (assemble vs ! j))"
    "sint (snap_last_loop_entry (assemble vs ! j)) \<le> sint (last_loop_entry (slots w ! j))"
    "0 \<le> sint (snap_pending_events (assemble vs ! j))"
    "sint (snap_pending_events (assemble vs ! j)) \<le> 2 ^ 31"
    "0 \<le> sint (snap_accumulated_conns (assemble vs ! j))"
    "sint (snap_accumulated_conns (assemble vs ! j)) \<le> 2 ^ 31"
    by (simp_all add: nth_assemble [OF assms(3)] load_fine_def div_mod_index MAX_EVENTS_def)
qed

lemma loads_ok_below:
  assumes "\<And>j. j < NUM_WORKERS \<Longrightarrow> 0 \<le> sint (metric j) \<and> sint (metric j) \<le> 2 ^ 31"
  shows "loads_ok metric [0..<NUM_WORKERS]"
proof -
  have "sint (metric 0) \<le> 2 ^ 31" "sint (metric 1) \<le> 2 ^ 31" "sint (metric 2) \<le> 2 ^ 31" "sint (metric 3) \<le> 2 ^ 31"
    using assms by (simp_all add: NUM_WORKERS_def)
  then have "load_sum metric [0..<NUM_WORKERS] \<le> 2 ^ 51" by (simp add: workers_upt)
  then show ?thesis using assms by (simp add: loads_ok_def)
qed

lemma assemble_table_ok:
  assumes "loads_fine i w vs" and "length vs = SNAPSHOT_LOADS"
  shows "table_ok (assemble vs)"
  unfolding table_ok_def using assemble_bounds [OF assms]
  by (auto intro!: loads_ok_below simp: assemble_def)

lemma assemble_clocks_ok:
  assumes "loads_fine i w vs" and "length vs = SNAPSHOT_LOADS" and "0 \<le> sint t"
  shows "clocks_ok (assemble vs) t"
  using assms(3) assemble_bounds(1) [OF assms(1,2)]
  by (auto simp: clocks_ok_def in_set_conv_nth) (simp add: assemble_def)

section \<open>Every step keeps the invariant\<close>

lemma load_index: "k < SNAPSHOT_LOADS \<Longrightarrow> k div 3 < NUM_WORKERS"
  by (simp add: SNAPSHOT_LOADS_def)

lemma loads_fine_mono:
  assumes "loads_fine i w vs" and "slots w' ! i = slots w ! i"
    and "\<And>j. j < NUM_WORKERS \<Longrightarrow> sint (last_loop_entry (slots w ! j)) \<le> sint (last_loop_entry (slots w' ! j))"
  shows "loads_fine i w' vs"
proof -
  have "load_fine w' k v" if "load_fine w k v" and "k < length vs" for k v
    using that assms(1) assms(3) [OF load_index, of k] by (auto simp: load_fine_def loads_fine_def)
  moreover have "load_nth w' k = load_nth w k" if "k div 3 = i" for k
    using that assms(2) by (simp add: load_nth_def)
  ultimately show ?thesis using assms(1) by (simp add: loads_fine_def)
qed

lemma clocks_in_order_mono:
  "clocks_in_order now pr s \<Longrightarrow> sint now \<le> sint now' \<Longrightarrow> clocks_in_order now' pr s"
  by (auto simp: clocks_in_order_def)

lemma worker_inv_mono:
  assumes "worker_inv i listen_fd p now m pr" and "slots (mem_wst m') ! i = slots (mem_wst m) ! i"
    and "\<And>j. j < NUM_WORKERS \<Longrightarrow>
      sint (last_loop_entry (slots (mem_wst m) ! j)) \<le> sint (last_loop_entry (slots (mem_wst m') ! j))"
    and "sint now \<le> sint now'"
  shows "worker_inv i listen_fd p now' m' pr"
  using assms(1,2) loads_fine_mono [OF _ assms(2,3)] clocks_in_order_mono [OF _ assms(4)]
  by (simp add: worker_inv_def)

lemma step_loads_fine:
  assumes step: "worker_step i listen_fd p now (m, pr) (m', pr')"
    and inv: "loads_fine i (mem_wst m) (loads (pr_phase pr))"
    and fine: "\<And>k. k < SNAPSHOT_LOADS \<Longrightarrow> load_fine (mem_wst m) k (load_nth (mem_wst m) k)"
  shows "loads_fine i (mem_wst m') (loads (pr_phase pr'))"
proof -
  have nil: "loads_fine i w []" for w by (simp add: loads_fine_def)
  show ?thesis
    using step by (cases rule: worker_step_cases) (use inv nil in \<open>auto intro: loads_fine_snoc fine\<close>)
qed

lemma step_ticks:
  assumes step: "worker_step i listen_fd p now (m, pr) (m', pr')" and i: "i < NUM_WORKERS"
    and own: "slot_exact pr (slots (mem_wst m) ! i)" "loads_fine i (mem_wst m) (loads (pr_phase pr))"
      "policy_ok p (pr_phase pr)"
    and inv: "\<forall>tick\<in>set (pr_ticks pr). tick_consistent tick"
  shows "\<forall>tick\<in>set (pr_ticks pr'). tick_consistent tick"
  using step
proof (cases rule: worker_step_cases)
  case (tick_written res t vs)
  then have "assemble vs ! i = slot_snapshot (slots (mem_wst m) ! i)"
    using assemble_own [OF _ _ i] own(2) by simp
  then show ?thesis
    using inv own(1,3) tick_written by (auto simp: tick_consistent_def Let_def slot_snapshot_def slot_exact_def)
qed (use inv in auto)

lemma worker_inv_step:
  assumes step: "worker_step i listen_fd p now (m, pr) (m', pr')" and w: "wst_ok (mem_wst m)" "i < NUM_WORKERS"
    and now: "0 \<le> sint now" and inv: "worker_inv i listen_fd p now m pr"
    and fine: "\<And>k. k < SNAPSHOT_LOADS \<Longrightarrow> load_fine (mem_wst m) k (load_nth (mem_wst m) k)"
  shows "worker_inv i listen_fd p now m' pr'"
  using inv step_slot_exact [OF step w] step_fds_ok [OF step] step_events_in_order [OF step]
    step_clocks_in_order [OF step w now] step_loads_fine [OF step _ fine] step_policy_ok [OF step] step_ticks [OF step w(2)]
  by (simp add: worker_inv_def)

lemma published_from_mono:
  assumes "published_from now m t snaps" and "mem_sel m' = mem_sel m" and "sint now \<le> sint now'"
    and "\<And>j. j < NUM_WORKERS \<Longrightarrow>
      sint (last_loop_entry (slots (mem_wst m) ! j)) \<le> sint (last_loop_entry (slots (mem_wst m') ! j))"
  shows "published_from now' m' t snaps"
  using assms by (force simp: published_from_def)

lemma pub_inv_mono:
  assumes "pub_inv p now m" and "mem_sel m' = mem_sel m" and "mem_pub m' = mem_pub m" and "sint now \<le> sint now'"
    and "\<And>j. j < NUM_WORKERS \<Longrightarrow>
      sint (last_loop_entry (slots (mem_wst m) ! j)) \<le> sint (last_loop_entry (slots (mem_wst m') ! j))"
  shows "pub_inv p now' m'"
  using assms published_from_mono [OF _ assms(2,4,5)] by (auto simp: pub_inv_def split: option.splits)

lemma pub_inv_step:
  assumes step: "worker_step i listen_fd p now (m, pr) (m', pr')" and inv: "pub_inv p now m"
    and own: "worker_inv i listen_fd p now m pr"
    and stamps: "\<And>j. j < NUM_WORKERS \<Longrightarrow>
      sint (last_loop_entry (slots (mem_wst m) ! j)) \<le> sint (last_loop_entry (slots (mem_wst m') ! j))"
  shows "pub_inv p now m'"
  using step
proof (cases rule: worker_step_cases)
  case (publish t vs)
  have l: "loads_fine i (mem_wst m) vs" and t: "0 \<le> sint t" "sint t \<le> sint now" and "runs_scheduler p"
    using own publish(1) by (auto simp: worker_inv_def clocks_in_order_def)
  moreover have "mem_wst m' = mem_wst m" using publish by simp
  ultimately have "published_from now m' t (assemble vs)"
    using publish assemble_table_ok [OF l publish(2)] assemble_clocks_ok [OF l publish(2) t(1)]
      assemble_bounds(2) [OF l publish(2)]
    by (simp add: published_from_def)
  then show ?thesis using publish \<open>runs_scheduler p\<close> by (simp add: pub_inv_def)
qed (use pub_inv_mono [OF inv _ _ order_refl stamps] in auto)

lemma cluster_inv_load_fine:
  assumes "cluster_inv lfds p s" and "k < SNAPSHOT_LOADS"
  shows "load_fine (mem_wst (cl_mem s)) k (load_nth (mem_wst (cl_mem s)) k)"
proof -
  let ?j = "k div 3"
  have "worker_inv ?j (lfds ?j) p (cl_now s) (cl_mem s) (cl_procs s ! ?j)"
    using assms load_index by (simp add: cluster_inv_def)
  then show ?thesis by (auto simp: worker_inv_def intro: load_nth_fine)
qed

lemma cluster_inv_step:
  assumes inv: "cluster_inv lfds p s" and "cluster_step lfds p s s'"
  shows "cluster_inv lfds p s'"
  using assms(2)
proof cases
  case (work i m' pr')
  have w: "wst_ok (mem_wst (cl_mem s))" and now: "0 \<le> sint (cl_now s)"
    using inv by (simp_all add: cluster_inv_def)
  have own: "worker_inv j (lfds j) p (cl_now s) (cl_mem s) (cl_procs s ! j)" if "j < NUM_WORKERS" for j
    using inv that by (simp add: cluster_inv_def)
  note step = work(3)
  have stamps: "sint (last_loop_entry (slots (mem_wst (cl_mem s)) ! j)) \<le> sint (last_loop_entry (slots (mem_wst m') ! j))"
    if "j < NUM_WORKERS" for j
    using step_clocks_in_order [OF step w work(2) now] worker_step_frame(2) [OF step w, of j] own [OF work(2)]
    by (cases "j = i") (auto simp: worker_inv_def)
  have others: "worker_inv j (lfds j) p (cl_now s) m' (cl_procs s ! j)" if "j < NUM_WORKERS" "j \<noteq> i" for j
    by (rule worker_inv_mono [OF own [OF that(1)] worker_step_frame(2) [OF step w that(2)] stamps order_refl])
  have "worker_inv i (lfds i) p (cl_now s) m' pr'"
    using worker_inv_step [OF step w work(2) now own [OF work(2)] cluster_inv_load_fine [OF inv]] .
  moreover have "pub_inv p (cl_now s) m'"
    using inv by (intro pub_inv_step [OF step _ own [OF work(2)] stamps]) (simp add: cluster_inv_def)
  ultimately show ?thesis
    using inv work others worker_step_frame(1) [OF step w]
    by (auto simp: cluster_inv_def nth_list_update)
next
  case (clock t)
  then show ?thesis
    using inv pub_inv_mono [of p "cl_now s" "cl_mem s" "cl_mem s" t] worker_inv_mono [of _ _ p "cl_now s" "cl_mem s" _ "cl_mem s" t]
    by (auto simp: cluster_inv_def)
qed

lemma cluster_inv_start: "0 \<le> sint t \<Longrightarrow> cluster_inv lfds p (fresh_cluster hangs t)"
  by (simp add: cluster_inv_def fresh_cluster_def fresh_memory_def fresh_proc_def worker_inv_def slot_exact_def fds_ok_def
      events_in_order_def clocks_in_order_def loads_fine_def pub_inv_def wst_ok_def worker_slot_new_def)

lemma cluster_reachable_inv: "cluster_reachable lfds p s \<Longrightarrow> cluster_inv lfds p s"
  by (induction rule: cluster_reachable.induct) (auto intro: cluster_inv_start cluster_inv_step)
end
