(* ===== verification/Cluster_Safety.thy ===== *)
theory Cluster_Safety
  imports Cluster_Inv
begin

text \<open>
  The properties of the workers running together, and concrete runs on which they apply.
\<close>

section \<open>Runs of one worker within the system\<close>

text \<open>A reachable state in which the memory, worker \<open>i\<close> and the clock are as given.\<close>

definition reaches :: "(nat \<Rightarrow> fd) \<Rightarrow> policy \<Rightarrow> nat \<Rightarrow> i64 \<Rightarrow> memory \<Rightarrow> proc \<Rightarrow> bool" where
  "reaches lfds p i t m pr \<longleftrightarrow>
     (\<exists>s. cluster_reachable lfds p s \<and> cl_mem s = m \<and> cl_procs s ! i = pr \<and> cl_now s = t \<and> length (cl_procs s) = NUM_WORKERS)"

lemma reaches_start:
  "0 \<le> sint t \<Longrightarrow> i < NUM_WORKERS \<Longrightarrow> reaches lfds p i t fresh_memory (fresh_proc None)"
  unfolding reaches_def using cluster_reachable.start [of t lfds p "\<lambda>_. None"]
  by (intro exI [of _ "fresh_cluster (\<lambda>_. None) t"]) (simp add: fresh_cluster_def)

lemma reaches_step:
  assumes "reaches lfds p i t m pr" and "worker_step i (lfds i) p t (m, pr) (m', pr')" and "i < NUM_WORKERS"
  shows "reaches lfds p i t m' pr'"
proof -
  obtain s where s: "cluster_reachable lfds p s" "cl_mem s = m" "cl_procs s ! i = pr" "cl_now s = t"
    "length (cl_procs s) = NUM_WORKERS" using assms(1) by (auto simp: reaches_def)
  let ?s = "s\<lparr>cl_mem := m', cl_procs := (cl_procs s)[i := pr']\<rparr>"
  have "cluster_step lfds p s ?s" using s assms(2,3) by (intro cluster_step.work) simp_all
  with s(1) have "cluster_reachable lfds p ?s" by (rule cluster_reachable.step)
  then show ?thesis using s assms(3) unfolding reaches_def by (intro exI [of _ ?s]) simp
qed

lemma reaches_wait:
  assumes "0 \<le> sint t" and "i < NUM_WORKERS"
  shows "reaches lfds p i t (mem_slot i (store_loop_entry t) fresh_memory) (goto (Waiting t) (fresh_proc None))"
proof -
  have r: "pr_phase (fresh_proc None) = At_Top" by (simp add: fresh_proc_def)
  note s1 = reaches_step [OF reaches_start [OF assms] worker_step.enter [OF r] assms(2)]
  note s2 = reaches_step [OF s1 worker_step.stamp_clock assms(2), simplified]
  note s3 = reaches_step [OF s2 worker_step.stamp_store assms(2), simplified, OF refl]
  have "reaches lfds p i t (mem_slot i (store_loop_entry t) fresh_memory) (goto At_Wait (fresh_proc None))"
    using reaches_step [OF s3 worker_step.no_hang assms(2)] by (simp add: fresh_proc_def)
  from reaches_step [OF this worker_step.wait assms(2)] show ?thesis by simp
qed


text \<open>Worker 2, listening on descriptor 4, in the middle of accepting a connection.\<close>

definition accepting_proc :: proc where
  "accepting_proc = goto (Registering 9 []) (fresh_proc None)"

definition accepting_memory :: memory where
  "accepting_memory = mem_slot 2 (\<lambda>_. \<lparr>last_loop_entry = 1000, pending_events = 1, accumulated_conns = 1\<rparr>) fresh_memory"

lemma reaches_accepting: "reaches (\<lambda>_. 4) p 2 1000 accepting_memory accepting_proc"
proof -
  let ?l = "\<lambda>_ :: nat. 4 :: fd"
  have i: "(2::nat) < NUM_WORKERS" by (simp add: NUM_WORKERS_def)
  have w: "epoll_wait (1, 0) = Inr (length [(4 :: u64, 1 :: u32)])" "event_fd 4 = 4"
    by (simp_all add: epoll_wait_def event_fd_def)
  have "reaches ?l p 2 1000 (mem_slot 2 (store_loop_entry 1000) fresh_memory) (goto (Waiting 1000) (fresh_proc None))"
    by (rule reaches_wait) (simp_all add: i)
  from reaches_step [OF this worker_step.waited [where evs = "[(4, 1)]", OF _ w(1)] i]
  have "reaches ?l p 2 1000 (mem_slot 2 (store_loop_entry 1000) fresh_memory) (goto (Counting [(4, 1)]) (fresh_proc None))"
    by (simp add: MAX_EVENTS_def w)
  from reaches_step [OF this worker_step.count i]
  have "reaches ?l p 2 1000 (mem_slot 2 (\<lambda>_. \<lparr>last_loop_entry = 1000, pending_events = 1, accumulated_conns = 0\<rparr>) fresh_memory)
      (goto (Handling [(4, 1)]) (fresh_proc None))"
    by (simp add: mem_slot_def count_ready_def upd_slot_def fresh_memory_def slot_op_defs worker_slot_new_def i)
  from reaches_step [OF this worker_step.accept_event i]
  have "reaches ?l p 2 1000 (mem_slot 2 (\<lambda>_. \<lparr>last_loop_entry = 1000, pending_events = 1, accumulated_conns = 0\<rparr>) fresh_memory)
      (goto (Accepting []) (fresh_proc None))"
    by (simp add: w)
  from reaches_step [OF this worker_step.accepted [where fd = 9] i]
  show ?thesis
    by (simp add: mem_slot_def upd_slot_def fresh_memory_def slot_op_defs i accepting_memory_def accepting_proc_def
        fresh_proc_def)
qed


text \<open>Worker 2 after it has published, the others not having started yet.\<close>

lemma reaches_loads:
  assumes "reaches lfds p i t m (goto (Reading c []) pr)" and "i < NUM_WORKERS" and "n \<le> SNAPSHOT_LOADS"
  shows "reaches lfds p i t m (goto (Reading c (map (load_nth (mem_wst m)) [0..<n])) pr)"
  using assms(3)
proof (induction n)
  case (Suc n)
  then have "reaches lfds p i t m (goto (Reading c (map (load_nth (mem_wst m)) [0..<n])) pr)" by simp
  from reaches_step [OF this worker_step.schedule_load assms(2)] Suc.prems show ?case by simp
qed (use assms(1) in simp)

definition idle_memory :: memory where
  "idle_memory = mem_slot 2 (store_loop_entry 1000) fresh_memory"

definition idle_snapshots :: "worker_snapshot list" where
  "idle_snapshots = assemble (map (load_nth (mem_wst idle_memory)) [0..<SNAPSHOT_LOADS])"

definition idle_result :: schedule_result where
  "idle_result = schedule_from_snapshots idle_snapshots 1000 HANG_THRESHOLD_NS"

lemma reaches_published:
  "reaches (\<lambda>_. 4) Hermes 2 1000 (idle_memory\<lparr>mem_sel := bitmap idle_result, mem_pub := Some (1000, idle_snapshots)\<rparr>)
     (goto (At_Tick (Some idle_result)) (fresh_proc None))"
proof -
  let ?l = "\<lambda>_ :: nat. 4 :: fd"
  have i: "(2::nat) < NUM_WORKERS" by (simp add: NUM_WORKERS_def)
  have w: "epoll_wait (- 1, EINTR) = Inr (length ([] :: (u64 \<times> u32) list))" by (simp add: epoll_wait_def)
  have "reaches ?l Hermes 2 1000 idle_memory (goto (Waiting 1000) (fresh_proc None))"
    unfolding idle_memory_def by (rule reaches_wait) (simp_all add: i)
  from reaches_step [OF this worker_step.waited [where evs = "[]", OF _ w(1)] i]
  have "reaches ?l Hermes 2 1000 idle_memory (goto (Counting []) (fresh_proc None))" by simp
  from reaches_step [OF this worker_step.count i]
  have "reaches ?l Hermes 2 1000 idle_memory (goto (Handling []) (fresh_proc None))" by (simp add: count_ready_def)
  from reaches_step [OF this worker_step.handled i]
  have "reaches ?l Hermes 2 1000 idle_memory (goto At_Schedule (fresh_proc None))" by (simp add: runs_scheduler_def)
  from reaches_step [OF this worker_step.schedule_clock i]
  have "reaches ?l Hermes 2 1000 idle_memory (goto (Reading 1000 []) (fresh_proc None))" by simp
  note r = reaches_loads [OF this i order_refl]
  show ?thesis
    using reaches_step [OF r worker_step.publish i] by (simp add: idle_snapshots_def idle_result_def)
qed

lemma idle_bitmap: "bitmap idle_result = 15"
  by code_simp


section \<open>Properties\<close>

text \<open>
  C12: The load metrics tell the truth at every access: in every state any interleaving of the workers can
  reach, the busy counter of a worker's slot is the number of events it has taken and not finished,
  its connection counter is the number of connections it holds and is about to hold, and both are
  within bounds; its tick rows agree with what it held when they were written.
\<close>

theorem counters_exact_at_every_access:
  assumes "cluster_reachable lfds p s" and "i < NUM_WORKERS"
  shows "let pr = cl_procs s ! i; slot = slots (mem_wst (cl_mem s)) ! i
    in sint (pending_events slot) = int (busy (pr_phase pr)) \<and> busy (pr_phase pr) \<le> MAX_EVENTS \<and>
       sint (accumulated_conns slot) = int (card (conns_of pr) + outstanding (pr_phase pr)) \<and>
       card (conns_of pr) + outstanding (pr_phase pr) \<le> 2 ^ 31 \<and>
       (\<forall>tick\<in>set (pr_ticks pr). tick_consistent tick)"
proof -
  let ?pr = "cl_procs s ! i"
  have w: "worker_inv i (lfds i) p (cl_now s) (cl_mem s) ?pr"
    using cluster_reachable_inv [OF assms(1)] assms(2) by (simp add: cluster_inv_def)
  then have b: "busy (pr_phase ?pr) \<le> MAX_EVENTS" and "fds_ok ?pr"
    by (simp_all add: worker_inv_def events_in_order_def)
  note c = conns_bounded [OF this(2)]
  from b c have "sint (of_nat (busy (pr_phase ?pr)) :: i64) = int (busy (pr_phase ?pr))"
    and "sint (of_nat (card (conns_of ?pr) + outstanding (pr_phase ?pr)) :: i64) =
      int (card (conns_of ?pr) + outstanding (pr_phase ?pr))"
    by (simp_all add: sint_of_nat_i64 MAX_EVENTS_def del: of_nat_add)
  with w b c show ?thesis unfolding Let_def worker_inv_def slot_exact_def by simp
qed

theorem counters_exact_at_every_access_witness:
  "\<exists>s. cluster_reachable (\<lambda>_. 4) Hermes s \<and> pr_phase (cl_procs s ! 2) = Registering 9 [] \<and>
    sint (pending_events (slots (mem_wst (cl_mem s)) ! 2)) = 1 \<and>
    sint (accumulated_conns (slots (mem_wst (cl_mem s)) ! 2)) = 1"
proof -
  obtain s where s: "cluster_reachable (\<lambda>_. 4) Hermes s" "cl_procs s ! 2 = accepting_proc"
    using reaches_accepting [of Hermes] by (auto simp: reaches_def)
  from counters_exact_at_every_access [OF s(1), of 2] s show ?thesis
    by (intro exI [of _ s]) (simp add: Let_def accepting_proc_def fresh_proc_def NUM_WORKERS_def)
qed

text \<open>
  C11: What the kernel reads is always a result of the specification of Algorithm 1: in every reachable state
  \<open>M_Sel\<close> is zero, because nobody has published, or names exactly the candidates for the table its
  publisher loaded, atomic by atomic, while the others went on writing; no assumption on loads or
  clocks is left, and what was loaded is not newer than what the table holds now.
\<close>

theorem every_publication_meets_spec:
  assumes "cluster_reachable lfds p s"
  shows "case mem_pub (cl_mem s) of
      None \<Rightarrow> mem_sel (cl_mem s) = 0
    | Some (t, snaps) \<Rightarrow> p = Hermes \<and> set_bits (mem_sel (cl_mem s)) 64 = candidates_spec snaps t HANG_THRESHOLD_NS \<and>
        sint t \<le> sint (cl_now s) \<and>
        (\<forall>j<NUM_WORKERS. sint (snap_last_loop_entry (snaps ! j)) \<le> sint (last_loop_entry (slots (mem_wst (cl_mem s)) ! j)))"
proof (cases "mem_pub (cl_mem s)")
  case (Some pub)
  obtain t snaps where pub: "pub = (t, snaps)" by (cases pub)
  have "published_from (cl_now s) (cl_mem s) t snaps" and "runs_scheduler p"
    using cluster_reachable_inv [OF assms] Some pub by (simp_all add: cluster_inv_def pub_inv_def)
  then show ?thesis
    using Some pub survivors_meet_spec [of snaps t HANG_THRESHOLD_NS]
    by (simp add: published_from_def set_bits_schedule runs_scheduler_def)
qed (use cluster_reachable_inv [OF assms] in \<open>simp add: cluster_inv_def pub_inv_def\<close>)

theorem every_publication_meets_spec_witness:
  "\<exists>s. cluster_reachable (\<lambda>_. 4) Hermes s \<and> mem_sel (cl_mem s) = 15 \<and>
    set_bits (mem_sel (cl_mem s)) 64 = candidates_spec idle_snapshots 1000 HANG_THRESHOLD_NS"
proof -
  obtain s where s: "cluster_reachable (\<lambda>_. 4) Hermes s" "mem_sel (cl_mem s) = 15"
    "mem_pub (cl_mem s) = Some (1000, idle_snapshots)"
    using reaches_published by (auto simp: reaches_def idle_bitmap)
  from every_publication_meets_spec [OF s(1)] s show ?thesis by (intro exI [of _ s]) simp
qed

lemma selected_is_candidate:
  assumes "cluster_reachable lfds p s" and "try_select (Some (mem_sel (cl_mem s))) ctx = Some w"
  shows "\<exists>t snaps. mem_pub (cl_mem s) = Some (t, snaps) \<and> published_from (cl_now s) (cl_mem s) t snaps \<and>
    unat w \<in> set (candidates_spec snaps t HANG_THRESHOLD_NS)"
proof -
  have inv: "pub_inv p (cl_now s) (cl_mem s)" using cluster_reachable_inv [OF assms(1)] by (simp add: cluster_inv_def)
  have b: "2 \<le> length (set_bits (mem_sel (cl_mem s)) 64)" "unat w \<in> set (set_bits (mem_sel (cl_mem s)) NUM_WORKERS)"
    using try_select_Some [OF assms(2)] by simp_all
  then obtain t snaps where pub: "mem_pub (cl_mem s) = Some (t, snaps)"
    using inv by (auto simp: pub_inv_def set_bits_def split: option.splits)
  with inv have pubd: "published_from (cl_now s) (cl_mem s) t snaps" by (simp add: pub_inv_def)
  then have "unat w \<in> set (candidates_spec snaps t HANG_THRESHOLD_NS)"
    using b(2) survivors_meet_spec [of snaps t HANG_THRESHOLD_NS] by (auto simp: published_from_def bit_schedule)
  with pub pubd show ?thesis by blast
qed

text \<open>
  C1: No connection goes to a worker that is stuck: whatever the workers do and whenever the kernel runs the
  eBPF program, the worker it selects is a candidate of the last publication and had entered its
  loop, at the latest, less than the threshold before the clock reading of that publication, unless
  the publisher saw it not started yet. A worker stuck in its loop from \<open>t\<close> on is therefore never
  selected on a publication computed at \<open>t + HANG_THRESHOLD_NS\<close> or later.
\<close>

theorem stuck_worker_gets_no_connection:
  assumes "cluster_reachable lfds p s" and "try_select (Some (mem_sel (cl_mem s))) ctx = Some w"
  shows "\<exists>t snaps. mem_pub (cl_mem s) = Some (t, snaps) \<and> unat w < NUM_WORKERS \<and>
    unat w \<in> set (candidates_spec snaps t HANG_THRESHOLD_NS) \<and>
    (sint (snap_last_loop_entry (snaps ! unat w)) = 0 \<or>
     sint t - sint (last_loop_entry (slots (mem_wst (cl_mem s)) ! unat w)) < sint HANG_THRESHOLD_NS)"
proof -
  obtain t snaps where pub: "mem_pub (cl_mem s) = Some (t, snaps)" and pubd: "published_from (cl_now s) (cl_mem s) t snaps"
    and c: "unat w \<in> set (candidates_spec snaps t HANG_THRESHOLD_NS)"
    using selected_is_candidate [OF assms] by blast
  then have "\<not> hung t HANG_THRESHOLD_NS (snaps ! unat w)" and "unat w < NUM_WORKERS"
    by (simp_all add: candidates_spec_def Let_def)
  moreover have "sint (snap_last_loop_entry (snaps ! unat w)) \<le> sint (last_loop_entry (slots (mem_wst (cl_mem s)) ! unat w))"
    using pubd \<open>unat w < NUM_WORKERS\<close> by (simp add: published_from_def)
  ultimately show ?thesis using pub c by (auto simp: hung_def)
qed

theorem stuck_worker_gets_no_connection_witness:
  "\<exists>s w. cluster_reachable (\<lambda>_. 4) Hermes s \<and>
    try_select (Some (mem_sel (cl_mem s))) \<lparr>ip_protocol = 6, ctx_hash = 77\<rparr> = Some w \<and>
    unat w \<in> set (candidates_spec idle_snapshots 1000 HANG_THRESHOLD_NS)"
proof -
  obtain s where s: "cluster_reachable (\<lambda>_. 4) Hermes s" "mem_sel (cl_mem s) = 15"
    "mem_pub (cl_mem s) = Some (1000, idle_snapshots)"
    using reaches_published by (auto simp: reaches_def idle_bitmap)
  have "try_select (Some 15) \<lparr>ip_protocol = 6, ctx_hash = 77\<rparr> = Some 0" by code_simp
  with s have "try_select (Some (mem_sel (cl_mem s))) \<lparr>ip_protocol = 6, ctx_hash = 77\<rparr> = Some 0" by simp
  from stuck_worker_gets_no_connection [OF s(1) this] this s show ?thesis by auto
qed

end
