(* ===== verification/Worker_Scripts.thy ===== *)
theory Worker_Scripts
  imports Worker_Loop
begin

text \<open>
  The connection handling does not look beyond the results of the system calls it consumes: with
  more results in the scripts it does the same and leaves them there. So a turn can be put together
  from pieces that were each given exactly the results of their own calls. And it ends whatever the
  kernel answers: the number of its calls is bounded by the reads and the requests.
\<close>

section \<open>Routines do not look beyond the results they consume\<close>

definition feed :: "(int \<times> errno) list \<Rightarrow> (int \<times> errno) list \<Rightarrow> read_result list \<Rightarrow> (int \<times> errno) list \<Rightarrow> io \<Rightarrow> io" where
  "feed as cs rs ws s = s\<lparr>k_accept := k_accept s @ as, k_ctl_add := k_ctl_add s @ cs,
     k_read := k_read s @ rs, k_write := k_write s @ ws\<rparr>"

lemma feed_frame [simp]:
  "io_slot (feed as cs rs ws s) = io_slot s" "io_conns (feed as cs rs ws s) = io_conns s"
  "io_log (feed as cs rs ws s) = io_log s" "k_accept (feed as cs rs ws s) = k_accept s @ as"
  "k_ctl_add (feed as cs rs ws s) = k_ctl_add s @ cs" "k_read (feed as cs rs ws s) = k_read s @ rs"
  "k_write (feed as cs rs ws s) = k_write s @ ws"
  by (simp_all add: feed_def)

lemma write_loop_ext:
  "write_loop bs off spins ws = Some (err, off', ws') \<Longrightarrow> write_loop bs off spins (ws @ vs) = Some (err, off', ws' @ vs)"
proof (induction bs off spins ws rule: write_loop.induct)
  case (1 bs off spins ws)
  note unfolded = "1.prems" [unfolded write_loop.simps [of bs off spins ws]]
  show ?case
    using unfolded "1.IH"
    by (auto simp: write_loop.simps [of bs off spins "ws @ vs"] write_loop.simps [of bs off spins vs]
        split: list.splits if_splits)
qed

lemma write_all_ext:
  "write_all fd bs s = Some (err, s') \<Longrightarrow> write_all fd bs (feed as cs rs ws s) = Some (err, feed as cs rs ws s')"
  by (cases "write_loop bs 0 0 (k_write s)") (auto simp: write_all_def write_loop_ext feed_def)

lemma read_loop_ext:
  "read_loop fd s = Some (close, s') \<Longrightarrow> read_loop fd (feed as cs rs ws s) = Some (close, feed as cs rs ws s')"
proof (induction "k_read s" arbitrary: s)
  case Nil
  then show ?case by (simp add: read_loop.simps [of fd s])
next
  case (Cons r rest)
  note k = Cons.hyps(2) [symmetric]
  show ?case
  proof (cases "\<exists>bs. r = Read_Bytes bs \<and> bs \<noteq> []")
    case True
    then obtain bs where bs: "r = Read_Bytes bs" "bs \<noteq> []" by blast
    define s1 where "s1 = s\<lparr>k_read := rest, io_conns := (case io_conns s fd of
      Some state \<Rightarrow> (io_conns s)(fd \<mapsto> state\<lparr>buf := buf state @ bs\<rparr>) | None \<Rightarrow> io_conns s)\<rparr>"
    have "read_loop fd s = read_loop fd s1"
      using k bs by (simp add: read_loop.simps [of fd s] s1_def)
    moreover have "read_loop fd (feed as cs rs ws s) = read_loop fd (feed as cs rs ws s1)"
      unfolding read_loop.simps [of fd "feed as cs rs ws s"]
      using k bs by (cases "io_conns s fd") (auto simp: s1_def feed_def intro!: arg_cong [where f = "read_loop fd"])
    ultimately show ?thesis using Cons.hyps(1) [of s1] Cons.prems by (simp add: s1_def)
  next
    case False
    then have s': "s' = s\<lparr>k_read := rest\<rparr>"
      and c: "close = (case r of Read_Bytes bs \<Rightarrow> True | Read_Failed err \<Rightarrow> \<not> (err = EAGAIN \<or> err = EWOULDBLOCK))"
      using Cons.prems k by (auto simp: read_loop.simps [of fd s] split: read_result.splits)
    show ?thesis
      using False k unfolding s' c read_loop.simps [of fd "feed as cs rs ws s"]
      by (cases r) (simp_all add: feed_def)
  qed
qed

lemma serve_loop_ext:
  "serve_loop worker_id fd s = Some (close, s') \<Longrightarrow>
    serve_loop worker_id fd (feed as cs rs ws s) = Some (close, feed as cs rs ws s')"
proof (induction "case io_conns s fd of None \<Rightarrow> 0 | Some state \<Rightarrow> length (buf state)" arbitrary: s rule: less_induct)
  case less
  show ?case
  proof (cases "\<exists>state. io_conns s fd = Some state \<and> \<not> length (buf state) < REQUEST_HEADER_LEN")
    case False
    then show ?thesis
      using less.prems serve_loop_idle [of s fd worker_id] serve_loop_idle [of "feed as cs rs ws s" fd worker_id] by auto
  next
    case True
    then obtain state where st: "io_conns s fd = Some state" "\<not> length (buf state) < REQUEST_HEADER_LEN" by blast
    then have st': "io_conns (feed as cs rs ws s) fd = Some state" by simp
    have th: "take_header fd state (feed as cs rs ws s) = feed as cs rs ws (take_header fd state s)"
      by (simp add: take_header_def feed_def)
    show ?thesis
    proof (cases "decode_request (take REQUEST_HEADER_LEN (buf state))")
      case None
      then show ?thesis using less.prems th serve_loop_bad [OF st] serve_loop_bad [OF st' st(2)] by auto
    next
      case (Some r)
      obtain seq service_us send_ns where r: "r = (seq, service_us, send_ns)" by (cases r) auto
      let ?resp = "encode_response seq (of_nat worker_id) send_ns (replicate RESPONSE_LEN 0)"
      let ?s = "(take_header fd state s)\<lparr>io_log := io_log s @ [Sleep (from_micros (ucast service_us))]\<rparr>"
      have ext: "(take_header fd state (feed as cs rs ws s))\<lparr>io_log := io_log (feed as cs rs ws s) @
          [Sleep (from_micros (ucast service_us))]\<rparr> = feed as cs rs ws ?s"
        by (simp add: take_header_def feed_def)
      from less.prems obtain err s1 where w: "write_all fd ?resp ?s = Some (err, s1)"
        and k: "if err = None then serve_loop worker_id fd s1 = Some (close, s') else s1 = s' \<and> close"
        using serve_loop_good [OF st Some [unfolded r]] by (auto split: option.splits if_splits)
      note f = write_all_frame [OF w]
      have "(case io_conns s1 fd of None \<Rightarrow> 0 | Some state \<Rightarrow> length (buf state)) < length (buf state)"
        using f st by (simp add: REQUEST_HEADER_LEN_def)
      then have "err = None \<Longrightarrow> serve_loop worker_id fd (feed as cs rs ws s1) = Some (close, feed as cs rs ws s')"
        using k st less.hyps [of s1] by simp
      then show ?thesis
        using k write_all_ext [OF w, of as cs rs ws] serve_loop_good [OF st' st(2) Some [unfolded r]] unfolding ext
        by (auto split: if_splits)
    qed
  qed
qed

lemma handle_conn_event_ext:
  assumes "handle_conn_event i fd ev_mask s = Some s'"
  shows "handle_conn_event i fd ev_mask (feed as cs rs ws s) = Some (feed as cs rs ws s')"
proof -
  let ?e = "feed as cs rs ws"
  let ?c0 = "ev_mask AND (EPOLLHUP OR EPOLLERR) \<noteq> 0"
  obtain close s1 where r: "(if \<not> ?c0 then read_loop fd s else Some (?c0, s)) = Some (close, s1)"
    using assms(1) by (auto simp: handle_conn_event_def Let_def bind_eq_Some_conv)
  obtain close' s2 where v: "(if \<not> close then serve_loop i fd s1 else Some (close, s1)) = Some (close', s2)"
    and s': "s' = (if close' then close_conn fd s2 else s2)"
    using assms(1) r by (auto simp: handle_conn_event_def Let_def bind_eq_Some_conv)
  have "(if \<not> ?c0 then read_loop fd (?e s) else Some (?c0, ?e s)) = Some (close, ?e s1)"
    using r read_loop_ext [of fd s close s1] by (simp split: if_splits)
  moreover have "(if \<not> close then serve_loop i fd (?e s1) else Some (close, ?e s1)) = Some (close', ?e s2)"
    using v serve_loop_ext [of i fd s1 close' s2] by (simp split: if_splits)
  moreover have "close_conn fd (?e s2) = ?e (close_conn fd s2)"
    by (simp add: close_conn_def feed_def)
  ultimately show ?thesis by (simp add: handle_conn_event_def Let_def s')
qed

section \<open>Routines end whatever the kernel answers\<close>

text \<open>A response costs at most one \<open>write\<close> per byte, the retries and the last failure.\<close>

definition WRITES_PER_RESPONSE :: nat where
  "WRITES_PER_RESPONSE = RESPONSE_LEN + 1001"

lemma write_loop_answers:
  assumes "spins \<le> 1000"
  shows "\<exists>n err off'. n \<le> length bs - off + (1000 - spins) + 1 \<and>
    write_loop bs off spins (map answers [0..<n]) = Some (err, off', [])"
  using assms
proof (induction "length bs - off + (1000 - spins)" arbitrary: off spins answers rule: less_induct)
  case less
  show ?case
  proof (cases "off < length bs")
    case False
    then show ?thesis by (intro exI [of _ 0]) (simp add: write_loop.simps [of bs off spins])
  next
    case True
    obtain ret err where a: "answers 0 = (ret, err)" by fastforce
    have first: "map answers [0..<Suc n] = (ret, err) # map (answers \<circ> Suc) [0..<n]" for n
      by (simp add: a upt_conv_Cons map_Suc_upt [symmetric] del: upt_Suc)
    show ?thesis
    proof (cases "0 < ret")
      case pos: True
      then have m: "length bs - (off + nat ret) + (1000 - spins) < length bs - off + (1000 - spins)" using True by simp
      obtain n err' off' where "n \<le> length bs - (off + nat ret) + (1000 - spins) + 1"
        "write_loop bs (off + nat ret) spins (map (answers \<circ> Suc) [0..<n]) = Some (err', off', [])"
        using less.hyps [OF m less.prems] by blast
      then show ?thesis using True pos m
        by (intro exI [of _ "Suc n"], intro exI [of _ err'] exI [of _ off'])
          (simp add: first write_loop.simps [of bs off spins] del: upt_Suc)
    next
      case nonpos: False
      show ?thesis
      proof (cases "err = EAGAIN \<and> spins < 1000")
        case again: True
        then have m: "length bs - off + (1000 - (spins + 1)) < length bs - off + (1000 - spins)" by linarith
        obtain n err' off' where "n \<le> length bs - off + (1000 - (spins + 1)) + 1"
          "write_loop bs off (spins + 1) (map (answers \<circ> Suc) [0..<n]) = Some (err', off', [])"
          using less.hyps [OF m] again by (metis Suc_eq_plus1 Suc_leI)
        then show ?thesis using True nonpos again m
          by (intro exI [of _ "Suc n"], intro exI [of _ err'] exI [of _ off'])
            (simp add: first write_loop.simps [of bs off spins] del: upt_Suc)
      next
        case False
        then show ?thesis using True nonpos
          by (intro exI [of _ "Suc 0"], intro exI [of _ "Some err"] exI [of _ off])
            (auto simp: a first write_loop.simps [of bs off spins] del: upt_Suc)
      qed
    qed
  qed
qed

lemma write_all_answers:
  assumes "length bs = RESPONSE_LEN"
  shows "\<exists>n err s'. n \<le> WRITES_PER_RESPONSE \<and> write_all fd bs (s\<lparr>k_write := map answers [0..<n]\<rparr>) = Some (err, s') \<and> k_write s' = []"
proof -
  obtain n err off' where "n \<le> length bs - 0 + (1000 - 0) + 1" "write_loop bs 0 0 (map answers [0..<n]) = Some (err, off', [])"
    using write_loop_answers [of 0 bs 0 answers] by blast
  then show ?thesis using assms by (intro exI [of _ n]) (simp add: write_all_def WRITES_PER_RESPONSE_def)
qed

lemma answers_append: "map answers [0..<m] @ map (\<lambda>k. answers (m + k)) [0..<n] = map answers [0..<m + n]"
proof -
  have "map (\<lambda>k. answers (m + k)) [0..<n] = map answers [m..<m + n]"
    by (rule nth_equalityI) simp_all
  moreover have "[0..<m + n] = [0..<m] @ [m..<m + n]" by (rule upt_add_eq_append) simp
  ultimately show ?thesis by (simp only: map_append)
qed

lemma feed_writes: "feed [] [] [] ws s = s\<lparr>k_write := k_write s @ ws\<rparr>"
  by (simp add: feed_def)

lemma serve_loop_answers:
  assumes "io_conns s fd = Some state"
  shows "\<exists>n close s'. n \<le> WRITES_PER_RESPONSE * (length (buf state) div REQUEST_HEADER_LEN) \<and>
    serve_loop worker_id fd (s\<lparr>k_write := map answers [0..<n]\<rparr>) = Some (close, s') \<and> k_write s' = [] \<and> k_read s' = k_read s"
  using assms
proof (induction "length (buf state)" arbitrary: s state answers rule: less_induct)
  case less
  show ?case
  proof (cases "length (buf state) < REQUEST_HEADER_LEN")
    case True
    then show ?thesis using less.prems serve_loop_idle [of "s\<lparr>k_write := []\<rparr>" fd worker_id] by (intro exI [of _ 0] exI [of _ False]) simp
  next
    case False
    let ?s = "s\<lparr>k_write := []\<rparr>"
    have st: "io_conns ?s fd = Some state" using less.prems by simp
    have d: "length (buf state) div REQUEST_HEADER_LEN = Suc ((length (buf state) - REQUEST_HEADER_LEN) div REQUEST_HEADER_LEN)"
      using False by (simp add: le_div_geq)
    show ?thesis
    proof (cases "decode_request (take REQUEST_HEADER_LEN (buf state))")
      case None
      then show ?thesis using serve_loop_bad [OF st False None] by (intro exI [of _ 0] exI [of _ True]) (simp add: take_header_def)
    next
      case (Some r)
      obtain seq service_us send_ns where r: "r = (seq, service_us, send_ns)" by (cases r) auto
      let ?resp = "encode_response seq (of_nat worker_id) send_ns (replicate RESPONSE_LEN 0)"
      let ?w = "(take_header fd state s)\<lparr>io_log := io_log s @ [Sleep (from_micros (ucast service_us))]\<rparr>"
      obtain m err s1 where m: "m \<le> WRITES_PER_RESPONSE"
        and w: "write_all fd ?resp (?w\<lparr>k_write := map answers [0..<m]\<rparr>) = Some (err, s1)" and k: "k_write s1 = []"
        using write_all_answers [OF encode_response_length] by blast
      note f = write_all_frame [OF w]
      have th: "(take_header fd state (s\<lparr>k_write := ws\<rparr>))\<lparr>io_log := io_log (s\<lparr>k_write := ws\<rparr>) @ xs\<rparr> =
          ((take_header fd state s)\<lparr>io_log := io_log s @ xs\<rparr>)\<lparr>k_write := ws\<rparr>" for ws xs
        by (simp add: take_header_def)
      have go: "serve_loop worker_id fd (s\<lparr>k_write := ws\<rparr>) =
          (case write_all fd ?resp (?w\<lparr>k_write := ws\<rparr>) of None \<Rightarrow> None
           | Some (err, s') \<Rightarrow> if err = None then serve_loop worker_id fd s' else Some (True, s'))" for ws
        using serve_loop_good [of "s\<lparr>k_write := ws\<rparr>" fd state seq service_us send_ns worker_id] less.prems False Some
        unfolding th by (simp add: r)
      show ?thesis
      proof (cases "err = None")
        case True
        have c: "io_conns s1 fd = Some (state\<lparr>buf := drop REQUEST_HEADER_LEN (buf state)\<rparr>)" using f by simp
        have "length (buf (state\<lparr>buf := drop REQUEST_HEADER_LEN (buf state)\<rparr>)) < length (buf state)"
          using False by (simp add: REQUEST_HEADER_LEN_def)
        from less.hyps [OF this c, of "\<lambda>k. answers (m + k)"] obtain n close s2
          where n: "n \<le> WRITES_PER_RESPONSE * ((length (buf state) - REQUEST_HEADER_LEN) div REQUEST_HEADER_LEN)"
          and v: "serve_loop worker_id fd (s1\<lparr>k_write := map (\<lambda>k. answers (m + k)) [0..<n]\<rparr>) = Some (close, s2)"
          and s2: "k_write s2 = []" "k_read s2 = k_read s1" by auto
        have "write_all fd ?resp (?w\<lparr>k_write := map answers [0..<m + n]\<rparr>) =
            Some (err, s1\<lparr>k_write := map (\<lambda>k. answers (m + k)) [0..<n]\<rparr>)"
          using write_all_ext [OF w, of "[]" "[]" "[]" "map (\<lambda>k. answers (m + k)) [0..<n]"] k
          by (simp add: feed_writes answers_append)
        then have "serve_loop worker_id fd (s\<lparr>k_write := map answers [0..<m + n]\<rparr>) = Some (close, s2)"
          using go [of "map answers [0..<m + n]"] True v by simp
        then show ?thesis using m n s2 f d by (intro exI [of _ "m + n"]) (simp add: take_header_def)
      next
        case False
        then obtain e where "err = Some e" by blast
        then have "serve_loop worker_id fd (s\<lparr>k_write := map answers [0..<m]\<rparr>) = Some (True, s1)"
          using go [of "map answers [0..<m]"] w by simp
        then show ?thesis using m k f d by (intro exI [of _ m], intro exI [of _ True]) (simp add: take_header_def)
      qed
    qed
  qed
qed

text \<open>
  An event on a connection, whatever chunks the reads yield before one of them ends the reading, and
  whatever the writes return.
\<close>

definition reads_of :: "u32 \<Rightarrow> u8 list list \<Rightarrow> read_result \<Rightarrow> read_result list" where
  "reads_of ev_mask chunks stop =
     (if ev_mask AND (EPOLLHUP OR EPOLLERR) \<noteq> 0 then [] else map Read_Bytes chunks @ [stop])"

lemma handle_conn_event_answers:
  assumes "io_conns s fd = Some state" and "[] \<notin> set chunks" and "read_ends stop \<noteq> None"
  shows "\<exists>n s'. n \<le> WRITES_PER_RESPONSE * (length (buf state @ concat chunks) div REQUEST_HEADER_LEN) \<and>
    handle_conn_event i fd ev_mask (s\<lparr>k_read := reads_of ev_mask chunks stop, k_write := map answers [0..<n]\<rparr>) = Some s' \<and>
    k_read s' = [] \<and> k_write s' = []"
proof (cases "ev_mask AND (EPOLLHUP OR EPOLLERR) = 0")
  case False
  then show ?thesis by (intro exI [of _ 0]) (simp add: handle_conn_event_def reads_of_def close_conn_def)
next
  case True
  obtain close where close: "read_ends stop = Some close" using assms(3) by blast
  let ?c = "(io_conns s)(fd \<mapsto> state\<lparr>buf := buf state @ concat chunks\<rparr>)"
  have r: "read_loop fd (s\<lparr>k_read := reads_of ev_mask chunks stop, k_write := ws\<rparr>) =
      Some (close, (s\<lparr>k_read := [], io_conns := ?c\<rparr>)\<lparr>k_write := ws\<rparr>)" for ws
    using read_loop_chunks [of "s\<lparr>k_read := reads_of ev_mask chunks stop, k_write := ws\<rparr>" fd state chunks stop "[]"]
      assms(1,2) close True by (simp add: reads_of_def)
  show ?thesis
  proof (cases close)
    case True
    then show ?thesis using r \<open>ev_mask AND (EPOLLHUP OR EPOLLERR) = 0\<close>
      by (intro exI [of _ 0]) (simp add: handle_conn_event_def close_conn_def)
  next
    case False
    obtain n close' s' where "n \<le> WRITES_PER_RESPONSE * (length (buf (state\<lparr>buf := buf state @ concat chunks\<rparr>)) div REQUEST_HEADER_LEN)"
      "serve_loop i fd ((s\<lparr>k_read := [], io_conns := ?c\<rparr>)\<lparr>k_write := map answers [0..<n]\<rparr>) = Some (close', s')"
      "k_write s' = []" "k_read s' = []"
      using serve_loop_answers [of "s\<lparr>k_read := [], io_conns := ?c\<rparr>" fd "state\<lparr>buf := buf state @ concat chunks\<rparr>" i answers]
      by auto
    then show ?thesis using r False True
      by (intro exI [of _ n]) (auto simp: handle_conn_event_def close_conn_def)
  qed
qed

end
