(* ===== verification/Cluster_Progress.thy ===== *)
theory Cluster_Progress
  imports Cluster_Safety Worker_Scripts
begin

text \<open>
  A worker's turn ends: whatever the kernel answers, a running worker makes the step that answer
  asks for, whatever the others have done or stopped doing; the one wait in a turn ends with its
  timeout; and the number of its own steps in one turn is bounded by a constant and the connections
  it accepts, where the calls inside a connection's handler are bounded by what it reads.
\<close>

section \<open>The steps a worker has left in its turn\<close>

fun steps_left :: "phase \<Rightarrow> nat" where
  "steps_left At_Top = 500"
| "steps_left At_Stamp = 403"
| "steps_left (Stamping t) = 402"
| "steps_left At_Hang = 401"
| "steps_left At_Wait = 400"
| "steps_left (Waiting t) = 399"
| "steps_left (Counting evs) = 61 + 4 * length evs"
| "steps_left (Handling evs) = 60 + 4 * length evs"
| "steps_left (Accepting evs) = 62 + 4 * length evs"
| "steps_left (Registering fd evs) = 63 + 4 * length evs"
| "steps_left (Finishing evs) = 61 + 4 * length evs"
| "steps_left At_Schedule = 50"
| "steps_left (Reading t vs) = 30 + (SNAPSHOT_LOADS - length vs)"
| "steps_left (At_Tick res) = 20"
| "steps_left (Ticking res t vs) = 1 + (SNAPSHOT_LOADS - length vs)"
| "steps_left Flushing = 1"
| "steps_left Exited = 0"
| "steps_left (Failed err) = 0"

fun is_final :: "phase \<Rightarrow> bool" where
  "is_final Exited = True"
| "is_final (Failed err) = True"
| "is_final _ = False"

fun is_registering :: "phase \<Rightarrow> bool" where
  "is_registering (Registering fd evs) = True"
| "is_registering _ = False"

lemma SNAPSHOT_LOADS_value: "SNAPSHOT_LOADS = 12"
  by (simp add: SNAPSHOT_LOADS_def NUM_WORKERS_def)

lemma step_decreases:
  assumes "worker_step i listen_fd p now (m, pr) (m', pr')" and "pr_phase pr' \<noteq> At_Top"
    and "\<not> (is_registering (pr_phase pr') \<and> pr_phase pr' \<noteq> pr_phase pr)"
  shows "steps_left (pr_phase pr') < steps_left (pr_phase pr)"
  using assms by (cases rule: worker_step_cases) (auto simp: MAX_EVENTS_def SNAPSHOT_LOADS_value)

lemma accept_costs_one:
  assumes "worker_step i listen_fd p now (m, pr) (m', pr')" and "is_registering (pr_phase pr')"
  shows "steps_left (pr_phase pr') = Suc (steps_left (pr_phase pr))"
  using assms by (cases rule: worker_step_cases) (auto split: if_splits)

section \<open>A worker obeys every answer of the kernel\<close>

text \<open>
  The answers to the calls a worker may make next: what the shutdown flag and the clocks show, the
  result of \<open>epoll_wait\<close>, \<open>accept4\<close> and \<open>epoll_ctl\<close>, the chunks a connection has to read, what ends
  the reading, and what its writes return, one after the other, and whether a write of \<open>M_Sel\<close>, a
  row or the last flush fails.
\<close>

record answers =
  an_shutdown :: bool
  an_elapsed :: duration
  an_wait :: "int \<times> errno"
  an_events :: "(u64 \<times> u32) list"
  an_accept :: fd
  an_add :: int
  an_chunks :: "u8 list list"
  an_stop :: read_result
  an_write :: "nat \<Rightarrow> int \<times> errno"
  an_set_failed :: bool
  an_error :: "errno option"

text \<open>The kernel's promises, as in \<open>worker_step\<close>; of the time nothing is said here.\<close>

definition answers_ok :: "fd \<Rightarrow> fd set \<Rightarrow> answers \<Rightarrow> bool" where
  "answers_ok listen_fd conns an \<longleftrightarrow>
     (case epoll_wait (an_wait an) of
        Inl err \<Rightarrow> True
      | Inr n \<Rightarrow> n = length (an_events an) \<and> n \<le> MAX_EVENTS \<and> distinct (map (event_fd \<circ> fst) (an_events an)) \<and>
          (event_fd \<circ> fst) ` set (an_events an) \<subseteq> insert listen_fd conns) \<and>
     (an_accept an < 0 \<or> an_accept an < 2 ^ 31 \<and> an_accept an \<notin> conns) \<and>
     [] \<notin> set (an_chunks an) \<and> read_ends (an_stop an) \<noteq> None"

text \<open>Where the answers send a worker.\<close>

fun next_phase :: "fd \<Rightarrow> policy \<Rightarrow> answers \<Rightarrow> i64 \<Rightarrow> memory \<Rightarrow> proc \<Rightarrow> phase \<Rightarrow> phase" where
  "next_phase listen_fd p an now m pr At_Top = (if an_shutdown an then Flushing else At_Stamp)"
| "next_phase listen_fd p an now m pr At_Stamp = Stamping now"
| "next_phase listen_fd p an now m pr (Stamping t) = At_Hang"
| "next_phase listen_fd p an now m pr At_Hang =
     (case pr_hang pr of Some h \<Rightarrow> if hang_at h \<le> an_elapsed an then At_Top else At_Wait | None \<Rightarrow> At_Wait)"
| "next_phase listen_fd p an now m pr At_Wait = Waiting now"
| "next_phase listen_fd p an now m pr (Waiting t0) =
     (case epoll_wait (an_wait an) of Inl err \<Rightarrow> Failed err | Inr n \<Rightarrow> Counting (an_events an))"
| "next_phase listen_fd p an now m pr (Counting evs) = Handling evs"
| "next_phase listen_fd p an now m pr (Handling []) = (if runs_scheduler p then At_Schedule else At_Tick None)"
| "next_phase listen_fd p an now m pr (Handling (ev # evs)) =
     (if event_fd (fst ev) = listen_fd then Accepting evs else Finishing evs)"
| "next_phase listen_fd p an now m pr (Accepting evs) =
     (if an_accept an < 0 then Finishing evs else Registering (an_accept an) evs)"
| "next_phase listen_fd p an now m pr (Registering fd evs) = Accepting evs"
| "next_phase listen_fd p an now m pr (Finishing evs) = Handling evs"
| "next_phase listen_fd p an now m pr At_Schedule = Reading now []"
| "next_phase listen_fd p an now m pr (Reading t vs) =
     (if length vs < SNAPSHOT_LOADS then Reading t (vs @ [load_nth (mem_wst m) (length vs)])
      else At_Tick (Some (schedule_from_snapshots (assemble vs) t HANG_THRESHOLD_NS)))"
| "next_phase listen_fd p an now m pr (At_Tick res) = Ticking res now []"
| "next_phase listen_fd p an now m pr (Ticking res t vs) =
     (if length vs < SNAPSHOT_LOADS then Ticking res t (vs @ [load_nth (mem_wst m) (length vs)])
      else case an_error an of Some err \<Rightarrow> Failed err | None \<Rightarrow> At_Top)"
| "next_phase listen_fd p an now m pr Flushing = (case an_error an of Some err \<Rightarrow> Failed err | None \<Rightarrow> Exited)"
| "next_phase listen_fd p an now m pr ph = ph"

text \<open>
  A step obeys the answers if it goes there and, where its effect depends on them, has that effect: the
  handler of a connection has read the chunks and what ended the reading, and made at most so many
  writes, with these results; a connection is kept if it could be registered; \<open>M_Sel\<close> is written or a
  warning logged.
\<close>

definition obeys :: "nat \<Rightarrow> fd \<Rightarrow> policy \<Rightarrow> answers \<Rightarrow> i64 \<Rightarrow> memory \<times> proc \<Rightarrow> memory \<times> proc \<Rightarrow> bool" where
  "obeys i listen_fd p an now s s' \<longleftrightarrow>
     (let (m, pr) = s; (m', pr') = s'
      in pr_phase pr' = next_phase listen_fd p an now m pr (pr_phase pr) \<and>
        (\<forall>ev evs. pr_phase pr = Handling (ev # evs) \<and> event_fd (fst ev) \<noteq> listen_fd \<longrightarrow>
          (\<exists>n state. io_conns (pr_io pr) (event_fd (fst ev)) = Some state \<and>
            n \<le> WRITES_PER_RESPONSE * (length (buf state @ concat (an_chunks an)) div REQUEST_HEADER_LEN) \<and>
            handle_conn_event i (event_fd (fst ev)) (snd ev) ((pr_io pr)\<lparr>io_slot := slots (mem_wst m) ! i,
              k_read := reads_of (snd ev) (an_chunks an) (an_stop an), k_write := map (an_write an) [0..<n]\<rparr>) =
              Some (pr_io pr'))) \<and>
        (\<forall>fd evs. pr_phase pr = Registering fd evs \<longrightarrow> (fd \<in> conns_of pr' \<longleftrightarrow> an_add an = 0)) \<and>
        (\<forall>t vs. pr_phase pr = Reading t vs \<and> length vs = SNAPSHOT_LOADS \<longrightarrow>
          pr_warnings pr' = pr_warnings pr + (if an_set_failed an then 1 else 0)))"

text \<open>Only a call of \<open>epoll_wait\<close> may have to wait for its answer, and that not longer than 5 milliseconds.\<close>

fun may_answer :: "answers \<Rightarrow> i64 \<Rightarrow> phase \<Rightarrow> bool" where
  "may_answer an now (Waiting t0) = (fst (an_wait an) = 0 \<longrightarrow> sint t0 + 5000000 \<le> sint now)"
| "may_answer an now ph = True"

lemma worker_obeys:
  assumes inv: "worker_inv i listen_fd p now m pr" and an: "answers_ok listen_fd (conns_of pr) an"
    and may: "may_answer an now (pr_phase pr)" and running: "\<not> is_final (pr_phase pr)"
  shows "\<exists>m' pr'. worker_step i listen_fd p now (m, pr) (m', pr') \<and> obeys i listen_fd p an now (m, pr) (m', pr')"
proof (cases "pr_phase pr")
  case At_Top
  then show ?thesis using worker_step.shutdown [OF At_Top] worker_step.enter [OF At_Top]
    by (cases "an_shutdown an") (fastforce simp: obeys_def)+
next
  case At_Hang
  show ?thesis
  proof (cases "\<exists>h. pr_hang pr = Some h \<and> hang_at h \<le> an_elapsed an")
    case True
    then obtain h where h: "pr_hang pr = Some h" "hang_at h \<le> an_elapsed an" by blast
    from worker_step.hang [OF At_Hang this] show ?thesis using h At_Hang by (fastforce simp: obeys_def)
  next
    case False
    then have "case pr_hang pr of Some h \<Rightarrow> \<not> hang_at h \<le> an_elapsed an | None \<Rightarrow> True" by (auto split: option.split)
    from worker_step.no_hang [OF At_Hang this] show ?thesis
      using False At_Hang by (fastforce simp: obeys_def split: option.split)
  qed
next
  case (Waiting t0)
  show ?thesis
  proof (cases "epoll_wait (an_wait an)")
    case (Inl err)
    from worker_step.wait_failed [OF Waiting this] show ?thesis using Waiting Inl by (fastforce simp: obeys_def)
  next
    case (Inr n)
    moreover have "fst (an_wait an) = 0 \<longrightarrow> timed_out t0 now"
      using may Waiting by (simp add: timed_out_def EPOLL_TIMEOUT_MS_def)
    ultimately have "worker_step i listen_fd p now (m, pr) (m, goto (Counting (an_events an)) pr)"
      using an by (intro worker_step.waited [OF Waiting, of "an_wait an"]) (simp_all add: answers_ok_def)
    then show ?thesis using Waiting Inr by (fastforce simp: obeys_def)
  qed
next
  case (Handling evs)
  show ?thesis
  proof (cases evs)
    case Nil
    then show ?thesis using worker_step.handled [OF Handling [unfolded Nil]] Handling by (fastforce simp: obeys_def)
  next
    case (Cons ev evs')
    note ph = Handling [unfolded Cons]
    show ?thesis
    proof (cases "event_fd (fst ev) = listen_fd")
      case True
      then show ?thesis using worker_step.accept_event [OF ph] ph by (fastforce simp: obeys_def)
    next
      case False
      let ?s = "(pr_io pr)\<lparr>io_slot := slots (mem_wst m) ! i\<rparr>"
      have "event_fd (fst ev) \<in> conns_of pr"
        using events_head_conn [OF _ ph False] inv by (simp add: worker_inv_def)
      then obtain state where st: "io_conns ?s (event_fd (fst ev)) = Some state" by auto
      obtain n io' where n: "n \<le> WRITES_PER_RESPONSE * (length (buf state @ concat (an_chunks an)) div REQUEST_HEADER_LEN)"
        and h: "handle_conn_event i (event_fd (fst ev)) (snd ev)
          (?s\<lparr>k_read := reads_of (snd ev) (an_chunks an) (an_stop an), k_write := map (an_write an) [0..<n]\<rparr>) = Some io'"
        and k: "k_read io' = []" "k_write io' = []"
        using handle_conn_event_answers [OF st, of "an_chunks an" "an_stop an" i "snd ev" "an_write an"] an
        by (auto simp: answers_ok_def)
      from worker_step.conn_event [OF ph False _ k] h
      have "worker_step i listen_fd p now (m, pr) (mem_slot i (\<lambda>_. io_slot io') m, goto (Finishing evs') (pr\<lparr>pr_io := io'\<rparr>))"
        by simp
      moreover have "obeys i listen_fd p an now (m, pr) (mem_slot i (\<lambda>_. io_slot io') m, goto (Finishing evs') (pr\<lparr>pr_io := io'\<rparr>))"
        using ph False st n h by (auto simp: obeys_def)
      ultimately show ?thesis by blast
    qed
  qed
next
  case (Accepting evs)
  show ?thesis
  proof (cases "an_accept an < 0")
    case True
    from worker_step.accept_none [OF Accepting this] show ?thesis using True Accepting by (fastforce simp: obeys_def)
  next
    case False
    then have "worker_step i listen_fd p now (m, pr) (mem_slot i (add_conns 1) m, goto (Registering (an_accept an) evs) pr)"
      using an by (intro worker_step.accepted [OF Accepting]) (auto simp: answers_ok_def)
    then show ?thesis using False Accepting by (fastforce simp: obeys_def)
  qed
next
  case (Registering fd evs)
  then have new: "fd \<notin> conns_of pr" using inv by (simp add: worker_inv_def fds_ok_def)
  show ?thesis
  proof (cases "an_add an = 0")
    case True
    from worker_step.registered [OF Registering] show ?thesis using True Registering
      by (intro exI conjI) (assumption, simp add: obeys_def)
  next
    case False
    from worker_step.register_failed [OF Registering this] show ?thesis using False Registering new
      by (intro exI conjI) (assumption, auto simp: obeys_def)
  qed
next
  case (Reading t vs)
  show ?thesis
  proof (cases "length vs < SNAPSHOT_LOADS")
    case True
    from worker_step.schedule_load [OF Reading this] show ?thesis using True Reading by (fastforce simp: obeys_def)
  next
    case False
    then have l: "length vs = SNAPSHOT_LOADS" using inv Reading by (simp add: worker_inv_def loads_fine_def)
    show ?thesis
    proof (cases "an_set_failed an")
      case True
      from worker_step.publish_failed [OF Reading l refl] show ?thesis using True l Reading
        by (intro exI conjI) (assumption, simp add: obeys_def)
    next
      case False
      from worker_step.publish [OF Reading l refl] show ?thesis using False l Reading
        by (intro exI conjI) (assumption, simp add: obeys_def)
    qed
  qed
next
  case (Ticking res t vs)
  show ?thesis
  proof (cases "length vs < SNAPSHOT_LOADS")
    case True
    from worker_step.tick_load [OF Ticking this] show ?thesis using True Ticking by (fastforce simp: obeys_def)
  next
    case False
    then have l: "length vs = SNAPSHOT_LOADS" using inv Ticking by (simp add: worker_inv_def loads_fine_def)
    show ?thesis
    proof (cases "an_error an")
      case None
      from worker_step.tick_written [OF Ticking l] show ?thesis using None l Ticking
        by (intro exI conjI) (assumption, simp add: obeys_def)
    next
      case (Some err)
      from worker_step.tick_failed [OF Ticking l, where err = err] show ?thesis using Some l Ticking
        by (intro exI conjI) (assumption, simp add: obeys_def)
    qed
  qed
next
  case Flushing
  show ?thesis
  proof (cases "an_error an")
    case None
    from worker_step.flushed [OF Flushing] show ?thesis using None Flushing by (fastforce simp: obeys_def)
  next
    case (Some err)
    from worker_step.flush_failed [OF Flushing, where err = err] show ?thesis using Some Flushing by (fastforce simp: obeys_def)
  qed
qed (use running in \<open>(simp; fail) | (fastforce simp: obeys_def intro: worker_step.stamp_clock worker_step.stamp_store
  worker_step.wait worker_step.count worker_step.finish worker_step.schedule_clock worker_step.tick_clock)\<close>)+

section \<open>The steps of one turn\<close>

text \<open>
  The runs of the system from \<open>s0\<close> in which worker \<open>i\<close> makes \<open>n\<close> steps, none of which ends its turn, and
  \<open>a\<close> of which take a connection from \<open>accept4\<close>; \<open>q\<close> is what \<open>M_Sel\<close> held before and after the step
  that hands over the scheduler's result, once that is made.
\<close>

fun hands_over :: "phase \<Rightarrow> phase \<Rightarrow> bool" where
  "hands_over (Reading t vs) (At_Tick res) = True"
| "hands_over _ _ = False"

inductive turn_run :: "(nat \<Rightarrow> fd) \<Rightarrow> policy \<Rightarrow> nat \<Rightarrow> cluster \<Rightarrow> nat \<Rightarrow> nat \<Rightarrow> (u64 \<times> u64) option \<Rightarrow> cluster \<Rightarrow> bool"
  for lfds :: "nat \<Rightarrow> fd" and p :: policy and i :: nat and s0 :: cluster
where
  begin_turn: "turn_run lfds p i s0 0 0 None s0"
| own_step: "turn_run lfds p i s0 n a q s \<Longrightarrow>
    worker_step i (lfds i) p (cl_now s) (cl_mem s, cl_procs s ! i) (m', pr') \<Longrightarrow> pr_phase pr' \<noteq> At_Top \<Longrightarrow>
    turn_run lfds p i s0 (Suc n) (if is_registering (pr_phase pr') then Suc a else a)
      (if hands_over (pr_phase (cl_procs s ! i)) (pr_phase pr') then Some (mem_sel (cl_mem s), mem_sel m') else q)
      (s\<lparr>cl_mem := m', cl_procs := (cl_procs s)[i := pr']\<rparr>)"
| other_step: "turn_run lfds p i s0 n a q s \<Longrightarrow> j < NUM_WORKERS \<Longrightarrow> j \<noteq> i \<Longrightarrow>
    worker_step j (lfds j) p (cl_now s) (cl_mem s, cl_procs s ! j) (m', pr') \<Longrightarrow>
    turn_run lfds p i s0 n a q (s\<lparr>cl_mem := m', cl_procs := (cl_procs s)[j := pr']\<rparr>)"
| clock_step: "turn_run lfds p i s0 n a q s \<Longrightarrow> sint (cl_now s) \<le> sint t \<Longrightarrow> turn_run lfds p i s0 n a q (s\<lparr>cl_now := t\<rparr>)"

lemma turn_run_reachable:
  assumes "turn_run lfds p i s0 n a q s" and "cluster_reachable lfds p s0" and "i < NUM_WORKERS"
  shows "cluster_reachable lfds p s"
  using assms
  by (induction rule: turn_run.induct) (auto intro: cluster_reachable.step cluster_step.intros)

lemma cluster_procs_length: "cluster_reachable lfds p s \<Longrightarrow> length (cl_procs s) = NUM_WORKERS"
  by (auto dest: cluster_reachable_inv simp: cluster_inv_def)

lemma turn_run_bound:
  assumes "turn_run lfds p i s0 n a q s" and "cluster_reachable lfds p s0" and "i < NUM_WORKERS"
  shows "n + steps_left (pr_phase (cl_procs s ! i)) \<le> steps_left (pr_phase (cl_procs s0 ! i)) + 2 * a"
  using assms
proof (induction rule: turn_run.induct)
  case (own_step n a q s m' pr')
  have len: "length (cl_procs s) = NUM_WORKERS"
    using turn_run_reachable [OF own_step(1) own_step.prems] by (rule cluster_procs_length)
  show ?case
  proof (cases "is_registering (pr_phase pr')")
    case True
    then show ?thesis using own_step accept_costs_one [OF own_step(2) True] len by simp
  next
    case False
    then show ?thesis using own_step step_decreases [OF own_step(2,3)] len by simp
  qed
qed simp_all

lemma steps_left_le: "events_in_order listen_fd pr \<Longrightarrow> steps_left (pr_phase pr) \<le> 500"
  by (cases "pr_phase pr") (simp_all add: events_in_order_def MAX_EVENTS_def SNAPSHOT_LOADS_value)

text \<open>
  C16: A turn of a worker ends, whatever the kernel answers and whatever the other workers do or stop
  doing: in every reachable state a worker that has not ended makes, at once, the step that the
  answers to its next call ask for, whatever they are within the kernel's promises, except that
  \<open>epoll_wait\<close> may take 5 milliseconds to say that there is no event; and it makes at most 500 steps
  before its turn is over, and two more for every connection it accepts. The handling of a
  connection's event is one of these steps: it reads what the connection has, one \<open>read\<close> per chunk
  and one that finds no more, and makes at most 1017 calls of \<open>write\<close> per complete request among
  what was read. The sleeps, of an injected hang and of each request served, are inside their steps.
\<close>

theorem turns_are_wait_free:
  assumes "cluster_reachable lfds p s0" and "i < NUM_WORKERS" and "turn_run lfds p i s0 n a q s"
  shows "n \<le> 500 + 2 * a \<and>
    (is_final (pr_phase (cl_procs s ! i)) \<or>
     (\<forall>an. answers_ok (lfds i) (conns_of (cl_procs s ! i)) an \<and> may_answer an (cl_now s) (pr_phase (cl_procs s ! i)) \<longrightarrow>
       (\<exists>m' pr'. worker_step i (lfds i) p (cl_now s) (cl_mem s, cl_procs s ! i) (m', pr') \<and>
         obeys i (lfds i) p an (cl_now s) (cl_mem s, cl_procs s ! i) (m', pr')))) \<and>
    WRITES_PER_RESPONSE = 1017"
proof -
  have inv: "worker_inv i (lfds i) p (cl_now s') (cl_mem s') (cl_procs s' ! i)" if "cluster_reachable lfds p s'" for s'
    using cluster_reachable_inv [OF that] assms(2) by (simp add: cluster_inv_def)
  have "steps_left (pr_phase (cl_procs s0 ! i)) \<le> 500"
    using inv [OF assms(1)] by (intro steps_left_le [of "lfds i"]) (simp add: worker_inv_def)
  then show ?thesis
    using turn_run_bound [OF assms(3,1,2)] worker_obeys [OF inv [OF turn_run_reachable [OF assms(3,1,2)]]]
    by (auto simp: WRITES_PER_RESPONSE_def RESPONSE_LEN_def)
qed

text \<open>Worker 2, which has been waiting for 5 milliseconds, learns that nothing has happened.\<close>

definition no_event :: answers where
  "no_event = \<lparr>an_shutdown = False, an_elapsed = 0, an_wait = (0, 0), an_events = [], an_accept = - 1, an_add = 0,
     an_chunks = [], an_stop = Read_Failed EAGAIN, an_write = (\<lambda>n. (16, 0)), an_set_failed = False, an_error = None\<rparr>"

theorem turns_are_wait_free_witness:
  "\<exists>s m' pr'. cluster_reachable (\<lambda>_. 4) Hermes s \<and> pr_phase (cl_procs s ! 2) = Waiting 1000 \<and>
    worker_step 2 4 Hermes 5001000 (cl_mem s, cl_procs s ! 2) (m', pr') \<and> pr_phase pr' = Counting []"
proof -
  have i: "(2::nat) < NUM_WORKERS" by (simp add: NUM_WORKERS_def)
  obtain s where s: "cluster_reachable (\<lambda>_. 4) Hermes s" "cl_procs s ! 2 = goto (Waiting 1000) (fresh_proc None)" "cl_now s = 1000"
    using reaches_wait [of 1000 2 "\<lambda>_. 4" Hermes] i by (auto simp: reaches_def)
  let ?s = "s\<lparr>cl_now := 5001000\<rparr>"
  have "cluster_step (\<lambda>_. 4) Hermes s ?s" using s(3) by (intro cluster_step.clock) simp
  with s(1) have r: "cluster_reachable (\<lambda>_. 4) Hermes ?s" by (rule cluster_reachable.step)
  have "answers_ok 4 (conns_of (cl_procs ?s ! 2)) no_event" "may_answer no_event (cl_now ?s) (pr_phase (cl_procs ?s ! 2))"
    using s by (simp_all add: answers_ok_def no_event_def epoll_wait_def)
  then obtain m' pr' where "worker_step 2 4 Hermes (cl_now ?s) (cl_mem ?s, cl_procs ?s ! 2) (m', pr')"
    "obeys 2 4 Hermes no_event (cl_now ?s) (cl_mem ?s, cl_procs ?s ! 2) (m', pr')"
    using turns_are_wait_free [OF r i turn_run.begin_turn] s by auto
  then have "worker_step 2 4 Hermes 5001000 (cl_mem ?s, cl_procs ?s ! 2) (m', pr')" "pr_phase pr' = Counting []"
    using s by (simp_all add: obeys_def no_event_def epoll_wait_def)
  with r s show ?thesis by (intro exI [of _ ?s] exI [of _ m'] exI [of _ pr']) simp
qed

end
