(* ===== verification/Cluster_Turn.thy ===== *)
theory Cluster_Turn
  imports Cluster_Progress Worker_Scripts
begin

text \<open>
  The detailed system refines the event loop of \<open>Worker_Loop\<close>: what a worker does from one loop top to
  the next, interleaved in any way with the others, is one \<open>one_turn\<close>, whose parameters are what the
  worker met on the way. The scheduler's snapshot may mix values of different moments; it is the
  snapshot of a table that agrees with the real one on the worker's own slot.
\<close>

section \<open>Handling the events of a turn\<close>

text \<open>The result of handling events, and whether the kernel kept its promises meanwhile.\<close>

definition events_outcome :: "nat \<Rightarrow> fd \<Rightarrow> (u64 \<times> u32) list \<Rightarrow> io \<Rightarrow> io option \<times> bool" where
  "events_outcome i listen_fd evs s =
     (run_steps (handle_event i listen_fd) evs s, steps_ok (event_ok listen_fd) (handle_event i listen_fd) evs s)"

definition finish_outcome :: "nat \<Rightarrow> fd \<Rightarrow> (u64 \<times> u32) list \<Rightarrow> io \<Rightarrow> io option \<times> bool" where
  "finish_outcome i listen_fd evs s = events_outcome i listen_fd evs (s\<lparr>io_slot := sub_pending 1 (io_slot s)\<rparr>)"

definition accept_outcome :: "nat \<Rightarrow> fd \<Rightarrow> (u64 \<times> u32) list \<Rightarrow> io \<Rightarrow> io option \<times> bool" where
  "accept_outcome i listen_fd evs s =
     (case accept_all s of
        None \<Rightarrow> (None, fresh_accepts (dom (io_conns s)) (k_accept s) (k_ctl_add s))
      | Some s' \<Rightarrow>
          (let (r, ok) = finish_outcome i listen_fd evs s'
           in (r, fresh_accepts (dom (io_conns s)) (k_accept s) (k_ctl_add s) \<and> ok)))"

lemma outcome_nil: "events_outcome i listen_fd [] s = (Some s, True)"
  by (simp add: events_outcome_def)

lemma outcome_listener:
  "event_fd (fst ev) = listen_fd \<Longrightarrow> events_outcome i listen_fd (ev # evs) s = accept_outcome i listen_fd evs s"
  by (simp add: events_outcome_def accept_outcome_def finish_outcome_def handle_event_def event_ok_def Let_def
      split: option.splits)

lemma outcome_conn:
  assumes "event_fd (fst ev) \<noteq> listen_fd" and "event_fd (fst ev) \<in> dom (io_conns s)"
    and "handle_conn_event i (event_fd (fst ev)) (snd ev) s = Some s'"
  shows "events_outcome i listen_fd (ev # evs) s = finish_outcome i listen_fd evs s'"
  using assms by (simp add: events_outcome_def finish_outcome_def handle_event_def event_ok_def Let_def)

lemma outcome_accept_none:
  assumes "k_accept s = (fd, err) # as" and "fd < 0"
  shows "accept_outcome i listen_fd evs s = finish_outcome i listen_fd evs (s\<lparr>k_accept := as\<rparr>)"
  using assms by (simp add: accept_outcome_def accept_all_stops_at_any_error split: prod.splits)

lemma accept_outcome_cong:
  assumes "accept_all s = accept_all s'"
    and "fresh_accepts (dom (io_conns s)) (k_accept s) (k_ctl_add s) =
      fresh_accepts (dom (io_conns s')) (k_accept s') (k_ctl_add s')"
  shows "accept_outcome i listen_fd evs s = accept_outcome i listen_fd evs s'"
  unfolding accept_outcome_def assms ..

lemma outcome_register_failed:
  assumes "k_accept s = (fd, err) # as" and "k_ctl_add s = (ret, err') # cs" and "0 \<le> fd" and "ret \<noteq> 0"
    and "fd \<notin> dom (io_conns s)"
  shows "accept_outcome i listen_fd evs s = accept_outcome i listen_fd evs
    (s\<lparr>k_accept := as, k_ctl_add := cs, io_log := io_log s @ [Close fd], io_slot := sub_conns 1 (add_conns 1 (io_slot s))\<rparr>)"
proof (rule accept_outcome_cong)
  show "accept_all s = accept_all
    (s\<lparr>k_accept := as, k_ctl_add := cs, io_log := io_log s @ [Close fd], io_slot := sub_conns 1 (add_conns 1 (io_slot s))\<rparr>)"
    unfolding accept_all.simps [of s] using assms by (auto simp: Let_def intro!: arg_cong [where f = accept_all])
qed (use assms in simp)

lemma outcome_registered:
  assumes "k_accept s = (fd, err) # as" and "k_ctl_add s = (0, err') # cs" and "0 \<le> fd" and "fd \<notin> dom (io_conns s)"
  shows "accept_outcome i listen_fd evs s = accept_outcome i listen_fd evs
    (s\<lparr>k_accept := as, k_ctl_add := cs, io_conns := (io_conns s)(fd \<mapsto> \<lparr>buf = []\<rparr>), io_slot := add_conns 1 (io_slot s)\<rparr>)"
proof (rule accept_outcome_cong)
  show "accept_all s = accept_all
    (s\<lparr>k_accept := as, k_ctl_add := cs, io_conns := (io_conns s)(fd \<mapsto> \<lparr>buf = []\<rparr>), io_slot := add_conns 1 (io_slot s)\<rparr>)"
    unfolding accept_all.simps [of s] using assms by (auto simp: Let_def intro!: arg_cong [where f = accept_all])
qed (use assms in simp)

text \<open>
  With some results consumed, the outcome of all events is the outcome \<open>f\<close> of what is left to do, for
  whatever results come next.
\<close>

type_synonym continuation =
  "(int \<times> errno) list \<Rightarrow> (int \<times> errno) list \<Rightarrow> read_result list \<Rightarrow> (int \<times> errno) list \<Rightarrow> io option \<times> bool"

definition leads_to :: "nat \<Rightarrow> fd \<Rightarrow> (u64 \<times> u32) list \<Rightarrow> io \<Rightarrow> continuation \<Rightarrow> bool" where
  "leads_to i listen_fd evs s f \<longleftrightarrow>
     (\<exists>as cs rs ws. \<forall>as' cs' rs' ws'.
        events_outcome i listen_fd evs (feed (as @ as') (cs @ cs') (rs @ rs') (ws @ ws') s) = f as' cs' rs' ws')"

lemma leads_to_start: "leads_to i listen_fd evs s (\<lambda>as cs rs ws. events_outcome i listen_fd evs (feed as cs rs ws s))"
  unfolding leads_to_def by (intro exI [of _ "[]"]) simp

lemma leads_to_step:
  assumes "leads_to i listen_fd evs s f"
    and "\<And>as' cs' rs' ws'. f (as @ as') (cs @ cs') (rs @ rs') (ws @ ws') = g as' cs' rs' ws'"
  shows "leads_to i listen_fd evs s g"
proof -
  obtain as0 cs0 rs0 ws0 where "\<And>as' cs' rs' ws'.
      events_outcome i listen_fd evs (feed (as0 @ as') (cs0 @ cs') (rs0 @ rs') (ws0 @ ws') s) = f as' cs' rs' ws'"
    using assms(1) by (auto simp: leads_to_def)
  then have "events_outcome i listen_fd evs
      (feed ((as0 @ as) @ as') ((cs0 @ cs) @ cs') ((rs0 @ rs) @ rs') ((ws0 @ ws) @ ws') s) = g as' cs' rs' ws'" for as' cs' rs' ws'
    using assms(2) by simp
  then show ?thesis unfolding leads_to_def by blast
qed


section \<open>What a worker has done of its turn\<close>

definition quiet :: "io \<Rightarrow> bool" where
  "quiet s \<longleftrightarrow> k_accept s = [] \<and> k_ctl_add s = [] \<and> k_read s = [] \<and> k_write s = []"

definition cur_io :: "nat \<Rightarrow> memory \<Rightarrow> proc \<Rightarrow> io" where
  "cur_io i m pr = (pr_io pr)\<lparr>io_slot := slots (mem_wst m) ! i\<rparr>"

definition view :: "nat \<Rightarrow> memory \<Rightarrow> proc \<Rightarrow> loop_state" where
  "view i m pr = \<lparr>lp_wst = mem_wst m, lp_msel = mem_sel m, lp_io = pr_io pr, lp_hang = pr_hang pr,
     lp_iter = pr_iter pr, lp_ticks = pr_ticks pr\<rparr>"

definition no_hang :: "loop_state \<Rightarrow> duration \<Rightarrow> bool" where
  "no_hang lp elapsed \<longleftrightarrow> (case lp_hang lp of Some h \<Rightarrow> \<not> hang_at h \<le> elapsed | None \<Rightarrow> True)"

definition stamped :: "nat \<Rightarrow> loop_state \<Rightarrow> i64 \<Rightarrow> io" where
  "stamped i lp t = (lp_io lp)\<lparr>io_slot := store_loop_entry t (slots (lp_wst lp) ! i)\<rparr>"

definition counted :: "nat \<Rightarrow> loop_state \<Rightarrow> i64 \<Rightarrow> nat \<Rightarrow> io" where
  "counted i lp t n = (lp_io lp)\<lparr>io_slot := add_pending (of_nat n) (store_loop_entry t (slots (lp_wst lp) ! i))\<rparr>"

definition in_events :: "nat \<Rightarrow> fd \<Rightarrow> loop_state \<Rightarrow> continuation \<Rightarrow> bool" where
  "in_events i listen_fd lp f \<longleftrightarrow>
     (\<exists>t elapsed r evs. no_hang lp elapsed \<and> epoll_wait r = Inr (length evs) \<and>
        leads_to i listen_fd evs (counted i lp t (length evs)) f)"

definition scheduled :: "nat \<Rightarrow> policy \<Rightarrow> worker_slot \<Rightarrow> schedule_result option \<Rightarrow> bool" where
  "scheduled i p s res \<longleftrightarrow> (\<exists>w t. wst_ok w \<and> slots w ! i = s \<and>
     res = (if runs_scheduler p then Some (schedule w t HANG_THRESHOLD_NS) else None))"

fun so_far :: "nat \<Rightarrow> fd \<Rightarrow> policy \<Rightarrow> loop_state \<Rightarrow> io \<Rightarrow> phase \<Rightarrow> bool" where
  "so_far i listen_fd p lp s At_Top = (s = (lp_io lp)\<lparr>io_slot := slots (lp_wst lp) ! i\<rparr>)"
| "so_far i listen_fd p lp s At_Stamp = (s = (lp_io lp)\<lparr>io_slot := slots (lp_wst lp) ! i\<rparr>)"
| "so_far i listen_fd p lp s (Stamping t) = (s = (lp_io lp)\<lparr>io_slot := slots (lp_wst lp) ! i\<rparr>)"
| "so_far i listen_fd p lp s At_Hang = (\<exists>t. s = stamped i lp t)"
| "so_far i listen_fd p lp s At_Wait = (\<exists>t elapsed. s = stamped i lp t \<and> no_hang lp elapsed)"
| "so_far i listen_fd p lp s (Waiting t0) = (\<exists>t elapsed. s = stamped i lp t \<and> no_hang lp elapsed)"
| "so_far i listen_fd p lp s (Counting evs) =
     (\<exists>t elapsed r. s = stamped i lp t \<and> no_hang lp elapsed \<and> epoll_wait r = Inr (length evs))"
| "so_far i listen_fd p lp s (Handling evs) =
     in_events i listen_fd lp (\<lambda>as cs rs ws. events_outcome i listen_fd evs (feed as cs rs ws s))"
| "so_far i listen_fd p lp s (Accepting evs) =
     in_events i listen_fd lp (\<lambda>as cs rs ws. accept_outcome i listen_fd evs (feed as cs rs ws s))"
| "so_far i listen_fd p lp s (Registering fd evs) =
     in_events i listen_fd lp (\<lambda>as cs rs ws. accept_outcome i listen_fd evs
       (feed ((fd, 0) # as) cs rs ws (s\<lparr>io_slot := sub_conns 1 (io_slot s)\<rparr>)))"
| "so_far i listen_fd p lp s (Finishing evs) =
     in_events i listen_fd lp (\<lambda>as cs rs ws. finish_outcome i listen_fd evs (feed as cs rs ws s))"
| "so_far i listen_fd p lp s At_Schedule = in_events i listen_fd lp (\<lambda>as cs rs ws. (Some (feed as cs rs ws s), True))"
| "so_far i listen_fd p lp s (Reading t vs) = in_events i listen_fd lp (\<lambda>as cs rs ws. (Some (feed as cs rs ws s), True))"
| "so_far i listen_fd p lp s (At_Tick res) =
     (in_events i listen_fd lp (\<lambda>as cs rs ws. (Some (feed as cs rs ws s), True)) \<and> scheduled i p (io_slot s) res)"
| "so_far i listen_fd p lp s (Ticking res t vs) =
     (in_events i listen_fd lp (\<lambda>as cs rs ws. (Some (feed as cs rs ws s), True)) \<and> scheduled i p (io_slot s) res)"
| "so_far i listen_fd p lp s _ = True"

lemma in_events_step:
  assumes "in_events i listen_fd lp f"
    and "\<And>as' cs' rs' ws'. f (as @ as') (cs @ cs') (rs @ rs') (ws @ ws') = g as' cs' rs' ws'"
  shows "in_events i listen_fd lp g"
proof -
  have "leads_to i listen_fd evs s f \<Longrightarrow> leads_to i listen_fd evs s g" for evs s
    by (erule leads_to_step) (rule assms(2))
  then show ?thesis using assms(1) unfolding in_events_def by blast
qed

lemma in_events_cong:
  assumes "in_events i listen_fd lp f" and "\<And>as cs rs ws. f as cs rs ws = g as cs rs ws"
  shows "in_events i listen_fd lp g"
proof -
  have "f = g" by (intro ext) (rule assms(2))
  with assms(1) show ?thesis by simp
qed

text \<open>The table a snapshot would be of, had it been taken at once.\<close>

definition table_of :: "worker_snapshot list \<Rightarrow> wst" where
  "table_of snaps = \<lparr>slots = map (\<lambda>s. \<lparr>last_loop_entry = snap_last_loop_entry s,
     pending_events = snap_pending_events s, accumulated_conns = snap_accumulated_conns s\<rparr>) snaps\<rparr>"

lemma length_assemble [simp]: "length (assemble vs) = NUM_WORKERS"
  by (simp add: assemble_def)

lemma snapshot_table_of: "length snaps = NUM_WORKERS \<Longrightarrow> snapshot_all (table_of snaps) = snaps"
  by (rule nth_equalityI) (simp_all add: nth_snapshot_all table_of_def slot_snapshot_def)

lemma wst_ok_table_of: "length snaps = NUM_WORKERS \<Longrightarrow> wst_ok (table_of snaps)"
  by (simp add: wst_ok_def table_of_def)

lemma table_of_own:
  assumes "loads_fine i w vs" and "length vs = SNAPSHOT_LOADS" and "i < NUM_WORKERS"
  shows "slots (table_of (assemble vs)) ! i = slots w ! i"
  using assemble_own [OF assms] assms(3) by (simp add: table_of_def slot_snapshot_def)


section \<open>Every step goes on with the turn\<close>

lemma handle_conn_event_quiet:
  assumes "handle_conn_event worker_id fd m s = Some s'" and "k_accept s = []" and "k_ctl_add s = []"
    and "k_read s' = []" and "k_write s' = []"
  shows "quiet s'"
proof -
  obtain close s2 where "s' = (if close then close_conn fd s2 else s2)"
    and "k_accept s2 = k_accept s" "k_ctl_add s2 = k_ctl_add s"
    using handle_conn_event_closes [OF assms(1)] .
  then show ?thesis using assms(2-5) by (simp add: quiet_def close_conn_def)
qed

lemma step_quiet:
  assumes step: "worker_step i listen_fd p now (m, pr) (m', pr')" and "quiet (pr_io pr)"
  shows "quiet (pr_io pr')"
  using step
proof (cases rule: worker_step_cases)
  case (conn_event ev evs ws rs io')
  then show ?thesis using assms(2) handle_conn_event_quiet [OF conn_event(3)] by (simp add: quiet_def)
qed (use assms(2) in \<open>auto simp: quiet_def\<close>)

lemma feed_accept_none:
  assumes "quiet s" and "fd < 0"
  shows "accept_outcome i listen_fd evs (feed ((fd, err) # as) cs rs ws s) = finish_outcome i listen_fd evs (feed as cs rs ws s)"
proof -
  have "(feed ((fd, err) # as) cs rs ws s)\<lparr>k_accept := as\<rparr> = feed as cs rs ws s"
    using assms(1) by (simp add: quiet_def feed_def)
  then show ?thesis
    using outcome_accept_none [of "feed ((fd, err) # as) cs rs ws s" fd err as] assms by (simp add: quiet_def)
qed

lemma feed_register_failed:
  assumes "quiet s" and "0 \<le> fd" and "ret \<noteq> 0" and "fd \<notin> dom (io_conns s)"
  shows "accept_outcome i listen_fd evs (feed ((fd, err) # as) ((ret, err') # cs) rs ws s) =
    accept_outcome i listen_fd evs (feed as cs rs ws (s\<lparr>io_log := io_log s @ [Close fd], io_slot := sub_conns 1 (add_conns 1 (io_slot s))\<rparr>))"
proof -
  let ?s = "feed ((fd, err) # as) ((ret, err') # cs) rs ws s"
  have "?s\<lparr>k_accept := as, k_ctl_add := cs, io_log := io_log ?s @ [Close fd], io_slot := sub_conns 1 (add_conns 1 (io_slot ?s))\<rparr> =
      feed as cs rs ws (s\<lparr>io_log := io_log s @ [Close fd], io_slot := sub_conns 1 (add_conns 1 (io_slot s))\<rparr>)"
    using assms(1) by (simp add: quiet_def feed_def)
  then show ?thesis
    using outcome_register_failed [of ?s fd err as ret err' cs] assms by (simp add: quiet_def)
qed

lemma feed_registered:
  assumes "quiet s" and "0 \<le> fd" and "fd \<notin> dom (io_conns s)"
  shows "accept_outcome i listen_fd evs (feed ((fd, err) # as) ((0, err') # cs) rs ws s) =
    accept_outcome i listen_fd evs (feed as cs rs ws (s\<lparr>io_conns := (io_conns s)(fd \<mapsto> \<lparr>buf = []\<rparr>), io_slot := add_conns 1 (io_slot s)\<rparr>))"
proof -
  let ?s = "feed ((fd, err) # as) ((0, err') # cs) rs ws s"
  have "?s\<lparr>k_accept := as, k_ctl_add := cs, io_conns := (io_conns ?s)(fd \<mapsto> \<lparr>buf = []\<rparr>), io_slot := add_conns 1 (io_slot ?s)\<rparr> =
      feed as cs rs ws (s\<lparr>io_conns := (io_conns s)(fd \<mapsto> \<lparr>buf = []\<rparr>), io_slot := add_conns 1 (io_slot s)\<rparr>)"
    using assms(1) by (simp add: quiet_def feed_def)
  then show ?thesis
    using outcome_registered [of ?s fd err as err' cs] assms by (simp add: quiet_def)
qed

lemma feed_conn_event:
  assumes "quiet s" and "event_fd (fst ev) \<noteq> listen_fd" and "event_fd (fst ev) \<in> dom (io_conns s)"
    and "handle_conn_event i (event_fd (fst ev)) (snd ev) (s\<lparr>k_read := rs, k_write := ws\<rparr>) = Some s'"
  shows "events_outcome i listen_fd (ev # evs) (feed as cs (rs @ rs') (ws @ ws') s) =
    finish_outcome i listen_fd evs (feed as cs rs' ws' s')"
proof -
  have "feed as cs (rs @ rs') (ws @ ws') s = feed as cs rs' ws' (s\<lparr>k_read := rs, k_write := ws\<rparr>)"
    using assms(1) by (simp add: quiet_def feed_def)
  then show ?thesis
    using handle_conn_event_ext [OF assms(4), of as cs rs' ws'] assms(2,3) by (intro outcome_conn) simp_all
qed

lemma so_far_events:
  assumes step: "worker_step i listen_fd p now (m, pr) (m', pr')" and w: "wst_ok (mem_wst m)" "i < NUM_WORKERS"
    and inv: "worker_inv i listen_fd p now m pr" and quiet: "quiet (pr_io pr)"
    and so_far: "so_far i listen_fd p lp (cur_io i m pr) (pr_phase pr)"
    and ph: "pr_phase pr = Handling (ev # evs) \<or> pr_phase pr = Accepting evs \<or> pr_phase pr = Registering fd evs"
  shows "so_far i listen_fd p lp (cur_io i m' pr') (pr_phase pr')"
proof -
  let ?s = "cur_io i m pr"
  have q: "quiet ?s" and c: "dom (io_conns ?s) = conns_of pr" using quiet by (simp_all add: quiet_def cur_io_def)
  have undo: "sub_conns 1 (add_conns 1 s) = s" "add_conns 1 (sub_conns 1 s) = s" for s
    by (simp_all add: slot_op_defs)
  show ?thesis
    using step
  proof (cases rule: worker_step_cases)
    case (accept_event ev evs)
    then show ?thesis using so_far outcome_listener [of ev listen_fd i evs] by (simp add: cur_io_def)
  next
    case (accept_none evs fd)
    then have "in_events i listen_fd lp (\<lambda>as cs rs ws. accept_outcome i listen_fd evs (feed as cs rs ws ?s))"
      using so_far by simp
    then have "in_events i listen_fd lp (\<lambda>as cs rs ws. finish_outcome i listen_fd evs (feed as cs rs ws ?s))"
      by (rule in_events_step [where as = "[(fd, 0)]" and cs = "[]" and rs = "[]" and ws = "[]"])
        (use feed_accept_none [OF q accept_none(2)] in simp)
    then show ?thesis using accept_none by (simp add: cur_io_def)
  next
    case (accepted evs fd)
    have cur: "(cur_io i m' pr')\<lparr>io_slot := sub_conns 1 (io_slot (cur_io i m' pr'))\<rparr> = ?s"
      using accepted w undo by (simp add: cur_io_def)
    have "in_events i listen_fd lp (\<lambda>as cs rs ws. accept_outcome i listen_fd evs (feed as cs rs ws ?s))"
      using accepted so_far by simp
    then have "in_events i listen_fd lp (\<lambda>as cs rs ws. accept_outcome i listen_fd evs (feed ((fd, 0) # as) cs rs ws ?s))"
      by (rule in_events_step [where as = "[(fd, 0)]" and cs = "[]" and rs = "[]" and ws = "[]"]) simp
    moreover have "pr_phase pr' = Registering fd evs" using accepted by simp
    ultimately show ?thesis by (simp only: so_far.simps cur)
  next
    case (register_failed fd evs ret)
    let ?s0 = "?s\<lparr>io_slot := sub_conns 1 (io_slot ?s)\<rparr>"
    let ?s1 = "?s0\<lparr>io_log := io_log ?s0 @ [Close fd], io_slot := sub_conns 1 (add_conns 1 (io_slot ?s0))\<rparr>"
    have fd: "0 \<le> fd" "fd \<notin> conns_of pr" using inv register_failed(1) by (auto simp: worker_inv_def fds_ok_def)
    have "in_events i listen_fd lp (\<lambda>as cs rs ws. accept_outcome i listen_fd evs (feed ((fd, 0) # as) cs rs ws ?s0))"
      using register_failed so_far by simp
    then have "in_events i listen_fd lp (\<lambda>as cs rs ws. accept_outcome i listen_fd evs (feed as cs rs ws ?s1))"
      by (rule in_events_step [where as = "[]" and cs = "[(ret, 0)]" and rs = "[]" and ws = "[]"])
        (use feed_register_failed [of ?s0 fd ret] q fd register_failed(2) c in \<open>simp add: quiet_def\<close>)
    moreover have "cur_io i m' pr' = ?s1" using register_failed w undo by (simp add: cur_io_def)
    moreover have "pr_phase pr' = Accepting evs" using register_failed by simp
    ultimately show ?thesis by (simp only: so_far.simps)
  next
    case (registered fd evs)
    let ?s0 = "?s\<lparr>io_slot := sub_conns 1 (io_slot ?s)\<rparr>"
    let ?s1 = "?s0\<lparr>io_conns := (io_conns ?s0)(fd \<mapsto> \<lparr>buf = []\<rparr>), io_slot := add_conns 1 (io_slot ?s0)\<rparr>"
    have fd: "0 \<le> fd" "fd \<notin> conns_of pr" using inv registered(1) by (auto simp: worker_inv_def fds_ok_def)
    have "in_events i listen_fd lp (\<lambda>as cs rs ws. accept_outcome i listen_fd evs (feed ((fd, 0) # as) cs rs ws ?s0))"
      using registered so_far by simp
    then have "in_events i listen_fd lp (\<lambda>as cs rs ws. accept_outcome i listen_fd evs (feed as cs rs ws ?s1))"
      by (rule in_events_step [where as = "[]" and cs = "[(0, 0)]" and rs = "[]" and ws = "[]"])
        (use feed_registered [of ?s0 fd] q fd c in \<open>simp add: quiet_def\<close>)
    moreover have "cur_io i m' pr' = ?s1" using registered w undo by (simp add: cur_io_def)
    moreover have "pr_phase pr' = Accepting evs" using registered by simp
    ultimately show ?thesis by (simp only: so_far.simps)
  next
    case (conn_event ev evs ws rs io')
    have fd: "event_fd (fst ev) \<in> dom (io_conns ?s)"
      using inv conn_event(1,2) unfolding c by (intro events_head_conn) (simp_all add: worker_inv_def)
    have "handle_conn_event i (event_fd (fst ev)) (snd ev) (?s\<lparr>k_read := rs, k_write := ws\<rparr>) = Some io'"
      using conn_event(3) by (simp add: cur_io_def)
    note go = feed_conn_event [OF q conn_event(2) fd this]
    have "in_events i listen_fd lp (\<lambda>as cs rs ws. events_outcome i listen_fd (ev # evs) (feed as cs rs ws ?s))"
      using conn_event so_far by simp
    then have "in_events i listen_fd lp (\<lambda>as cs rs ws. finish_outcome i listen_fd evs (feed as cs rs ws io'))"
      by (rule in_events_step [where as = "[]" and cs = "[]" and rs = rs and ws = ws]) (use go in simp)
    moreover have "cur_io i m' pr' = io'" using conn_event w by (simp add: cur_io_def)
    moreover have "pr_phase pr' = Finishing evs" using conn_event by simp
    ultimately show ?thesis by (simp only: so_far.simps)
  qed (use ph in auto)
qed


lemma scheduled_from_loads:
  assumes "loads_fine i w vs" and "length vs = SNAPSHOT_LOADS" and "i < NUM_WORKERS" and "runs_scheduler p"
  shows "scheduled i p (slots w ! i) (Some (schedule_from_snapshots (assemble vs) t HANG_THRESHOLD_NS))"
  using assms table_of_own [OF assms(1-3)] unfolding scheduled_def
  by (intro exI [of _ "table_of (assemble vs)"] exI [of _ t]) (simp add: wst_ok_table_of schedule_def snapshot_table_of)

lemma so_far_step:
  assumes step: "worker_step i listen_fd p now (m, pr) (m', pr')" and w: "wst_ok (mem_wst m)" "i < NUM_WORKERS"
    and inv: "worker_inv i listen_fd p now m pr" and quiet: "quiet (pr_io pr)" and hang: "pr_hang pr = lp_hang lp"
    and so_far: "so_far i listen_fd p lp (cur_io i m pr) (pr_phase pr)" and top: "pr_phase pr' \<noteq> At_Top"
  shows "so_far i listen_fd p lp (cur_io i m' pr') (pr_phase pr')"
proof -
  let ?s = "cur_io i m pr"
  show ?thesis
    using step
  proof (cases rule: worker_step_cases)
    case (stamp_store t)
    then have "?s = (lp_io lp)\<lparr>io_slot := slots (lp_wst lp) ! i\<rparr>" using so_far by simp
    moreover have "cur_io i m' pr' = ?s\<lparr>io_slot := store_loop_entry t (io_slot ?s)\<rparr>"
      using stamp_store w by (simp add: cur_io_def)
    ultimately show ?thesis using stamp_store by (auto simp: stamped_def)
  next
    case (no_hang elapsed)
    then show ?thesis using so_far hang by (auto simp: cur_io_def no_hang_def)
  next
    case (waited t0 r evs)
    then show ?thesis using so_far by (cases r) (auto simp: cur_io_def)
  next
    case (count evs)
    then obtain t elapsed r where s: "?s = stamped i lp t" and t: "no_hang lp elapsed" "epoll_wait r = Inr (length evs)"
      using so_far by auto
    have "cur_io i m' pr' = ?s\<lparr>io_slot := add_pending (of_nat (length evs)) (io_slot ?s)\<rparr>"
      using count w by (simp add: cur_io_def)
    then have "cur_io i m' pr' = counted i lp t (length evs)" by (simp add: s stamped_def counted_def)
    moreover have "in_events i listen_fd lp (\<lambda>as cs rs ws. events_outcome i listen_fd evs
        (feed as cs rs ws (counted i lp t (length evs))))"
      unfolding in_events_def using t leads_to_start by blast
    moreover have "pr_phase pr' = Handling evs" using count by simp
    ultimately show ?thesis by (simp only: so_far.simps)
  next
    case (finish evs)
    then have "in_events i listen_fd lp (\<lambda>as cs rs ws. finish_outcome i listen_fd evs (feed as cs rs ws ?s))"
      using so_far by simp
    moreover have "(feed as cs rs ws ?s)\<lparr>io_slot := sub_pending 1 (io_slot ?s)\<rparr> = feed as cs rs ws (cur_io i m' pr')"
      for as cs rs ws using finish w by (simp add: cur_io_def feed_def)
    ultimately show ?thesis using finish by (simp add: finish_outcome_def)
  next
    case handled
    have "in_events i listen_fd lp (\<lambda>as cs rs ws. (Some (feed as cs rs ws ?s), True))"
      using so_far handled by (simp add: outcome_nil)
    moreover have "\<not> runs_scheduler p \<Longrightarrow> scheduled i p (io_slot ?s) None"
      using w by (auto simp: scheduled_def cur_io_def)
    ultimately show ?thesis using handled by (simp add: cur_io_def)
  next
    case (publish t vs)
    then have "scheduled i p (io_slot ?s) (Some (schedule_from_snapshots (assemble vs) t HANG_THRESHOLD_NS))"
      using inv scheduled_from_loads [OF _ publish(2) w(2)] by (simp add: worker_inv_def cur_io_def)
    then show ?thesis using publish so_far by (simp add: cur_io_def)
  next
    case (publish_failed t vs)
    then have "scheduled i p (io_slot ?s) (Some (schedule_from_snapshots (assemble vs) t HANG_THRESHOLD_NS))"
      using inv scheduled_from_loads [OF _ publish_failed(2) w(2)] by (simp add: worker_inv_def cur_io_def)
    then show ?thesis using publish_failed so_far by (simp add: cur_io_def)
  next
    case accept_event
    then show ?thesis by (intro so_far_events [OF step w inv quiet so_far]) blast
  next
    case accept_none
    then show ?thesis by (intro so_far_events [OF step w inv quiet so_far]) blast
  next
    case accepted
    then show ?thesis by (intro so_far_events [OF step w inv quiet so_far]) blast
  next
    case register_failed
    then show ?thesis by (intro so_far_events [OF step w inv quiet so_far]) blast
  next
    case registered
    then show ?thesis by (intro so_far_events [OF step w inv quiet so_far]) blast
  next
    case conn_event
    then show ?thesis by (intro so_far_events [OF step w inv quiet so_far]) blast
  qed (use so_far top in \<open>auto simp: cur_io_def\<close>)
qed

text \<open>A step that does not end the turn leaves what is carried from turn to turn.\<close>

lemma step_carried:
  assumes "worker_step i listen_fd p now (m, pr) (m', pr')" and "pr_phase pr' \<noteq> At_Top"
  shows "pr_hang pr' = pr_hang pr \<and> pr_iter pr' = pr_iter pr \<and> pr_ticks pr' = pr_ticks pr"
  using assms by (cases rule: worker_step_cases) auto

lemma reachable_quiet:
  assumes "cluster_reachable lfds p s" and "j < NUM_WORKERS"
  shows "quiet (pr_io (cl_procs s ! j))"
  using assms
proof (induction rule: cluster_reachable.induct)
  case (start t hangs)
  then show ?case by (simp add: fresh_cluster_def fresh_proc_def quiet_def)
next
  case (step s s')
  from step(2) show ?case
  proof cases
    case (work i m' pr')
    then show ?thesis
      using step(3) [OF step.prems] step.prems step_quiet [OF work(3)] cluster_procs_length [OF step(1)]
      by (cases "j = i") simp_all
  qed (use step in simp)
qed

text \<open>What one turn of a run leads through.\<close>

lemma turn_run_so_far:
  assumes "turn_run lfds p i s0 n a q s" and "cluster_reachable lfds p s0" and "i < NUM_WORKERS"
    and "pr_phase (cl_procs s0 ! i) = At_Top"
  defines "lp \<equiv> view i (cl_mem s0) (cl_procs s0 ! i)"
  shows "so_far i (lfds i) p lp (cur_io i (cl_mem s) (cl_procs s ! i)) (pr_phase (cl_procs s ! i)) \<and>
    pr_hang (cl_procs s ! i) = lp_hang lp \<and> pr_iter (cl_procs s ! i) = lp_iter lp \<and> pr_ticks (cl_procs s ! i) = lp_ticks lp"
  using assms(1)
proof (induction rule: turn_run.induct)
  case begin_turn
  then show ?case using assms(4) by (simp add: lp_def view_def cur_io_def)
next
  case (own_step n a q s m' pr')
  have r: "cluster_reachable lfds p s" by (rule turn_run_reachable [OF own_step(1) assms(2,3)])
  then have w: "wst_ok (mem_wst (cl_mem s))" and v: "worker_inv i (lfds i) p (cl_now s) (cl_mem s) (cl_procs s ! i)"
    using cluster_reachable_inv [OF r] assms(3) by (simp_all add: cluster_inv_def)
  from so_far_step [OF own_step(2) w assms(3) v reachable_quiet [OF r assms(3)] _ _ own_step(3), of lp]
  show ?case using own_step(4) step_carried [OF own_step(2,3)] cluster_procs_length [OF r] assms(3) by simp
next
  case (other_step n a q s j m' pr')
  have r: "cluster_reachable lfds p s" by (rule turn_run_reachable [OF other_step(1) assms(2,3)])
  then have "wst_ok (mem_wst (cl_mem s))" using cluster_reachable_inv [OF r] by (simp add: cluster_inv_def)
  from worker_step_frame(2) [OF other_step(4) this] other_step(3)
  have "slots (mem_wst m') ! i = slots (mem_wst (cl_mem s)) ! i" by simp
  then show ?case using other_step(3,5) by (simp add: cur_io_def)
qed simp


text \<open>
  What the step that hands over the scheduler's result has done to \<open>M_Sel\<close>: it holds the bitmap, or
  the write has failed, \<open>M_Sel\<close> is as before, and there is one more warning.
\<close>

definition handed_over :: "nat \<Rightarrow> schedule_result option \<Rightarrow> nat \<Rightarrow> (u64 \<times> u64) option \<Rightarrow> bool" where
  "handed_over w0 res w q \<longleftrightarrow>
     (case res of
        None \<Rightarrow> q = None \<and> w = w0
      | Some r \<Rightarrow> \<exists>before after. q = Some (before, after) \<and> (w = w0 \<and> after = bitmap r \<or> w = w0 + 1 \<and> after = before))"

fun handed :: "nat \<Rightarrow> phase \<Rightarrow> nat \<Rightarrow> (u64 \<times> u64) option \<Rightarrow> bool" where
  "handed w0 (At_Tick res) w q = handed_over w0 res w q"
| "handed w0 (Ticking res t vs) w q = handed_over w0 res w q"
| "handed w0 Flushing w q = True"
| "handed w0 Exited w q = True"
| "handed w0 (Failed err) w q = True"
| "handed w0 _ w q = (q = None \<and> w = w0)"

lemma step_handed:
  assumes "worker_step i listen_fd p now (m, pr) (m', pr')" and "handed w0 (pr_phase pr) (pr_warnings pr) q"
    and "pr_phase pr' \<noteq> At_Top"
  shows "handed w0 (pr_phase pr') (pr_warnings pr')
    (if hands_over (pr_phase pr) (pr_phase pr') then Some (mem_sel m, mem_sel m') else q)"
  using assms by (cases rule: worker_step_cases) (auto simp: handed_over_def)

lemma turn_run_handed:
  assumes "turn_run lfds p i s0 n a q s" and "cluster_reachable lfds p s0" and "i < NUM_WORKERS"
    and "pr_phase (cl_procs s0 ! i) = At_Top"
  shows "handed (pr_warnings (cl_procs s0 ! i)) (pr_phase (cl_procs s ! i)) (pr_warnings (cl_procs s ! i)) q"
  using assms(1)
proof (induction rule: turn_run.induct)
  case (own_step n a q s m' pr')
  have "i < length (cl_procs s)"
    using cluster_procs_length [OF turn_run_reachable [OF own_step(1) assms(2,3)]] assms(3) by simp
  then show ?case using step_handed [OF own_step(2,4,3)] by simp
qed (use assms(4) in simp_all)

section \<open>The turn as the event loop sees it\<close>

text \<open>The others put table \<open>w'\<close> in place of the worker's, except for its own slot.\<close>

definition impose :: "nat \<Rightarrow> wst \<Rightarrow> wst \<Rightarrow> wst" where
  "impose i w' w = upd_slot i (\<lambda>_. slots w ! i) w'"

lemma upd_slot_triv: "wst_ok w \<Longrightarrow> i < NUM_WORKERS \<Longrightarrow> slots w ! i = s \<Longrightarrow> upd_slot i (\<lambda>_. s) w = w"
  by (auto simp: upd_slot_def wst_ok_def)

lemma upd_slot_twice: "upd_slot i (\<lambda>_. s) (upd_slot i (\<lambda>_. s') w) = upd_slot i (\<lambda>_. s) w"
  by (simp add: upd_slot_def)

lemma impose_leaves_slot: "wst_ok w' \<Longrightarrow> i < NUM_WORKERS \<Longrightarrow> leaves_slot i (impose i w')"
  by (simp add: leaves_slot_def impose_def)

definition same_worker :: "nat \<Rightarrow> memory \<Rightarrow> proc \<Rightarrow> loop_state \<Rightarrow> bool" where
  "same_worker i m pr lp \<longleftrightarrow> slots (lp_wst lp) ! i = slots (mem_wst m) ! i \<and>
     io_conns (lp_io lp) = io_conns (pr_io pr) \<and> io_log (lp_io lp) = io_log (pr_io pr) \<and>
     lp_hang lp = pr_hang pr \<and> lp_iter lp = pr_iter pr \<and> lp_ticks lp = pr_ticks pr"

text \<open>The turn \<open>t\<close> of the event loop, begun with \<open>sel\<close> in \<open>M_Sel\<close>, has handed over the same.\<close>

definition same_publication :: "u64 \<Rightarrow> (u64 \<times> u64) option \<Rightarrow> bool \<Rightarrow> turn \<Rightarrow> loop_state \<Rightarrow> bool" where
  "same_publication sel q warned t lp \<longleftrightarrow> t_set_failed t = warned \<and>
     (case q of
        None \<Rightarrow> \<not> warned \<and> lp_msel lp = sel
      | Some (before, after) \<Rightarrow> if warned then after = before \<and> lp_msel lp = sel else lp_msel lp = after)"

lemma turn_ends_in_hang:
  assumes "lp_hang lp = Some h" and "hang_at h \<le> elapsed" and "wst_ok (lp_wst lp)" and "i < NUM_WORKERS"
  obtains t lp' where "turn_ok i listen_fd t lp" and "one_turn i listen_fd p t lp = Some (Next lp')"
    and "lp' = (stamp i t lp)\<lparr>lp_hang := None\<rparr>" and "t_entry_ns t = entry" and "\<not> t_set_failed t"
proof -
  let ?t = "accept_turn\<lparr>t_entry_ns := entry, t_elapsed := elapsed, t_wait := (- 1, 5), t_set_failed := False\<rparr>"
  have "turn_ok i listen_fd ?t lp"
    by (simp add: turn_ok_def leaves_slot_def accept_turn_def epoll_wait_def EINTR_def)
  moreover have "one_turn i listen_fd p ?t lp = Some (Next ((stamp i ?t lp)\<lparr>lp_hang := None\<rparr>))"
    using assms(1,2) by (simp add: one_turn_def stamp_def accept_turn_def)
  ultimately show ?thesis using that [of ?t] by simp
qed

lemma turn_ends_in_tick:
  assumes lp: "wst_ok (lp_wst lp)" "i < NUM_WORKERS" "quiet (lp_io lp)"
    and ev: "in_events i listen_fd lp (\<lambda>as cs rs ws. (Some (feed as cs rs ws s), True))"
    and sched: "scheduled i p (io_slot s) res"
    and w: "wst_ok w" "slots w ! i = io_slot s"
  obtains t lp' where "turn_ok i listen_fd t lp" and "one_turn i listen_fd p t lp = Some (Next lp')"
    and "t_set_failed t = failed"
    and "lp_msel lp' = (case res of Some r \<Rightarrow> if failed then lp_msel lp else bitmap r | None \<Rightarrow> lp_msel lp)"
    and "lp_wst lp' = w" and "lp_io lp' = s" and "lp_hang lp' = lp_hang lp" and "lp_iter lp' = lp_iter lp + 1"
    and "lp_ticks lp' = lp_ticks lp @ [\<lparr>tk_timestamp_ns = now, tk_worker_id = i, tk_iter = lp_iter lp,
      tk_snapshots = snapshot_all w, tk_open_conns = card (dom (io_conns s)), tk_result = res, tk_policy = p\<rparr>]"
proof -
  obtain t0 elapsed r evs as cs rs ws where hang: "no_hang lp elapsed" and r: "epoll_wait r = Inr (length evs)"
    and out: "\<And>as' cs' rs' ws'. events_outcome i listen_fd evs (feed (as @ as') (cs @ cs') (rs @ rs') (ws @ ws')
      (counted i lp t0 (length evs))) = (Some (feed as' cs' rs' ws' s), True)"
    using ev unfolding in_events_def leads_to_def by blast
  obtain w1 t1 where w1: "wst_ok w1" "slots w1 ! i = io_slot s"
    and res: "res = (if runs_scheduler p then Some (schedule w1 t1 HANG_THRESHOLD_NS) else None)"
    using sched by (auto simp: scheduled_def)
  define t where "t = \<lparr>t_shutdown = False, t_entry_ns = t0, t_elapsed = elapsed, t_wait = r, t_events = evs,
    t_accept = as, t_ctl_add = cs, t_read = rs, t_write = ws, t_others = impose i w1, t_schedule_ns = t1,
    t_set_failed = failed, t_others_tick = impose i w, t_tick_ns = now, t_tick_error = None\<rparr>"
  have s_feed: "feed [] [] [] [] s = s" by (simp add: feed_def)
  let ?w = "count_ready i (length evs) (lp_wst (stamp i t lp))"
  have st: "wst_ok (lp_wst (stamp i t lp))" "slots (lp_wst (stamp i t lp)) ! i = store_loop_entry t0 (slots (lp_wst lp) ! i)"
    using lp by (simp_all add: stamp_def t_def)
  have enter: "enter_io i t ?w (lp_io lp) = feed as cs rs ws (counted i lp t0 (length evs))"
    using st lp by (simp add: enter_io_def t_def counted_def feed_def quiet_def)
  have run: "run_steps (handle_event i listen_fd) evs (enter_io i t ?w (lp_io lp)) = Some s"
    and ok: "steps_ok (event_ok listen_fd) (handle_event i listen_fd) evs (enter_io i t ?w (lp_io lp))"
    using out [of "[]" "[]" "[]" "[]"] by (simp_all add: enter events_outcome_def s_feed)
  have t_ok: "turn_ok i listen_fd t lp"
    unfolding turn_ok_def using r ok impose_leaves_slot w(1) w1(1) lp(2) by (simp add: t_def)
  have others: "upd_slot i (\<lambda>_. io_slot s) (impose i w1 v) = w1" "impose i w w1 = w" for v
    using w w1 lp(2) by (simp_all add: impose_def upd_slot_twice upd_slot_triv)
  have no: "\<not> (case lp_hang (stamp i t lp) of Some h \<Rightarrow> hang_at h \<le> t_elapsed t | None \<Rightarrow> False)"
    using hang by (auto simp: no_hang_def stamp_def t_def split: option.splits)
  have "one_turn i listen_fd p t lp =
      Some (end_of_turn i p t ((stamp i t lp)\<lparr>lp_wst := w1, lp_io := s\<rparr>))"
  proof -
    have "\<not> t_shutdown t" "t_wait t = r" "t_events t = evs" "t_others t = impose i w1" "lp_io (stamp i t lp) = lp_io lp"
      by (simp_all add: t_def stamp_def)
    then show ?thesis using no r run others(1) by (simp add: one_turn_def Let_def del: run_steps.simps)
  qed
  moreover have "end_of_turn i p t ((stamp i t lp)\<lparr>lp_wst := w1, lp_io := s\<rparr>) =
      Next ((stamp i t lp)\<lparr>lp_wst := w, lp_io := s, lp_ticks := lp_ticks lp @ [\<lparr>tk_timestamp_ns = now, tk_worker_id = i,
        tk_iter = lp_iter lp, tk_snapshots = snapshot_all w, tk_open_conns = card (dom (io_conns s)), tk_result = res,
        tk_policy = p\<rparr>], lp_iter := lp_iter lp + 1,
        lp_msel := (case res of Some r \<Rightarrow> if failed then lp_msel lp else bitmap r | None \<Rightarrow> lp_msel lp)\<rparr>)"
    by (simp add: end_of_turn_def Let_def t_def stamp_def res others(2))
  moreover have "t_set_failed t = failed" by (simp add: t_def)
  ultimately show ?thesis using that t_ok by (simp add: stamp_def)
qed

text \<open>
  C10: The interleaved system refines the event loop: whatever a worker does from one loop top to the next,
  with the others' steps in between at every access to the shared memory and the scheduler's loads
  mixing values of different moments, is one turn of \<open>one_turn\<close> for results of the system calls and
  effects of the others that meet the promises of \<open>turn_ok\<close>. It leaves the worker with the same
  slot, connections, effects, tick rows and pending hang; a tick under Hermes hands over a result,
  and \<open>M_Sel\<close> holds right after that step what the turn puts there, or, when the write fails and the
  worker warns, what it held before.
\<close>

theorem interleaved_turn_is_one_turn:
  assumes "cluster_reachable lfds p s0" and "i < NUM_WORKERS" and "pr_phase (cl_procs s0 ! i) = At_Top"
    and "turn_run lfds p i s0 n a q s"
    and "worker_step i (lfds i) p (cl_now s) (cl_mem s, cl_procs s ! i) (m', pr')" and "pr_phase pr' = At_Top"
  shows "\<exists>t lp'. turn_ok i (lfds i) t (view i (cl_mem s0) (cl_procs s0 ! i)) \<and>
    one_turn i (lfds i) p t (view i (cl_mem s0) (cl_procs s0 ! i)) = Some (Next lp') \<and> same_worker i m' pr' lp' \<and>
    same_publication (mem_sel (cl_mem s0)) q (pr_warnings pr' \<noteq> pr_warnings (cl_procs s0 ! i)) t lp' \<and>
    (q = None \<longleftrightarrow> \<not> runs_scheduler p \<or> pr_ticks pr' = pr_ticks (cl_procs s0 ! i))"
proof -
  let ?lp = "view i (cl_mem s0) (cl_procs s0 ! i)" and ?pr = "cl_procs s ! i" and ?m = "cl_mem s"
  have r: "cluster_reachable lfds p s" by (rule turn_run_reachable [OF assms(4,1,2)])
  have w0: "wst_ok (lp_wst ?lp)" and q0: "quiet (lp_io ?lp)"
    using cluster_reachable_inv [OF assms(1)] reachable_quiet [OF assms(1,2)] by (simp_all add: cluster_inv_def view_def)
  have w: "wst_ok (mem_wst ?m)" and v: "worker_inv i (lfds i) p (cl_now s) ?m ?pr"
    using cluster_reachable_inv [OF r] assms(2) by (simp_all add: cluster_inv_def)
  note sf = turn_run_so_far [OF assms(4,1-3)] and h = turn_run_handed [OF assms(4,1-3)]
  have sel: "lp_msel ?lp = mem_sel (cl_mem s0)" "lp_ticks ?lp = pr_ticks (cl_procs s0 ! i)" by (simp_all add: view_def)
  from assms(5) show ?thesis
  proof (cases rule: worker_step_cases)
    case (hang h elapsed)
    then obtain t0 where s: "cur_io i ?m ?pr = stamped i ?lp t0" using sf by auto
    have "lp_hang ?lp = Some h" using hang sf by simp
    from turn_ends_in_hang [OF this hang(3) w0 assms(2), of "lfds i" p t0] obtain t lp'
      where t: "turn_ok i (lfds i) t ?lp" "one_turn i (lfds i) p t ?lp = Some (Next lp')"
        and lp': "lp' = (stamp i t ?lp)\<lparr>lp_hang := None\<rparr>" "t_entry_ns t = t0" "\<not> t_set_failed t" .
    have "same_worker i m' pr' lp'"
      using hang sf w0 assms(2) arg_cong [OF s, of io_slot] arg_cong [OF s, of io_conns] arg_cong [OF s, of io_log]
      by (simp add: same_worker_def lp' stamp_def cur_io_def stamped_def)
    moreover have "q = None" "pr_warnings pr' = pr_warnings (cl_procs s0 ! i)" "pr_ticks pr' = pr_ticks (cl_procs s0 ! i)"
      using h sf sel hang by simp_all
    ultimately show ?thesis using t lp' sel by (auto simp: same_publication_def stamp_def)
  next
    case (tick_written res t vs)
    have ev: "in_events i (lfds i) ?lp (\<lambda>as cs rs ws. (Some (feed as cs rs ws (cur_io i ?m ?pr)), True))"
      and sched: "scheduled i p (io_slot (cur_io i ?m ?pr)) res" using sf tick_written by simp_all
    have l: "loads_fine i (mem_wst ?m) vs" using v tick_written by (simp add: worker_inv_def)
    have own: "slots (table_of (assemble vs)) ! i = io_slot (cur_io i ?m ?pr)"
      using table_of_own [OF l tick_written(2) assms(2)] by (simp add: cur_io_def)
    from turn_ends_in_tick [OF w0 assms(2) q0 ev sched wst_ok_table_of [OF length_assemble] own,
        where now = t and failed = "pr_warnings pr' \<noteq> pr_warnings (cl_procs s0 ! i)"] obtain u lp'
      where u: "turn_ok i (lfds i) u ?lp" "one_turn i (lfds i) p u ?lp = Some (Next lp')"
        and set: "t_set_failed u = (pr_warnings pr' \<noteq> pr_warnings (cl_procs s0 ! i))"
        and pub: "lp_msel lp' = (case res of
          Some r \<Rightarrow> if pr_warnings pr' \<noteq> pr_warnings (cl_procs s0 ! i) then lp_msel ?lp else bitmap r | None \<Rightarrow> lp_msel ?lp)"
        and lp': "lp_wst lp' = table_of (assemble vs)" "lp_io lp' = cur_io i ?m ?pr" "lp_hang lp' = lp_hang ?lp"
          "lp_iter lp' = lp_iter ?lp + 1"
          "lp_ticks lp' = lp_ticks ?lp @ [\<lparr>tk_timestamp_ns = t, tk_worker_id = i, tk_iter = lp_iter ?lp,
            tk_snapshots = snapshot_all (table_of (assemble vs)), tk_open_conns = card (dom (io_conns (cur_io i ?m ?pr))),
            tk_result = res, tk_policy = p\<rparr>]" .
    have "same_worker i m' pr' lp'"
      using tick_written sf own by (simp add: same_worker_def lp' cur_io_def snapshot_table_of)
    moreover have o: "handed_over (pr_warnings (cl_procs s0 ! i)) res (pr_warnings pr') q"
      using h tick_written by simp
    have "same_publication (mem_sel (cl_mem s0)) q (pr_warnings pr' \<noteq> pr_warnings (cl_procs s0 ! i)) u lp'"
      using o set pub sel(1) by (cases res) (auto simp: same_publication_def handed_over_def)
    moreover have "q = None \<longleftrightarrow> \<not> runs_scheduler p \<or> pr_ticks pr' = pr_ticks (cl_procs s0 ! i)"
    proof -
      have "q = None \<longleftrightarrow> res = None" using o by (auto simp: handed_over_def split: option.splits)
      moreover have "res = None \<longleftrightarrow> \<not> runs_scheduler p" using v tick_written by (simp add: worker_inv_def)
      moreover have "pr_ticks pr' \<noteq> pr_ticks (cl_procs s0 ! i)" using sf sel tick_written by simp
      ultimately show ?thesis by blast
    qed
    ultimately show ?thesis using u by blast
  qed (use assms(6) in \<open>auto split: if_splits\<close>)
qed


text \<open>An idle turn of worker 2 of a baseline policy.\<close>

definition turn_reaches :: "(nat \<Rightarrow> fd) \<Rightarrow> policy \<Rightarrow> nat \<Rightarrow> cluster \<Rightarrow> memory \<Rightarrow> proc \<Rightarrow> bool" where
  "turn_reaches lfds p i s0 m pr \<longleftrightarrow> (\<exists>n a q s. turn_run lfds p i s0 n a q s \<and> cl_mem s = m \<and> cl_procs s ! i = pr \<and>
     cl_now s = cl_now s0 \<and> length (cl_procs s) = NUM_WORKERS)"

lemma turn_reaches_step:
  assumes "turn_reaches lfds p i s0 m pr" and "worker_step i (lfds i) p (cl_now s0) (m, pr) (m', pr')"
    and "pr_phase pr' \<noteq> At_Top" and "i < NUM_WORKERS"
  shows "turn_reaches lfds p i s0 m' pr'"
proof -
  obtain n a q s where s: "turn_run lfds p i s0 n a q s" "cl_mem s = m" "cl_procs s ! i = pr" "cl_now s = cl_now s0"
    "length (cl_procs s) = NUM_WORKERS" using assms(1) by (auto simp: turn_reaches_def)
  have "worker_step i (lfds i) p (cl_now s) (cl_mem s, cl_procs s ! i) (m', pr')" using assms(2) s by simp
  from turn_run.own_step [OF s(1) this assms(3)] show ?thesis
    using s assms(4) unfolding turn_reaches_def by fastforce
qed

lemma turn_reaches_loads:
  assumes "turn_reaches lfds p i s0 m (goto (Ticking res c []) pr)" and "i < NUM_WORKERS" and "n \<le> SNAPSHOT_LOADS"
  shows "turn_reaches lfds p i s0 m (goto (Ticking res c (map (load_nth (mem_wst m)) [0..<n])) pr)"
  using assms(3)
proof (induction n)
  case (Suc n)
  then have "turn_reaches lfds p i s0 m (goto (Ticking res c (map (load_nth (mem_wst m)) [0..<n])) pr)" by simp
  from turn_reaches_step [OF this worker_step.tick_load _ assms(2)] Suc.prems show ?case by simp
qed (use assms(1) in simp)

definition idle_cluster :: cluster where
  "idle_cluster = fresh_cluster (\<lambda>_. None) 1000"

lemma idle_turn:
  "turn_reaches (\<lambda>_. 4) Reuseport 2 idle_cluster idle_memory
     (goto (Ticking None 1000 (map (load_nth (mem_wst idle_memory)) [0..<SNAPSHOT_LOADS])) (fresh_proc None))"
proof -
  let ?l = "\<lambda>_ :: nat. 4 :: fd"
  let ?r = "turn_reaches ?l Reuseport 2 idle_cluster"
  have i: "(2::nat) < NUM_WORKERS" by (simp add: NUM_WORKERS_def)
  have w: "epoll_wait (- 1, EINTR) = Inr (length ([] :: (u64 \<times> u32) list))" by (simp add: epoll_wait_def)
  have now: "cl_now idle_cluster = 1000" and p: "pr_phase (fresh_proc None) = At_Top" "pr_hang (fresh_proc None) = None"
    by (simp_all add: idle_cluster_def fresh_cluster_def fresh_proc_def)
  have "?r fresh_memory (fresh_proc None)"
    unfolding turn_reaches_def using turn_run.begin_turn [of ?l Reuseport 2 idle_cluster] i
    by (intro exI [of _ 0] exI [of _ None] exI [of _ idle_cluster]) (simp add: idle_cluster_def fresh_cluster_def)
  from turn_reaches_step [OF this worker_step.enter [OF p(1)] _ i]
  have "?r fresh_memory (goto At_Stamp (fresh_proc None))" by simp
  from turn_reaches_step [OF this worker_step.stamp_clock _ i]
  have "?r fresh_memory (goto (Stamping 1000) (fresh_proc None))" by (simp add: now)
  from turn_reaches_step [OF this worker_step.stamp_store [where t = 1000] _ i]
  have "?r idle_memory (goto At_Hang (fresh_proc None))" by (simp add: idle_memory_def)
  from turn_reaches_step [OF this worker_step.no_hang _ i]
  have "?r idle_memory (goto At_Wait (fresh_proc None))" by (simp add: p)
  from turn_reaches_step [OF this worker_step.wait _ i]
  have "?r idle_memory (goto (Waiting 1000) (fresh_proc None))" by (simp add: now)
  from turn_reaches_step [OF this worker_step.waited [where evs = "[]", OF _ w] _ i]
  have "?r idle_memory (goto (Counting []) (fresh_proc None))" by simp
  from turn_reaches_step [OF this worker_step.count _ i]
  have "?r idle_memory (goto (Handling []) (fresh_proc None))" by (simp add: count_ready_def)
  from turn_reaches_step [OF this worker_step.handled _ i]
  have "?r idle_memory (goto (At_Tick None) (fresh_proc None))" by (simp add: runs_scheduler_def)
  from turn_reaches_step [OF this worker_step.tick_clock _ i]
  have "?r idle_memory (goto (Ticking None 1000 []) (fresh_proc None))" by (simp add: now)
  from turn_reaches_loads [OF this i order_refl] show ?thesis .
qed

theorem interleaved_turn_is_one_turn_witness:
  "\<exists>t lp'. turn_ok 2 4 t (view 2 fresh_memory (fresh_proc None)) \<and>
    one_turn 2 4 Reuseport t (view 2 fresh_memory (fresh_proc None)) = Some (Next lp') \<and> lp_iter lp' = 1 \<and>
    length (lp_ticks lp') = 1"
proof -
  let ?l = "\<lambda>_ :: nat. 4 :: fd" and ?vs = "map (load_nth (mem_wst idle_memory)) [0..<SNAPSHOT_LOADS]"
  have i: "(2::nat) < NUM_WORKERS" by (simp add: NUM_WORKERS_def)
  have s0: "cluster_reachable ?l Reuseport idle_cluster" "cl_mem idle_cluster = fresh_memory" "cl_procs idle_cluster ! 2 = fresh_proc None"
    using i by (auto simp: idle_cluster_def fresh_cluster_def intro: cluster_reachable.start [unfolded fresh_cluster_def])
  obtain n a q s where s: "turn_run ?l Reuseport 2 idle_cluster n a q s" "cl_mem s = idle_memory"
      "cl_procs s ! 2 = goto (Ticking None 1000 ?vs) (fresh_proc None)"
    using idle_turn by (auto simp: turn_reaches_def)
  have "worker_step 2 (?l 2) Reuseport (cl_now s) (cl_mem s, cl_procs s ! 2)
    (cl_mem s, goto At_Top ((cl_procs s ! 2)\<lparr>pr_iter := pr_iter (cl_procs s ! 2) + 1, pr_ticks := pr_ticks (cl_procs s ! 2) @
      [\<lparr>tk_timestamp_ns = 1000, tk_worker_id = 2, tk_iter = pr_iter (cl_procs s ! 2), tk_snapshots = assemble ?vs,
        tk_open_conns = card (conns_of (cl_procs s ! 2)), tk_result = None, tk_policy = Reuseport\<rparr>]\<rparr>))"
    by (rule worker_step.tick_written) (simp_all add: s)
  from interleaved_turn_is_one_turn [OF s0(1) i _ s(1) this] s s0 show ?thesis
    by (auto simp: same_worker_def fresh_proc_def)
qed

end
