(* ===== verification/End_To_End.thy ===== *)
theory End_To_End
  imports Bench_Client Cluster_Safety
begin

text \<open>
  The load generator against the workers: a request written by \<open>fire_request\<close> of
  \<open>hermes-bench/src/client.rs\<close> reaches the connection handling of \<open>hermes/src/worker.rs\<close> as some
  sequence of chunks, and the client reads what the worker wrote. Only the transport is left as a
  hypothesis: bytes arrive in order and complete, chop anywhere.
\<close>

section \<open>The transport between client and worker\<close>

text \<open>\<open>chop\<close> is where the network cuts a message; no read is empty before the end.\<close>

definition cuts_ok :: "(u8 list \<Rightarrow> u8 list list) \<Rightarrow> bool" where
  "cuts_ok chop \<longleftrightarrow> (\<forall>bs. concat (chop bs) = bs \<and> [] \<notin> set (chop bs))"

text \<open>The worker handling the event for a message that has arrived on descriptor \<open>fd\<close>.\<close>

definition deliver :: "nat \<Rightarrow> fd \<Rightarrow> (u8 list \<Rightarrow> u8 list list) \<Rightarrow> io \<Rightarrow> u8 list \<Rightarrow> io option" where
  "deliver worker_id fd chop s req =
     handle_conn_event worker_id fd EPOLLIN
       (s\<lparr>k_read := map Read_Bytes (chop req) @ [Read_Failed EAGAIN], k_write := [(int RESPONSE_LEN, 0)]\<rparr>)"

fun bytes_of :: "fd \<Rightarrow> effect \<Rightarrow> u8 list" where
  "bytes_of fd (Written fd' bs) = (if fd' = fd then bs else [])"
| "bytes_of fd _ = []"

text \<open>What \<open>read_exact\<close> returns to the client: the first bytes the worker wrote to it since \<open>s\<close>.\<close>

definition reply :: "nat \<Rightarrow> fd \<Rightarrow> (u8 list \<Rightarrow> u8 list list) \<Rightarrow> io \<Rightarrow> u8 list \<Rightarrow> u8 list option" where
  "reply worker_id fd chop s req =
     (case deliver worker_id fd chop s req of
        None \<Rightarrow> None
      | Some s' \<Rightarrow>
          (let bs = concat (map (bytes_of fd) (drop (length (io_log s)) (io_log s')))
           in if RESPONSE_LEN \<le> length bs then Some (take RESPONSE_LEN bs) else None))"

text \<open>The client's side of an exchange with a server that answers \<open>answer bs\<close> to the bytes \<open>bs\<close>.\<close>

definition exchange_with :: "(u8 list \<Rightarrow> u8 list option) \<Rightarrow> duration \<Rightarrow> duration \<Rightarrow> exchange" where
  "exchange_with answer sent received =
     \<lparr>ex_send_elapsed = sent, ex_write_failed = False, ex_response = answer, ex_recv_elapsed = received\<rparr>"

abbreviation request :: "u32 \<Rightarrow> u32 \<Rightarrow> duration \<Rightarrow> u8 list" where
  "request seq service_us sent \<equiv> encode_request seq service_us (now_ns sent) (replicate REQUEST_HEADER_LEN 0)"

section \<open>One request, served and measured\<close>

lemma parse_one_request:
  "parse_stream (encode_request seq service_us send_ns (replicate REQUEST_HEADER_LEN 0)) = ([(seq, service_us, send_ns)], False, [])"
  using parse_stream_frames [of "[]" "[(seq, service_us, send_ns)]"] by simp

lemma deliver_request:
  assumes "cuts_ok chop" and "io_conns s fd = Some \<lparr>buf = []\<rparr>"
  obtains s' where
    "deliver worker_id fd chop s (encode_request seq service_us send_ns (replicate REQUEST_HEADER_LEN 0)) = Some s'"
    and "io_log s' = io_log s @ served worker_id fd (seq, service_us, send_ns)"
    and "io_conns s' = io_conns s" and "io_slot s' = io_slot s"
proof -
  let ?req = "encode_request seq service_us send_ns (replicate REQUEST_HEADER_LEN 0)"
  let ?s = "s\<lparr>k_read := map Read_Bytes (chop ?req) @ [Read_Failed EAGAIN], k_write := [(int RESPONSE_LEN, 0)]\<rparr>"
  have "\<exists>s'. handle_conn_event worker_id fd EPOLLIN ?s = Some s' \<and>
      io_log s' = io_log ?s @ concat (map (served worker_id fd) [(seq, service_us, send_ns)]) @ (if False then [Epoll_Del fd, Close fd] else []) \<and>
      io_conns s' = (if False then (io_conns ?s)(fd := None) else (io_conns ?s)(fd \<mapsto> \<lparr>buf = []\<rparr>\<lparr>buf := []\<rparr>)) \<and>
      io_slot s' = (if False then sub_conns 1 (io_slot ?s) else io_slot ?s)"
    using assms parse_one_request
    by (intro conn_event_serves_stream [where chunks = "chop ?req" and reads = "[]" and writes = "[]"])
      (simp_all add: cuts_ok_def EPOLLIN_def EPOLLHUP_def EPOLLERR_def)
  then show ?thesis using that assms(2) by (auto simp: deliver_def map_upd_triv)
qed

lemma reply_to_request:
  assumes "cuts_ok chop" and "io_conns s fd = Some \<lparr>buf = []\<rparr>"
  shows "reply worker_id fd chop s (encode_request seq service_us send_ns (replicate REQUEST_HEADER_LEN 0)) =
    Some (encode_response seq (of_nat worker_id) send_ns (replicate RESPONSE_LEN 0))"
proof -
  obtain s' where
    "deliver worker_id fd chop s (encode_request seq service_us send_ns (replicate REQUEST_HEADER_LEN 0)) = Some s'"
    "io_log s' = io_log s @ served worker_id fd (seq, service_us, send_ns)"
    by (rule deliver_request [OF assms])
  then show ?thesis by (simp add: reply_def)
qed


definition measured :: "conn_row \<Rightarrow> string \<Rightarrow> u32 \<Rightarrow> u32 \<Rightarrow> u32 \<Rightarrow> duration \<Rightarrow> duration \<Rightarrow> bool" where
  "measured row kind seq service_us w sent received \<longleftrightarrow>
     cr_kind row = kind \<and> cr_seq row = seq \<and> cr_service_us row = service_us \<and> cr_worker_id row = Some w \<and>
     (\<exists>l. latency_us row = Some l \<and> sint l = int ((received - sent) div 1000))"

definition measured_row :: "u64 \<Rightarrow> string \<Rightarrow> u32 \<Rightarrow> u32 \<Rightarrow> u32 \<Rightarrow> duration \<Rightarrow> duration \<Rightarrow> string \<Rightarrow> conn_row" where
  "measured_row cid kind seq service_us w sent received label =
     row_ok cid seq kind w (now_ns sent) (now_ns received) service_us label"

lemma measured_row:
  "sent \<le> received \<Longrightarrow> received < 2 ^ 63 \<Longrightarrow>
    measured (measured_row cid kind seq service_us w sent received label) kind seq service_us w sent received"
  using now_ns_latency [of sent received] by (simp add: measured_def measured_row_def row_ok_def latency_us_def)

lemma fire_request_served:
  assumes "cuts_ok chop" and "io_conns s fd = Some \<lparr>buf = []\<rparr>"
    and "answer (request seq service_us sent) = reply (unat w) fd chop s (request seq service_us sent)"
  shows "fire_request (exchange_with answer sent received) seq service_us cid kind label =
    Some (True, measured_row cid kind seq service_us w sent received label)"
proof -
  have "decode_response (encode_response seq w send_ns (replicate RESPONSE_LEN 0)) = Some (seq, w, send_ns)" for send_ns
    using response_codec.dec_enc [of "replicate RESPONSE_LEN 0" "(seq, w, send_ns)"] by simp
  then show ?thesis
    using reply_to_request [OF assms(1,2), of "unat w"] assms(3)
    by (simp add: fire_request_def exchange_with_def Let_def measured_row_def)
qed

lemma conn_loop_fired:
  "Close_Due \<in> set ws \<Longrightarrow> burst_fired \<or> burst_spec = None \<Longrightarrow>
    conn_loop burst_spec ex cid label ws seq burst_fired rows = Some rows"
  by (induction burst_spec ex cid label ws seq burst_fired rows rule: conn_loop.induct) auto

section \<open>Properties\<close>

text \<open>
  C2: From the status table to the measured row: when the kernel, in whatever state the interleaved workers
  are in, selects worker \<open>w\<close> for a connection and that worker has accepted it, the worker was a
  candidate of the last publication. What the client then writes are the bytes \<open>req\<close> and, for the
  burst follow-up, \<open>req'\<close>: however the network cuts them, each makes the worker do exactly the work
  asked for, the service time the task was given and the one of the burst, and keep the connection
  as it was. The rows the load generator reports are the same for every server that answers these
  two messages as the worker does, whatever it does with other bytes: they name \<open>w\<close>, one for the
  connection and one for its burst when that comes before the close, each with its service time
  and the client's own time difference in whole microseconds.
\<close>

theorem connection_is_served_and_measured:
  fixes spec :: "burst_spec option" and service_us :: u32 and sent sent' :: duration
  assumes "cluster_reachable lfds p s" and "try_select (Some (mem_sel (cl_mem s))) ctx = Some w"
    and "cuts_ok chop" and "io_conns io fd = Some \<lparr>buf = []\<rparr>" and "Close_Due \<in> set ws"
    and "sent \<le> received" and "received < 2 ^ 63" and "sent' \<le> received'" and "received' < 2 ^ 63"
  defines "burst_us \<equiv> of_nat (as_micros (burst_service (the spec)))"
  defines "req \<equiv> request 0 service_us sent" and "req' \<equiv> request 1 burst_us sent'"
  shows "\<exists>io1 io2 row rest t snaps.
    deliver (unat w) fd chop io req = Some io1 \<and> io_conns io1 = io_conns io \<and>
    io_log io1 = io_log io @ served (unat w) fd (0, service_us, now_ns sent) \<and>
    deliver (unat w) fd chop io1 req' = Some io2 \<and> io_conns io2 = io_conns io \<and>
    io_log io2 = io_log io1 @ served (unat w) fd (1, burst_us, now_ns sent') \<and>
    (\<forall>answer answer'. answer req = reply (unat w) fd chop io req \<and> answer' req' = reply (unat w) fd chop io1 req' \<longrightarrow>
      run_connection False (exchange_with answer sent received) (exchange_with answer' sent' received')
        ws cid service_us spec label = Some (row # rest)) \<and>
    measured row ''accept'' 0 service_us w sent received \<and>
    (if hd ws = Burst_Due \<and> spec \<noteq> None
     then \<exists>row'. rest = [row'] \<and> measured row' ''burst'' 1 burst_us w sent' received' else rest = []) \<and>
    mem_pub (cl_mem s) = Some (t, snaps) \<and> unat w \<in> set (candidates_spec snaps t HANG_THRESHOLD_NS)"
proof -
  obtain t snaps where pub: "mem_pub (cl_mem s) = Some (t, snaps)" "unat w \<in> set (candidates_spec snaps t HANG_THRESHOLD_NS)"
    using selected_is_candidate [OF assms(1,2)] by blast
  obtain io1 where io1: "deliver (unat w) fd chop io req = Some io1" "io_conns io1 = io_conns io"
    "io_log io1 = io_log io @ served (unat w) fd (0, service_us, now_ns sent)"
    unfolding req_def by (rule deliver_request [OF assms(3,4)])
  have c1: "io_conns io1 fd = Some \<lparr>buf = []\<rparr>" using io1(2) assms(4) by simp
  obtain io2 where io2: "deliver (unat w) fd chop io1 req' = Some io2" "io_conns io2 = io_conns io1"
    "io_log io2 = io_log io1 @ served (unat w) fd (1, burst_us, now_ns sent')"
    unfolding req'_def by (rule deliver_request [OF assms(3) c1])
  let ?row = "measured_row cid ''accept'' 0 service_us w sent received label"
  let ?row' = "measured_row cid ''burst'' 1 burst_us w sent' received' label"
  let ?rest = "if hd ws = Burst_Due \<and> spec \<noteq> None then [?row'] else []"
  have "run_connection False (exchange_with answer sent received) (exchange_with answer' sent' received')
      ws cid service_us spec label = Some (?row # ?rest)"
    if a: "answer req = reply (unat w) fd chop io req" "answer' req' = reply (unat w) fd chop io1 req'" for answer answer'
  proof -
    note first = fire_request_served [where received = received and cid = cid and kind = "''accept''" and label = label,
        OF assms(3,4), of answer 0 service_us sent w, OF a(1) [unfolded req_def]]
    note second = fire_request_served [where received = received' and cid = cid and kind = "''burst''" and label = label,
        OF assms(3) c1, of answer' 1 burst_us sent' w, OF a(2) [unfolded req'_def]]
    obtain x ws' where ws: "ws = x # ws'" using assms(5) by (cases ws) auto
    have "conn_loop spec (exchange_with answer' sent' received') cid label ws 1 False [?row] = Some (?row # ?rest)"
    proof (cases "x = Burst_Due \<and> spec \<noteq> None")
      case True
      then have "Close_Due \<in> set ws'" using assms(5) ws by simp
      then show ?thesis using True second ws conn_loop_fired [of ws' True] by (simp add: burst_us_def Let_def)
    next
      case False
      then have "spec = None \<or> x = Close_Due" by (cases x) auto
      then show ?thesis using ws assms(5) conn_loop_fired [of ws False spec] by auto
    qed
    then show ?thesis using first by (simp add: run_connection_def)
  qed
  then show ?thesis
    using pub io1 io2 measured_row [OF assms(6,7)] measured_row [OF assms(8,9)]
    by (intro exI [of _ io1] exI [of _ io2] exI [of _ ?row] exI [of _ ?rest] exI [of _ t] exI [of _ snaps]) auto
qed

text \<open>A network that cuts after the first byte.\<close>

definition chop_first :: "u8 list \<Rightarrow> u8 list list" where
  "chop_first bs = (case bs of [] \<Rightarrow> [] | [b] \<Rightarrow> [[b]] | b # bs' \<Rightarrow> [[b], bs'])"

lemma chop_first_ok: "cuts_ok chop_first"
  by (auto simp: cuts_ok_def chop_first_def split: list.splits)

definition one_conn_io :: io where
  "one_conn_io = idle_io\<lparr>io_conns := [9 \<mapsto> \<lparr>buf = []\<rparr>]\<rparr>"

theorem connection_is_served_and_measured_witness:
  "\<exists>io1 row row'. run_connection False (exchange_with (reply 0 9 chop_first one_conn_io) 1000 3500000)
      (exchange_with (reply 0 9 chop_first io1) 4000000 4800000) [Burst_Due, Close_Due] 7 20
      (Some \<lparr>burst_at = 1000000, burst_service = 40000\<rparr>) ''run'' = Some [row, row'] \<and>
    measured row ''accept'' 0 20 0 1000 3500000 \<and> measured row' ''burst'' 1 40 0 4000000 4800000 \<and>
    0 \<in> set (candidates_spec idle_snapshots 1000 HANG_THRESHOLD_NS)"
proof -
  obtain s where s: "cluster_reachable (\<lambda>_. 4) Hermes s" "mem_sel (cl_mem s) = 15"
    "mem_pub (cl_mem s) = Some (1000, idle_snapshots)"
    using reaches_published by (auto simp: reaches_def idle_bitmap)
  have "try_select (Some 15) \<lparr>ip_protocol = 6, ctx_hash = 77\<rparr> = Some 0" by code_simp
  with s have sel: "try_select (Some (mem_sel (cl_mem s))) \<lparr>ip_protocol = 6, ctx_hash = 77\<rparr> = Some 0" by simp
  have c: "io_conns one_conn_io 9 = Some \<lparr>buf = []\<rparr>" by (simp add: one_conn_io_def)
  have us: "(of_nat (as_micros 40000) :: u32) = 40" by (simp add: as_micros_def)
  show ?thesis
    using connection_is_served_and_measured [OF s(1) sel chop_first_ok c, where ws = "[Burst_Due, Close_Due]"
        and sent = 1000 and received = 3500000 and sent' = 4000000 and received' = 4800000 and service_us = 20 and cid = 7
        and spec = "Some \<lparr>burst_at = 1000000, burst_service = 40000\<rparr>" and label = "''run''"] s(3) us
    by fastforce
qed

end
