(* ===== verification/Collector.thy ===== *)
theory Collector
  imports Bench_Client Buffered_Lines
begin

text \<open>
  The task \<open>collect\<close> of the load generator, \<open>hermes-bench/src/main.rs\<close>, with its file: it creates
  the file, writes a line per row as the rows arrive, counts them, flushes after every 256 rows and
  at the end, and stops at the first error. The writer keeps the contract \<open>flushed_lines\<close>, as the
  tick writer of the workers does.
\<close>

section \<open>The task\<close>

record collector =
  co_writer :: buf_writer
  co_counted :: "summary \<times> i64 list"
  co_since_flush :: u32

definition COLLECT_FLUSH :: u32 where
  "COLLECT_FLUSH = 256"

definition collect_start :: "errno option \<Rightarrow> write_env \<Rightarrow> errno + collector" where
  "collect_start create_error env =
     (case create_error of
        Some e \<Rightarrow> Inl e
      | None \<Rightarrow>
          case buf_write env (write_line csv_header) buf_create of
            Inl e \<Rightarrow> Inl e
          | Inr w \<Rightarrow> Inr \<lparr>co_writer = w, co_counted = (summary_default, []), co_since_flush = 0\<rparr>)"

definition collect_row :: "write_env \<Rightarrow> conn_row \<Rightarrow> collector \<Rightarrow> errno + collector" where
  "collect_row env row c =
     (case buf_write env (write_line (to_csv_line row)) (co_writer c) of
        Inl e \<Rightarrow> Inl e
      | Inr w \<Rightarrow>
          let c = c\<lparr>co_writer := w, co_counted := count_row row (co_counted c), co_since_flush := co_since_flush c + 1\<rparr>
          in if COLLECT_FLUSH \<le> co_since_flush c
             then case buf_flush (we_flush_error env) (co_writer c) of
               Inl e \<Rightarrow> Inl e
             | Inr w \<Rightarrow> Inr (c\<lparr>co_writer := w, co_since_flush := 0\<rparr>)
             else Inr c)"

definition collect_end :: "errno option \<Rightarrow> collector \<Rightarrow> errno + summary \<times> string" where
  "collect_end flush_error c =
     (case buf_flush flush_error (co_writer c) of
        Inl e \<Rightarrow> Inl e
      | Inr w \<Rightarrow> Inr (finish_summary (co_counted c), written w))"

text \<open>The whole task; the result has the contents of the file beside the summary.\<close>

definition collect_task ::
  "errno option \<Rightarrow> write_env \<Rightarrow> (write_env \<times> conn_row) list \<Rightarrow> errno option \<Rightarrow> errno + summary \<times> string" where
  "collect_task create_error env rows flush_error =
     (case collect_start create_error env of
        Inl e \<Rightarrow> Inl e
      | Inr c \<Rightarrow>
          case write_rows collect_row rows c of
            Inl e \<Rightarrow> Inl e
          | Inr c \<Rightarrow> collect_end flush_error c)"

section \<open>The writer\<close>

lemma collect_row_flushes:
  "collect_row env row c = Inr c' \<Longrightarrow> COLLECT_FLUSH \<le> co_since_flush c + 1 \<Longrightarrow>
    written (co_writer c') = written (co_writer c) @ buffered (co_writer c) @ write_line (to_csv_line row) \<and>
    buffered (co_writer c') = [] \<and> co_since_flush c' = 0"
  by (auto simp: collect_row_def buf_flush_Inr Let_def dest: buf_write_Inr split: sum.splits)

lemma collect_row_buffers:
  "collect_row env row c = Inr c' \<Longrightarrow> \<not> COLLECT_FLUSH \<le> co_since_flush c + 1 \<Longrightarrow>
    written (co_writer c') @ buffered (co_writer c') =
      written (co_writer c) @ buffered (co_writer c) @ write_line (to_csv_line row) \<and>
    prefix (written (co_writer c)) (written (co_writer c')) \<and> co_since_flush c' = co_since_flush c + 1"
  by (auto simp: collect_row_def Let_def dest: buf_write_Inr split: sum.splits)

interpretation collected_lines: flushed_lines co_writer co_since_flush COLLECT_FLUSH collect_row to_csv_line
  by unfold_locales (fact collect_row_flushes collect_row_buffers)+

lemma collect_start_ok:
  "collect_start create_error env = Inr c \<Longrightarrow>
    lines_ok COLLECT_FLUSH csv_header [] (co_writer c) (co_since_flush c) \<and> co_counted c = (summary_default, [])"
  by (auto simp: collect_start_def lines_ok_def lines_text_def COLLECT_FLUSH_def buf_create_def
      dest: buf_write_Inr split: option.splits sum.splits)

lemma collected_counts:
  "write_rows collect_row rows c = Inr c' \<Longrightarrow> co_counted c' = fold count_row (map snd rows) (co_counted c)"
proof (induction rows arbitrary: c)
  case (Cons m rows)
  obtain env row where m: "m = (env, row)" by fastforce
  with Cons.prems obtain c1 where c1: "collect_row env row c = Inr c1" "write_rows collect_row rows c1 = Inr c'"
    by (auto split: sum.splits)
  then have "co_counted c1 = count_row row (co_counted c)"
    by (auto simp: collect_row_def Let_def split: sum.splits if_splits)
  then show ?case using Cons.IH [OF c1(2)] m by simp
qed simp

lemma collect_file_text: "collect_file rows = lines_text csv_header (map to_csv_line rows)"
  by (simp add: collect_file_def lines_text_def comp_def)

text \<open>An error stops the task; without one, every row is in the file and in the summary.\<close>

lemma write_rows_fine:
  "\<forall>m\<in>set rows. we_write_error (fst m) = None \<and> we_flush_error (fst m) = None \<Longrightarrow>
    \<exists>c'. write_rows collect_row rows c = Inr c'"
proof (induction rows arbitrary: c)
  case (Cons m rows)
  obtain env row where m: "m = (env, row)" by fastforce
  with Cons.prems have "\<exists>c1. collect_row env row c = Inr c1"
    by (simp add: collect_row_def buf_write_def buf_flush_def Let_def)
  then show ?case using Cons.IH Cons.prems m by auto
qed simp

lemma collect_task_Inr:
  assumes "collect_task create_error env rows flush_error = Inr (s, contents)"
  shows "s = collect (map snd rows) \<and> contents = collect_file (map snd rows)"
proof -
  obtain c0 c where c: "collect_start create_error env = Inr c0" "write_rows collect_row rows c0 = Inr c"
    "collect_end flush_error c = Inr (s, contents)"
    using assms by (auto simp: collect_task_def split: sum.splits)
  note ok = collect_start_ok [OF c(1)]
  from collected_lines.rows_survive [OF conjunct1 [OF ok] c(2)]
  have "written (co_writer c) @ buffered (co_writer c) = collect_file (map snd rows)"
    by (auto simp: collect_file_text comp_def)
  then show ?thesis
    using ok collected_counts [OF c(2)] c(3)
    by (auto simp: collect_end_def buf_flush_Inr collect_def split: sum.splits)
qed

definition file_fine :: "errno option \<Rightarrow> write_env \<Rightarrow> (write_env \<times> conn_row) list \<Rightarrow> errno option \<Rightarrow> bool" where
  "file_fine create_error env rows flush_error \<longleftrightarrow>
     create_error = None \<and> we_write_error env = None \<and> flush_error = None \<and>
     list_all (\<lambda>m. we_write_error (fst m) = None \<and> we_flush_error (fst m) = None) rows"

lemma collect_task_fine:
  assumes "file_fine create_error env rows flush_error"
  shows "\<exists>r. collect_task create_error env rows flush_error = Inr r"
proof -
  obtain c0 where c0: "collect_start create_error env = Inr c0"
    using assms by (simp add: file_fine_def collect_start_def buf_write_def Let_def)
  obtain c where "write_rows collect_row rows c0 = Inr c"
    using write_rows_fine [of rows c0] assms by (auto simp: file_fine_def list_all_iff)
  then show ?thesis
    using c0 assms by (simp add: collect_task_def collect_end_def buf_flush_def file_fine_def)
qed

section \<open>Properties\<close>

text \<open>
  A killed load generator loses less than 256 rows: after any number of rows, whenever the buffer
  spilled, the file holds the header and all lines but fewer than 256, in order and whole; if the
  final flush succeeds, the file is complete and the summary counts exactly the rows that arrived.
\<close>

lemma conns_file_loses_few_rows:
  assumes "collect_start create_error env = Inr c0" and "write_rows collect_row rows c0 = Inr c"
  shows "(\<exists>lost. lost < 256 \<and> lost \<le> length rows \<and>
      (lost < length rows \<longrightarrow> prefix (collect_file (take (length rows - lost) (map snd rows))) (written (co_writer c)))) \<and>
    prefix (written (co_writer c)) (collect_file (map snd rows)) \<and>
    collect_end None c = Inr (collect (map snd rows), collect_file (map snd rows))"
proof -
  note ok = collect_start_ok [OF assms(1)]
  have "unat COLLECT_FLUSH = 256" by (simp add: COLLECT_FLUSH_def)
  with collected_lines.rows_survive [OF conjunct1 [OF ok] assms(2)] obtain lost where lost:
    "lost < 256" "lost \<le> length rows"
    "written (co_writer c) @ buffered (co_writer c) = collect_file (map snd rows)"
    "lost < length rows \<longrightarrow> prefix (collect_file (take (length rows - lost) (map snd rows))) (written (co_writer c))"
    by (auto simp: collect_file_text comp_def take_map)
  have "prefix (written (co_writer c)) (collect_file (map snd rows))" by (simp flip: lost(3))
  moreover have "collect_end None c = Inr (collect (map snd rows), collect_file (map snd rows))"
    using ok collected_counts [OF assms(2)] lost(3) by (simp add: collect_end_def buf_flush_def collect_def)
  ultimately show ?thesis using lost(1,2,4) by blast
qed

definition quiet_env :: write_env where
  "quiet_env = \<lparr>we_spill = 7, we_write_error = None, we_flush_error = None\<rparr>"

lemma conns_file_loses_few_rows_witness:
  "\<exists>c0 c. collect_start None quiet_env = Inr c0 \<and>
    write_rows collect_row [(quiet_env, row_failed 9 0 ''drop'' ''run'')] c0 = Inr c \<and>
    collect_end None c =
      Inr (collect [row_failed 9 0 ''drop'' ''run''], collect_file [row_failed 9 0 ''drop'' ''run''])"
proof -
  obtain c0 where c0: "collect_start None quiet_env = Inr c0"
    by (simp add: collect_start_def quiet_env_def buf_write_def Let_def)
  moreover obtain c where c: "write_rows collect_row [(quiet_env, row_failed 9 0 ''drop'' ''run'')] c0 = Inr c"
    using write_rows_fine [of "[(quiet_env, row_failed 9 0 ''drop'' ''run'')]" c0] by (auto simp: quiet_env_def)
  ultimately show ?thesis using conns_file_loses_few_rows [OF c0 c] by auto
qed

end
