(* ===== verification/Console_Text.thy ===== *)
theory Console_Text
  imports Balance Latency Std_Time
begin

text \<open>
  What the two front ends print: \<open>{:?}\<close> of a \<open>Duration\<close>, and latencies in milliseconds with one
  decimal, as in the last lines of \<open>userspace_simulation/src/main.rs\<close> and of
  \<open>hermes-bench/src/main.rs\<close>. A string is its UTF-8 bytes.
\<close>

section \<open>Durations\<close>

text \<open>\<open>k\<close> decimals of the fraction \<open>n\<close> of \<open>10 ^ k\<close>, without trailing zeros.\<close>

fun show_decimals :: "nat \<Rightarrow> nat \<Rightarrow> string" where
  "show_decimals 0 n = []"
| "show_decimals (Suc k) n =
     (if n = 0 then [] else digit_char (n div 10 ^ k) # show_decimals k (n mod 10 ^ k))"

definition show_decimal :: "nat \<Rightarrow> nat \<Rightarrow> string" where
  "show_decimal k n =
     show_nat (n div 10 ^ k) @ (if n mod 10 ^ k = 0 then [] else ''.'' @ show_decimals k (n mod 10 ^ k))"

definition show_duration :: "duration \<Rightarrow> string" where
  "show_duration d =
     (if 1000000000 \<le> d then show_decimal 9 d @ ''s''
      else if 1000000 \<le> d then show_decimal 6 d @ ''ms''
      else if 1000 \<le> d then show_decimal 3 d @ [CHR 0xC2, CHR 0xB5] @ ''s''
      else show_nat d @ ''ns'')"

text \<open>The digits are read back by the reader of numbers, once the zeros are restored.\<close>

lemma length_show_decimals: "length (show_decimals k n) \<le> k"
  by (induction k n rule: show_decimals.induct) auto

lemma parse_zeros: "parse_digits 10 acc (replicate k (CHR ''0'')) = Some (acc * 10 ^ k)"
  by (induction k arbitrary: acc) (simp_all add: digit_val_def mult.assoc)

lemma show_decimals_exact:
  "n < 10 ^ k \<Longrightarrow>
    parse_digits 10 acc (show_decimals k n @ replicate (k - length (show_decimals k n)) (CHR ''0'')) = Some (acc * 10 ^ k + n)"
proof (induction k n arbitrary: acc rule: show_decimals.induct)
  case (2 k n)
  show ?case
  proof (cases "n = 0")
    case True
    then show ?thesis using parse_zeros [of acc "Suc k"] by (simp del: replicate_Suc)
  next
    case False
    have d: "n div 10 ^ k < 10" using "2.prems" by (simp add: less_mult_imp_div_less)
    then have "digit_val 10 (digit_char (n div 10 ^ k)) = Some (n div 10 ^ k)" by simp
    then show ?thesis
      using "2.IH" [OF False, of "acc * 10 + n div 10 ^ k"] False length_show_decimals [of k "n mod 10 ^ k"]
      by (simp add: algebra_simps)
  qed
qed simp

section \<open>Milliseconds\<close>

text \<open>\<open>{:.1}\<close> of a number of microseconds divided by 1000.\<close>

definition show_ms :: "rat \<Rightarrow> string" where
  "show_ms us = show_fixed 1 (f64_div us 1000)"

lemma show_nat_length: "1 \<le> length (show_nat n)"
  unfolding show_nat_def using show_radix_not_empty [of 10 n] by (cases "show_radix 10 n") auto

lemma ulp_le:
  assumes "0 < x" and "x \<le> 2 ^ n"
  shows "ulp x \<le> 2 ^ n / 2 ^ 52"
proof -
  have "\<not> int n < f64_exp x"
  proof
    assume "int n < f64_exp x"
    then have "(2 :: rat) powi (int n + 1) \<le> 2 powi f64_exp x" by (intro powi2_mono) simp
    then have "2 * (2 :: rat) ^ n \<le> x" using f64_exp_bounds(1) [of x] assms(1) by (simp add: power_int_add)
    moreover have "(0 :: rat) < 2 ^ n" by simp
    ultimately show False using assms(2) by linarith
  qed
  then have "ulp x \<le> 2 powi (int n - 52)" unfolding ulp_def by (intro powi2_mono) simp
  then show ?thesis by (simp add: power_int_diff)
qed

lemma tenths_near:
  assumes "0 \<le> us" and "us \<le> 2 ^ 50"
  shows "\<bar>100 * round_even (f64_div (of_int us) 1000 * 10) - us\<bar> \<le> 50" and "0 \<le> f64_div (of_int us) 1000"
proof -
  let ?x = "of_int us / 1000 :: rat"
  have r: "f64_div (of_int us) 1000 = f64_round ?x" by (simp add: f64_div_def)
  show "0 \<le> f64_div (of_int us) 1000" unfolding r using assms(1) by (intro f64_round_nonneg) simp
  have "\<bar>f64_round ?x - ?x\<bar> \<le> 1 / 2 ^ 12"
  proof (cases "us = 0")
    case False
    have "(of_int us :: rat) \<le> of_int (2 ^ 50)" using assms(2) by (simp only: of_int_le_iff)
    then have "?x \<le> 2 ^ 41" by simp
    then have "ulp ?x \<le> 2 ^ 41 / 2 ^ 52" using assms(1) False by (intro ulp_le) simp_all
    then show ?thesis using f64_round_error [of ?x] by simp
  qed simp
  then have "\<bar>f64_round ?x * 1000 - of_int us\<bar> < (1 / 2 :: rat)" unfolding abs_le_iff abs_less_iff by simp
  moreover have "\<bar>of_int (round_even (f64_round ?x * 10)) - f64_round ?x * 10\<bar> \<le> 1 / 2" by (rule round_even_error)
  ultimately have "\<bar>of_int (100 * round_even (f64_round ?x * 10) - us)\<bar> < (of_int 51 :: rat)"
    unfolding abs_le_iff abs_less_iff by simp
  then show "\<bar>100 * round_even (f64_div (of_int us) 1000 * 10) - us\<bar> \<le> 50"
    unfolding r of_int_abs [symmetric] of_int_less_iff by simp
qed

lemma show_ms_nearest:
  assumes "0 \<le> us" and "us \<le> 2 ^ 50"
  shows "\<exists>t. show_ms (of_int us) = show_nat (t div 10) @ ''.'' @ show_nat (t mod 10) \<and> \<bar>100 * int t - us\<bar> \<le> 50"
proof -
  let ?y = "f64_div (of_int us) 1000"
  have "0 \<le> round_even (?y * 10)" using tenths_near(2) [OF assms] round_even_mono [of 0 "?y * 10"] by simp
  moreover have "show_ms (of_int us) = show_nat (nat (round_even (?y * 10)) div 10) @ ''.'' @ show_nat (nat (round_even (?y * 10)) mod 10)"
    using tenths_near(2) [OF assms] show_nat_length
    by (simp add: show_ms_def show_fixed_def pad_left_def Let_def)
  ultimately show ?thesis using tenths_near(1) [OF assms] by (intro exI [of _ "nat (round_even (?y * 10))"]) simp
qed

section \<open>Properties\<close>

text \<open>
  The printed latencies are right to the last digit: for every latency up to \<open>2 ^ 50\<close> microseconds,
  although it is divided in floating point, the text is a decimal number with one decimal and no
  other such number is closer to the exact milliseconds.
\<close>

lemma printed_latency_is_nearest:
  assumes "0 \<le> sint (us :: i64)" and "sint us \<le> 2 ^ 50"
  shows "\<exists>t. show_ms (f64_of_int (sint us)) = show_nat (t div 10) @ ''.'' @ show_nat (t mod 10) \<and>
    (\<forall>t'. \<bar>int t * 100 - sint us\<bar> \<le> \<bar>int t' * 100 - sint us\<bar>)"
proof -
  have "f64_of_int (sint us) = of_int (sint us)" using assms by (intro f64_of_int_exact) simp
  then obtain t where t: "show_ms (f64_of_int (sint us)) = show_nat (t div 10) @ ''.'' @ show_nat (t mod 10)"
    "\<bar>100 * int t - sint us\<bar> \<le> 50"
    using show_ms_nearest [OF assms] by auto
  have "\<bar>int t * 100 - sint us\<bar> \<le> \<bar>int t' * 100 - sint us\<bar>" for t'
  proof -
    consider "t' = t" | "int t + 1 \<le> int t'" | "int t' + 1 \<le> int t" by linarith
    then show ?thesis using t(2) by cases linarith+
  qed
  with t(1) show ?thesis by blast
qed

lemma printed_latency_is_nearest_witness:
  "\<exists>t. show_ms (f64_of_int (sint (1250 :: i64))) = show_nat (t div 10) @ ''.'' @ show_nat (t mod 10) \<and> t \<in> {12, 13}"
proof -
  have "sint (1250 :: i64) = 1250" by simp
  then obtain t where "show_ms (f64_of_int (sint (1250 :: i64))) = show_nat (t div 10) @ ''.'' @ show_nat (t mod 10)"
    "\<forall>t'. \<bar>int t * 100 - 1250\<bar> \<le> \<bar>int t' * 100 - 1250\<bar>"
    using printed_latency_is_nearest [of 1250] by auto
  moreover from this(2) have "\<bar>int t * 100 - 1250\<bar> \<le> \<bar>int 12 * 100 - 1250\<bar>" by blast
  then have "t \<in> {12, 13}" by auto
  ultimately show ?thesis by blast
qed

end
