(* ===== verification/Bench_Process.thy ===== *)
theory Bench_Process
  imports Bench_Main Collector Console_Text
begin

text \<open>
  The load generator as a process, \<open>main\<close> of \<open>hermes-bench/src/main.rs\<close>: the profile, the address,
  the collector's task beside the spawning loop, and how the process ends. The command line is its
  parsed fields, parsing an address is a parameter, and so is what the spawned tasks report, with
  what the file system does to each row.
\<close>

section \<open>The process\<close>

record cli =
  cli_host :: string
  cli_port :: u16
  cli_case :: "string option"
  cli_load :: "string option"
  cli_seed :: u64
  cli_label :: string
  cli_out :: string

text \<open>The defaults of the options.\<close>

definition cli_default :: cli where
  "cli_default = \<lparr>cli_host = ''127.0.0.1'', cli_port = DEFAULT_PORT, cli_case = None, cli_load = None, cli_seed = 0,
     cli_label = ''run'', cli_out = ''conns.csv''\<rparr>"

datatype bench_exit =
    Bad_Profile cli_error
  | Bad_Address string
  | Interval_Panicked
  | Collecting_Failed errno
  | Bench_Finished u64 summary string string

definition latency_text :: "summary \<Rightarrow> string" where
  "latency_text s =
     (if 0 < completed s
      then write_line (''latency (send->recv): mean='' @ show_ms (mean_us s) @
        ''ms p50='' @ show_ms (f64_of_int (sint (p50_us s))) @
        ''ms p99='' @ show_ms (f64_of_int (sint (p99_us s))) @
        ''ms max='' @ show_ms (f64_of_int (sint (max_us s))) @ ''ms'')
      else [])"

text \<open>The last two arguments of a finished run are the file and the standard output.\<close>

definition bench_main ::
  "(string \<Rightarrow> 'addr option) \<Rightarrow> ('addr \<Rightarrow> string \<Rightarrow> spawned list \<Rightarrow> (write_env \<times> conn_row) list) \<Rightarrow>
    errno option \<Rightarrow> write_env \<Rightarrow> errno option \<Rightarrow> cli \<Rightarrow> bench_exit option" where
  "bench_main parse_addr traffic create_error env flush_error args =
     (case select_config (cli_case args) (cli_load args) of
        Inl e \<Rightarrow> Some (Bad_Profile e)
      | Inr cfg \<Rightarrow>
          (let text = cli_host args @ '':'' @ show_nat (unat (cli_port args))
           in case parse_addr text of
                None \<Rightarrow> Some (Bad_Address text)
              | Some addr \<Rightarrow>
                  (case bench_run cfg (cli_seed args) of
                     None \<Rightarrow> None
                   | Some (Inl panic) \<Rightarrow> Some Interval_Panicked
                   | Some (Inr (n, tasks)) \<Rightarrow>
                       (case collect_task create_error env (traffic addr (cli_label args) tasks) flush_error of
                          Inl e \<Rightarrow> Some (Collecting_Failed e)
                        | Inr (s, contents) \<Rightarrow> Some (Bench_Finished n s contents (latency_text s))))))"

section \<open>Every profile has a rate and an end\<close>

definition profile_ok :: "Bench_Workload.workload_config \<Rightarrow> bool" where
  "profile_ok cfg \<longleftrightarrow> 0 < unat (Bench_Workload.cps cfg) \<and> unat (Bench_Workload.cps cfg) \<le> 1000000000 \<and>
     Bench_Workload.duration_of cfg \<le> 4000000000"

lemma profiles_ok:
  "profile_ok Bench_Workload.default_case" "profile_ok (Bench_Workload.for_case c)"
  "profile_ok (Bench_Workload.for_case_with_load c l)"
proof -
  show l: "profile_ok (Bench_Workload.for_case_with_load c l)" for c l
    by (cases c; cases l)
      (simp_all add: profile_ok_def Bench_Workload.for_case_with_load_def Bench_Workload.base_case_def from_secs_def)
  show "profile_ok (Bench_Workload.for_case c)" by (simp add: Bench_Workload.for_case_def l)
  show "profile_ok Bench_Workload.default_case"
    by (simp add: profile_ok_def Bench_Workload.default_case_def from_millis_def)
qed

lemma selected_profile_ok: "select_config case_arg load_arg = Inr cfg \<Longrightarrow> profile_ok cfg"
  using profiles_ok by (auto simp: select_config_def split: option.splits)

lemma ceil_div_le: "0 < b \<Longrightarrow> ceil_div a b \<le> a"
  by (simp add: ceil_div_le_iff)

lemma bench_run_spawns:
  assumes "profile_ok cfg"
  shows "\<exists>n. n \<le> 4000000000 \<and>
    bench_run cfg seed = Some (Inr (of_nat n, map (\<lambda>k. spawn_task cfg seed (of_nat k)) [0..<n]))"
proof -
  obtain interval where i: "gen_interval (Bench_Workload.cps cfg) = Some interval" "0 < interval"
    using gen_interval_pos assms by (auto simp: profile_ok_def)
  then have "bench_interval (Bench_Workload.cps cfg) = Some interval"
    by (simp add: bench_interval_def gen_interval_def)
  from bench_run_tasks [OF this i(2)] show ?thesis
    using ceil_div_le [OF i(2), of "Bench_Workload.duration_of cfg"] assms
    by (intro exI [of _ "ceil_div (Bench_Workload.duration_of cfg) interval"]) (simp add: Let_def profile_ok_def)
qed

section \<open>What the tasks report\<close>

text \<open>
  What a task meets. Two things are known of it: \<open>read_exact\<close> fails or fills its buffer, and the
  deadline of the connection comes.
\<close>

record task_env =
  te_connect_failed :: bool
  te_first :: exchange
  te_second :: exchange
  te_wakeups :: "wakeup list"

definition fills_buffer :: "exchange \<Rightarrow> bool" where
  "fills_buffer ex \<longleftrightarrow> (\<forall>bs resp. ex_response ex bs = Some resp \<longrightarrow> length resp = RESPONSE_LEN)"

definition task_env_ok :: "task_env \<Rightarrow> bool" where
  "task_env_ok e \<longleftrightarrow> fills_buffer (te_first e) \<and> fills_buffer (te_second e) \<and> Close_Due \<in> set (te_wakeups e)"

definition run_task :: "string \<Rightarrow> spawned \<Rightarrow> task_env \<Rightarrow> Bench_Client.conn_row list option" where
  "run_task label t e = run_connection (te_connect_failed e) (te_first e) (te_second e) (te_wakeups e)
     (sp_conn_id t) (sp_service_us t) (sp_burst t) label"

text \<open>A task that panics, or that does not end, would report nothing.\<close>

definition task_rows :: "string \<Rightarrow> spawned \<Rightarrow> task_env \<Rightarrow> Bench_Client.conn_row list" where
  "task_rows label t e = (case run_task label t e of Some rows \<Rightarrow> rows | None \<Rightarrow> [])"

lemma decode_response_whole: "length resp = RESPONSE_LEN \<Longrightarrow> decode_response resp \<noteq> None"
  by (simp add: decode_response_def array_of_def RESPONSE_LEN_def)

lemma fire_request_returns: "fills_buffer ex \<Longrightarrow> fire_request ex seq cost cid kind label \<noteq> None"
  using decode_response_whole by (fastforce simp: fire_request_def fills_buffer_def Let_def split: option.splits)

lemma conn_loop_returns:
  "fills_buffer ex \<Longrightarrow> Close_Due \<in> set ws \<Longrightarrow> conn_loop burst_spec ex cid label ws seq burst_fired rows \<noteq> None"
proof (induction burst_spec ex cid label ws seq burst_fired rows rule: conn_loop.induct)
  case (3 burst_spec ex cid label ws seq burst_fired rows)
  let ?cost = "of_nat (as_micros (Bench_Workload.burst_service (the burst_spec)))"
  obtain ok row where f: "fire_request ex seq ?cost cid ''burst'' label = Some (ok, row)"
    using fire_request_returns [OF "3.prems"(1)] by fast
  have c: "Close_Due \<in> set ws" using "3.prems"(2) by simp
  show ?case
  proof (cases "\<not> burst_fired \<and> burst_spec \<noteq> None")
    case True
    then show ?thesis using "3.IH"(1) [OF True refl f refl _ "3.prems"(1) c] f by (cases ok) (simp_all add: Let_def)
  next
    case False
    then show ?thesis using "3.IH"(2) [OF False "3.prems"(1) c] by auto
  qed
qed simp_all

text \<open>No task does.\<close>

lemma task_returns:
  assumes "task_env_ok e"
  shows "run_task label t e = Some (task_rows label t e)"
proof -
  obtain ok row where f: "fire_request (te_first e) 0 (sp_service_us t) (sp_conn_id t) ''accept'' label = Some (ok, row)"
    using assms fire_request_returns [of "te_first e"] unfolding task_env_ok_def by fast
  have "run_task label t e \<noteq> None"
    using assms conn_loop_returns [of "te_second e" "te_wakeups e"]
    by (simp add: run_task_def run_connection_def task_env_ok_def f)
  then show ?thesis by (auto simp: task_rows_def)
qed

text \<open>The channel keeps the order of each sender and interleaves the senders in any way.\<close>

fun interleaved :: "'a list list \<Rightarrow> 'a list \<Rightarrow> bool" where
  "interleaved [] zs \<longleftrightarrow> zs = []"
| "interleaved (xs # xss) zs \<longleftrightarrow> (\<exists>ys. interleaved xss ys \<and> zs \<in> shuffles xs ys)"

definition arrives_from :: "string \<Rightarrow> spawned list \<Rightarrow> Bench_Client.conn_row list \<Rightarrow> bool" where
  "arrives_from label tasks rows \<longleftrightarrow> (\<exists>envs. length envs = length tasks \<and> list_all task_env_ok envs \<and>
     interleaved (map2 (task_rows label) tasks envs) rows)"

lemma interleaved_set: "interleaved xss zs \<Longrightarrow> set zs = (\<Union>xs\<in>set xss. set xs)"
  by (induction xss arbitrary: zs) (auto simp: set_shuffles)

lemma interleaved_filter: "interleaved xss zs \<Longrightarrow> interleaved (map (filter P) xss) (filter P zs)"
proof (induction xss arbitrary: zs)
  case (Cons xs xss)
  then obtain ys where "interleaved xss ys" "zs \<in> shuffles xs ys" by auto
  moreover have "filter P zs \<in> shuffles (filter P xs) (filter P ys)"
    using \<open>zs \<in> shuffles xs ys\<close> filter_shuffles [of P xs ys] by blast
  ultimately show ?case using Cons.IH by auto
qed simp

lemma interleaved_nothing: "interleaved xss zs \<Longrightarrow> \<forall>xs\<in>set xss. xs = [] \<Longrightarrow> zs = []"
  by (induction xss arbitrary: zs) auto

lemma interleaved_only:
  "interleaved xss zs \<Longrightarrow> k < length xss \<Longrightarrow> \<forall>j<length xss. j \<noteq> k \<longrightarrow> xss ! j = [] \<Longrightarrow> zs = xss ! k"
proof (induction xss arbitrary: zs k)
  case (Cons xs xss)
  then obtain ys where y: "interleaved xss ys" "zs \<in> shuffles xs ys" by auto
  show ?case
  proof (cases k)
    case 0
    have "xss ! i = []" if "i < length xss" for i using Cons.prems(3) [rule_format, of "Suc i"] that 0 by simp
    then have "\<forall>xs\<in>set xss. xs = []" by (auto simp: in_set_conv_nth)
    then show ?thesis using y interleaved_nothing [OF y(1)] 0 by simp
  next
    case (Suc j)
    then have "xs = []" using Cons.prems(3) by force
    moreover have "ys = xss ! j" using Cons.IH [OF y(1), of j] Cons.prems(2,3) Suc by force
    ultimately show ?thesis using y(2) Suc by simp
  qed
qed simp

lemma task_rows_reported:
  assumes "task_env_ok e"
  shows "reported (task_rows label t e)" and "\<forall>row\<in>set (task_rows label t e). cr_conn_id row = sp_conn_id t"
    and "\<forall>row\<in>set (task_rows label t e). cr_label row = label"
  using run_connection_rows [OF task_returns [OF assms, unfolded run_task_def]] task_returns [OF assms, of label t]
  unfolding reported_def run_task_def by blast+

lemma rows_of_connection:
  assumes "length envs = length tasks" and "list_all task_env_ok envs" and "interleaved (map2 (task_rows label) tasks envs) rows"
    and "distinct (map sp_conn_id tasks)" and "k < length tasks"
  shows "filter (\<lambda>row. cr_conn_id row = sp_conn_id (tasks ! k)) rows = task_rows label (tasks ! k) (envs ! k)"
proof -
  let ?P = "\<lambda>row. cr_conn_id row = sp_conn_id (tasks ! k)" and ?runs = "map2 (task_rows label) tasks envs"
  have r: "\<forall>row\<in>set (?runs ! j). cr_conn_id row = sp_conn_id (tasks ! j)" if "j < length ?runs" for j
  proof -
    have "task_env_ok (envs ! j)" using assms(1,2) that by (simp add: list_all_length)
    from task_rows_reported(2) [OF this] show ?thesis using assms(1) that by simp
  qed
  have "sp_conn_id (tasks ! j) \<noteq> sp_conn_id (tasks ! k)" if "j < length tasks" "j \<noteq> k" for j
    using assms(4,5) that nth_eq_iff_index_eq [of "map sp_conn_id tasks" j k] by simp
  then have "\<forall>j<length ?runs. j \<noteq> k \<longrightarrow> map (filter ?P) ?runs ! j = []"
    using r assms(1) by (fastforce simp: filter_empty_conv)
  with interleaved_only [OF interleaved_filter [OF assms(3), of ?P], of k]
  have "filter ?P rows = map (filter ?P) ?runs ! k" using assms(1,5) by simp
  also have "\<dots> = ?runs ! k" using r [of k] assms(1,5) by (simp add: filter_id_conv)
  finally show ?thesis using assms(1,5) by simp
qed

lemma word_of_small: "n \<le> 4000000000 \<Longrightarrow> unat (of_nat n :: u64) = n"
  by (simp add: unat_of_nat)

lemma spawned_ids:
  assumes "n \<le> 4000000000"
  shows "distinct (map sp_conn_id (map (\<lambda>k. spawn_task cfg seed (of_nat k)) [0..<n]))"
proof -
  have "inj_on (\<lambda>k. of_nat k :: u64) {0..<n}"
    using assms word_of_small by (intro inj_on_inverseI [of _ unat]) simp
  then show ?thesis by (simp add: spawn_task_def Let_def distinct_map comp_def)
qed

lemma collected_run:
  assumes "arrives_from label (map (\<lambda>k. spawn_task cfg seed (of_nat k)) [0..<n]) rows" and "n \<le> 4000000000"
  shows "CHR '','' \<notin> set label \<and> clean_line label \<longrightarrow>
      map (\<lambda>l. read_row (split_on (CHR '','') l)) (tl (file_lines (collect_file rows))) = map Some rows"
    and "\<forall>row\<in>set rows. cr_conn_id row < of_nat n"
    and "k < n \<Longrightarrow> map cr_kind (filter (\<lambda>row. cr_conn_id row = of_nat k) rows)
      \<in> {[''drop''], [''error''], [''accept''], [''accept'', ''burst''], [''accept'', ''error'']}"
proof -
  let ?tasks = "map (\<lambda>k. spawn_task cfg seed (of_nat k)) [0..<n]"
  obtain envs where envs: "length envs = length ?tasks" "list_all task_env_ok envs"
    "interleaved (map2 (task_rows label) ?tasks envs) rows"
    using assms(1) by (auto simp: arrives_from_def)
  have ok: "task_env_ok (envs ! k)" if "k < n" for k using envs(1,2) that by (simp add: list_all_length)
  have row: "cr_kind row \<in> {''accept'', ''burst'', ''error'', ''drop''} \<and> cr_label row = label \<and>
      (\<exists>k<n. cr_conn_id row = of_nat k)" if r: "row \<in> set rows" for row
  proof -
    obtain R where R: "R \<in> set (map2 (task_rows label) ?tasks envs)" "row \<in> set R"
      using interleaved_set [OF envs(3)] r by blast
    then obtain j where j: "j < n" "R = task_rows label (?tasks ! j) (envs ! j)"
      using envs(1) by (auto simp: in_set_conv_nth)
    have "cr_kind row \<in> set (map cr_kind R)" using R(2) by simp
    then have "cr_kind row \<in> {''accept'', ''burst'', ''error'', ''drop''}"
      using reported_kinds [OF task_rows_reported(1) [OF ok [OF j(1)], of label "?tasks ! j"]] j(2) by auto
    then show ?thesis using task_rows_reported(2,3) [OF ok [OF j(1)], of label "?tasks ! j"] R(2) j
      by (auto simp: spawn_task_def Let_def)
  qed
  show "CHR '','' \<notin> set label \<and> clean_line label \<longrightarrow>
      map (\<lambda>l. read_row (split_on (CHR '','') l)) (tl (file_lines (collect_file rows))) = map Some rows"
    using collected_file_reads_back [of rows label] row by fastforce
  show "\<forall>row\<in>set rows. cr_conn_id row < of_nat n"
    using row assms(2) word_of_small by (fastforce simp: word_less_nat_alt)
  assume k: "k < n"
  then have "sp_conn_id (?tasks ! k) = of_nat k" by (simp add: spawn_task_def Let_def)
  then show "map cr_kind (filter (\<lambda>row. cr_conn_id row = of_nat k) rows)
      \<in> {[''drop''], [''error''], [''accept''], [''accept'', ''burst''], [''accept'', ''error'']}"
    using rows_of_connection [OF envs spawned_ids [OF assms(2)], of k] k
      reported_kinds [OF task_rows_reported(1) [OF ok [OF k], of label "?tasks ! k"]] by simp
qed

section \<open>Properties\<close>

text \<open>
  C8: The load generator ends for every command line, and no connection goes unreported: it refuses
  unknown words and addresses, and an I/O failure of its file ends it with that error. Otherwise,
  whatever the tasks meet, as long as every read fails or fills its buffer and every deadline comes,
  no task panics, and in whatever order their rows arrive, the summary's completed, failed and
  dropped rows are all the rows there are; every connection \<open>k\<close> has reported, with one accepted,
  failed or dropped row, an accepted one followed at most by its burst or the failure of it; and,
  if the label has no comma and no line break, the file read back is the rows.
\<close>

theorem load_run_is_reported:
  assumes "\<And>addr label tasks. arrives_from label tasks (map snd (traffic addr label tasks))"
  shows "\<exists>r. bench_main parse_addr traffic create_error env flush_error args = Some r \<and>
    (case r of
       Bad_Profile e \<Rightarrow> select_config (cli_case args) (cli_load args) = Inl e
     | Bad_Address text \<Rightarrow> parse_addr text = None
     | Interval_Panicked \<Rightarrow> False
     | Collecting_Failed e \<Rightarrow> \<exists>addr tasks. \<not> file_fine create_error env (traffic addr (cli_label args) tasks) flush_error
     | Bench_Finished n s contents out \<Rightarrow> \<exists>rows.
         (CHR '','' \<notin> set (cli_label args) \<and> clean_line (cli_label args) \<longrightarrow>
           map (\<lambda>l. read_row (split_on (CHR '','') l)) (tl (file_lines contents)) = map Some rows) \<and>
         completed s + errors s + drops s = length rows \<and> (out \<noteq> [] \<longleftrightarrow> 0 < completed s) \<and>
         (\<forall>row\<in>set rows. cr_conn_id row < n) \<and>
         (\<forall>k<unat n. map cr_kind (filter (\<lambda>row. cr_conn_id row = of_nat k) rows)
            \<in> {[''drop''], [''error''], [''accept''], [''accept'', ''burst''], [''accept'', ''error'']}))"
proof (cases "select_config (cli_case args) (cli_load args)")
  case (Inr cfg)
  let ?text = "cli_host args @ '':'' @ show_nat (unat (cli_port args))"
  show ?thesis
  proof (cases "parse_addr ?text")
    case (Some addr)
    obtain n where n: "n \<le> 4000000000"
      "bench_run cfg (cli_seed args) = Some (Inr (of_nat n, map (\<lambda>k. spawn_task cfg (cli_seed args) (of_nat k)) [0..<n]))"
      using bench_run_spawns [OF selected_profile_ok [OF Inr]] by blast
    let ?tasks = "map (\<lambda>k. spawn_task cfg (cli_seed args) (of_nat k)) [0..<n]"
    let ?arrived = "traffic addr (cli_label args) ?tasks"
    show ?thesis
    proof (cases "collect_task create_error env ?arrived flush_error")
      case (Inl e)
      then have "\<not> file_fine create_error env ?arrived flush_error"
        using collect_task_fine [of create_error env ?arrived flush_error] by auto
      then show ?thesis using Inl \<open>select_config _ _ = Inr cfg\<close> Some n(2) by (auto simp: bench_main_def Let_def)
    next
      case (Inr sc)
      obtain s contents where sc: "sc = (s, contents)" by fastforce
      note r = collect_task_Inr [OF Inr [unfolded sc]]
      note rows = collected_run [OF assms [of "cli_label args" ?tasks addr] n(1)]
      have "completed s + errors s + drops s = length (map snd ?arrived)"
        using r collect_counts [of "map snd ?arrived"] count_partition [of "map snd ?arrived"] by simp
      moreover have "latency_text s \<noteq> [] \<longleftrightarrow> 0 < completed s" by (simp add: latency_text_def write_line_def)
      moreover have "bench_main parse_addr traffic create_error env flush_error args =
          Some (Bench_Finished (of_nat n) s contents (latency_text s))"
        using Inr sc \<open>select_config _ _ = Inr cfg\<close> Some n(2) by (simp add: bench_main_def Let_def)
      ultimately show ?thesis
        using r rows word_of_small [OF n(1)] by (auto intro!: exI [of _ "map snd ?arrived"])
    qed
  qed (use Inr in \<open>simp add: bench_main_def Let_def\<close>)
qed (simp add: bench_main_def)

text \<open>A server that refuses every connection.\<close>

definition refused :: "unit \<Rightarrow> string \<Rightarrow> spawned list \<Rightarrow> (write_env \<times> conn_row) list" where
  "refused addr label tasks = map (\<lambda>t. (quiet_env, row_failed (sp_conn_id t) 0 ''drop'' label)) tasks"

lemma interleaved_singles: "interleaved (map (\<lambda>x. [f x]) xs) (map f xs)"
proof (induction xs)
  case (Cons x xs)
  have "f x # map f xs \<in> shuffles [f x] (map f xs)" by (rule Cons_in_shuffles_leftI) simp
  with Cons show ?case by auto
qed simp

lemma refused_arrives: "arrives_from label tasks (map snd (refused addr label tasks))"
proof -
  let ?f = "\<lambda>t. row_failed (sp_conn_id t) 0 ''drop'' label"
  let ?ex = "\<lparr>ex_send_elapsed = 0, ex_write_failed = True, ex_response = (\<lambda>bs. None), ex_recv_elapsed = 0\<rparr>"
  let ?e = "\<lparr>te_connect_failed = True, te_first = ?ex, te_second = ?ex, te_wakeups = [Close_Due]\<rparr>"
  have "task_env_ok ?e" by (simp add: task_env_ok_def fills_buffer_def)
  then have "list_all task_env_ok (replicate (length tasks) ?e)" by (simp add: list_all_length)
  moreover have "task_rows label t ?e = [?f t]" for t by (simp add: task_rows_def run_task_def run_connection_def)
  then have "map2 (task_rows label) tasks (replicate (length tasks) ?e) = map (\<lambda>t. [?f t]) tasks"
    by (simp add: list_eq_iff_nth_eq)
  ultimately show ?thesis
    using interleaved_singles [of ?f tasks] unfolding arrives_from_def
    by (intro exI [of _ "replicate (length tasks) ?e"]) (simp add: refused_def comp_def)
qed

definition sample_cli :: cli where
  "sample_cli = cli_default\<lparr>cli_case := Some ''3'', cli_seed := 7\<rparr>"

theorem load_run_is_reported_witness:
  "\<exists>n s contents out. bench_main (\<lambda>text. Some ()) refused None quiet_env None sample_cli =
      Some (Bench_Finished n s contents out) \<and> (out \<noteq> [] \<longleftrightarrow> 0 < completed s)"
proof -
  have c: "select_config (cli_case sample_cli) (cli_load sample_cli) = Inr (Bench_Workload.for_case Bench_Workload.Case3)"
    by (simp add: sample_cli_def cli_default_def select_config_def workload_case_from_str_def)
  have f: "file_fine None quiet_env (refused addr label tasks) None" for addr label tasks
    by (simp add: file_fine_def quiet_env_def refused_def list_all_iff)
  note t = load_run_is_reported [of refused "\<lambda>text. Some ()" None quiet_env None sample_cli, OF refused_arrives]
  then obtain r where "bench_main (\<lambda>text. Some ()) refused None quiet_env None sample_cli = Some r" by blast
  then show ?thesis using t f c by (cases r) auto
qed

end
