(* ===== verification/Sim_Process.thy ===== *)
theory Sim_Process
  imports Sim_Main Console_Text
begin

text \<open>
  The simulation as a process, \<open>main\<close> of \<open>userspace_simulation/src/main.rs\<close> around \<open>Sim_Main\<close>: the
  settings it takes from its environment variables, the directory and the names of the workers'
  shard files, the lines on both consoles, and how it ends. The environment is a function from
  names to values, \<open>files\<close> what opening a path yields once the workers have exited; strings are
  UTF-8 bytes.
\<close>

section \<open>Settings and paths\<close>

definition env_or :: "(string \<Rightarrow> string option) \<Rightarrow> string \<Rightarrow> string \<Rightarrow> string" where
  "env_or getenv name fallback = (case getenv name of Some v \<Rightarrow> v | None \<Rightarrow> fallback)"

definition verbose_of_env :: "string option \<Rightarrow> bool" where
  "verbose_of_env env = (case env of Some v \<Rightarrow> v = ''1'' | None \<Rightarrow> False)"

definition shard_dir :: "string \<Rightarrow> nat \<Rightarrow> string" where
  "shard_dir temp_dir pid = path_join temp_dir (''micro_hermes_shards_'' @ show_nat pid)"

definition tick_shard_path :: "string \<Rightarrow> nat \<Rightarrow> string" where
  "tick_shard_path dir i = path_join dir (''w'' @ show_nat i @ ''_ticks.csv'')"

definition conn_shard_path :: "string \<Rightarrow> nat \<Rightarrow> string" where
  "conn_shard_path dir i = path_join dir (''w'' @ show_nat i @ ''_conns.csv'')"

section \<open>Console lines\<close>

definition arrow :: string where
  "arrow = [CHR 0xE2, CHR 0x86, CHR 0x92]"

definition rule_of :: "nat \<Rightarrow> string" where
  "rule_of n = concat (replicate n [CHR 0xE2, CHR 0x94, CHR 0x80])"

definition banner_text :: "Sim_Dispatcher.policy \<Rightarrow> string \<Rightarrow> workload_config \<Rightarrow> u64 \<Rightarrow> string \<Rightarrow> string \<Rightarrow> string" where
  "banner_text p case_str cfg seed metrics_path conns_path =
     write_line (''[main] policy='' @ policy_as_str p @ '' case='' @ case_str @ '' cps='' @ show_nat (unat (cps cfg)) @
       '' duration='' @ show_duration (duration_of cfg) @ '' seed='' @ show_nat (unat seed) @ '' '' @ arrow @ '' '' @
       metrics_path @ '', '' @ conns_path)"

text \<open>What is printed after a merge, with its rows or its error.\<close>

definition merge_text ::
  "(errno \<Rightarrow> string) \<Rightarrow> string \<Rightarrow> string \<Rightarrow> errno + string list \<times> string \<Rightarrow> string" where
  "merge_text errno_text kind path r =
     (case r of
        Inr (rows, contents) \<Rightarrow>
          write_line (''[metrics] '' @ show_nat (length rows) @ '' '' @ kind @ '' rows '' @ arrow @ '' '' @ path)
      | Inl e \<Rightarrow> write_line (''[main] failed to write '' @ kind @ '' CSV: '' @ errno_text e))"

definition worker_text :: "run_report \<Rightarrow> nat \<Rightarrow> string" where
  "worker_text rp i =
     write_line (''  worker '' @ show_nat i @
       '': dispatched='' @ pad_left 5 (CHR '' '') (show_nat (unat (rp_dispatched rp ! i))) @
       ''  completed='' @ pad_left 5 (CHR '' '') (show_int (sint (rp_completed_per_worker rp ! i))) @
       ''  open_at_exit='' @ pad_left 4 (CHR '' '') (show_int (sint (rp_open_at_exit rp ! i))) @
       ''  dropped='' @ pad_left 4 (CHR '' '') (show_nat (unat (rp_drops rp ! i))))"

definition report_text :: "Sim_Dispatcher.policy \<Rightarrow> string \<Rightarrow> run_report \<Rightarrow> string" where
  "report_text p case_str rp =
     write_line ([CHR 0x0A] @ rule_of 2 @ '' Run summary ('' @ policy_as_str p @ '' / case '' @ case_str @ '') '' @ rule_of 21) @
     write_line (''  generated='' @ show_nat (unat (rp_generated rp)) @ ''  completed='' @ show_nat (rp_completed rp) @
       ''  dropped='' @ show_nat (unat (rp_dropped rp))) @
     concat (map (worker_text rp) [0..<NUM_WORKERS]) @
     write_line (''  balance: completed SD = '' @ show_fixed 2 (rp_completed_sd rp) @ ''   open-conn SD = '' @
       show_fixed 2 (rp_open_sd rp) @ ''  (lower = better, Fig. 13)'') @
     write_line (''  latency (arrival'' @ arrow @ ''done): mean = '' @ show_ms (rp_mean_us rp) @
       ''ms  p50 = '' @ show_ms (f64_of_int (sint (rp_p50_us rp))) @
       ''ms  p99 = '' @ show_ms (f64_of_int (sint (rp_p99_us rp))) @
       ''ms  max = '' @ show_ms (f64_of_int (sint (rp_max_us rp))) @ ''ms'') @
     write_line (rule_of 58 @ [CHR 0x0A])"

section \<open>The process\<close>

datatype sim_end = Map_Panic map_error | Shard_Dir_Panic errno | Ended sim_exit

record sim_output =
  so_end :: sim_end
  so_stderr :: string
  so_stdout :: string

text \<open>What the process meets outside the repository.\<close>

record sim_system =
  sy_getenv :: "string \<Rightarrow> string option"
  sy_temp_dir :: string
  sy_pid :: nat
  sy_map_failed :: bool
  sy_mkdir_error :: "errno option"
  sy_forks :: "(int \<times> errno) list"
  sy_wait :: "int \<Rightarrow> shared_state \<Rightarrow> shared_state option"
  sy_errno_text :: "errno \<Rightarrow> string"
  sy_files :: "string \<Rightarrow> shard"
  sy_tick_error :: "errno option"
  sy_conn_error :: "errno option"

text \<open>The arguments of a child's \<open>worker_loop\<close>.\<close>

record worker_args =
  wa_worker_id :: nat
  wa_hang :: "hang_spec option"
  wa_burst :: "burst_spec option"
  wa_policy :: Sim_Dispatcher.policy
  wa_tick_path :: string
  wa_conn_path :: string
  wa_verbose :: bool

definition sim_child :: "sim_system \<Rightarrow> nat \<Rightarrow> worker_args" where
  "sim_child sy worker_id =
     (let cfg = config_of_env (sy_getenv sy ''WORKLOAD_CASE'') (sy_getenv sy ''LOAD'');
          dir = shard_dir (sy_temp_dir sy) (sy_pid sy)
      in \<lparr>wa_worker_id = worker_id, wa_hang = hang cfg, wa_burst = burst cfg, wa_policy = policy_of_env (sy_getenv sy ''POLICY''),
          wa_tick_path = tick_shard_path dir worker_id, wa_conn_path = conn_shard_path dir worker_id,
          wa_verbose = verbose_of_env (sy_getenv sy ''VERBOSE'')\<rparr>)"

definition sim_process :: "sim_system \<Rightarrow> gen_env \<Rightarrow> sim_output option" where
  "sim_process sy env =
     (let case_str = env_or (sy_getenv sy) ''WORKLOAD_CASE'' ''default'';
          metrics_path = env_or (sy_getenv sy) ''METRICS_PATH'' ''metrics.csv'';
          conns_path = env_or (sy_getenv sy) ''CONNS_PATH'' ''conns.csv'';
          seed = seed_of_env (sy_getenv sy ''SEED'');
          p = policy_of_env (sy_getenv sy ''POLICY'');
          cfg = config_of_env (sy_getenv sy ''WORKLOAD_CASE'') (sy_getenv sy ''LOAD'');
          banner = banner_text p case_str cfg seed metrics_path conns_path;
          dir = shard_dir (sy_temp_dir sy) (sy_pid sy)
      in case mmap_shared_state (sy_map_failed sy) of
           Inl e \<Rightarrow> Some \<lparr>so_end = Map_Panic e, so_stderr = banner, so_stdout = []\<rparr>
         | Inr sh \<Rightarrow>
       (case sy_mkdir_error sy of
           Some e \<Rightarrow> Some \<lparr>so_end = Shard_Dir_Panic e, so_stderr = banner, so_stdout = []\<rparr>
         | None \<Rightarrow>
             (let tick_shards = map (sy_files sy \<circ> tick_shard_path dir) [0..<NUM_WORKERS];
                  conn_shards = map (sy_files sy \<circ> conn_shard_path dir) [0..<NUM_WORKERS]
              in case sim_main (sy_forks sy) env sh cfg p seed (sy_wait sy) conn_shards (sy_conn_error sy) of
                   None \<Rightarrow> None
                 | Some ex \<Rightarrow>
                     (case ex of
                        Reported pids rp \<Rightarrow>
                          Some \<lparr>so_end = Ended ex,
                            so_stderr = banner @
                              merge_text (sy_errno_text sy) ''tick'' metrics_path
                                (merge_shards tick_shards sim_tick_header (sy_tick_error sy)) @
                              merge_text (sy_errno_text sy) ''conn'' conns_path
                                (merge_shards conn_shards conn_header (sy_conn_error sy)),
                            so_stdout = report_text p case_str rp\<rparr>
                      | _ \<Rightarrow> Some \<lparr>so_end = Ended ex, so_stderr = banner, so_stdout = []\<rparr>))))"

section \<open>The workers' files\<close>

text \<open>No two workers share a file, and no file holds both kinds of rows.\<close>

lemma shard_paths_inject:
  "tick_shard_path dir i = tick_shard_path dir j \<longleftrightarrow> i = j"
  "conn_shard_path dir i = conn_shard_path dir j \<longleftrightarrow> i = j"
  "tick_shard_path dir i \<noteq> conn_shard_path dir j"
proof -
  show "tick_shard_path dir i = tick_shard_path dir j \<longleftrightarrow> i = j" "conn_shard_path dir i = conn_shard_path dir j \<longleftrightarrow> i = j"
    by (simp_all add: tick_shard_path_def conn_shard_path_def path_join_inject show_nat_inject)
  show "tick_shard_path dir i \<noteq> conn_shard_path dir j"
  proof
    assume "tick_shard_path dir i = conn_shard_path dir j"
    then have "rev (''w'' @ show_nat i @ ''_ticks.csv'') = rev (''w'' @ show_nat j @ ''_conns.csv'')"
      by (simp add: tick_shard_path_def conn_shard_path_def path_join_inject)
    then show False by simp
  qed
qed

text \<open>
  Worker \<open>w\<close> has run with the arguments the parent gave it, and its two files hold what
  \<open>shards_write\<close> writes at its end.
\<close>

definition worker_done :: "sim_system \<Rightarrow> (nat \<Rightarrow> sim_turn list) \<Rightarrow> (nat \<Rightarrow> shared_state) \<Rightarrow> (nat \<Rightarrow> sim_state) \<Rightarrow> nat \<Rightarrow> bool" where
  "worker_done sy turns start final w \<longleftrightarrow>
     (let a = sim_child sy w
      in sim_worker_loop (wa_worker_id a) (wa_policy a) (wa_burst a) (turns w)
           (sim_start (wa_worker_id a) (wa_hang a) (wa_burst a) (start w)) = Some (final w) \<and>
         sy_files sy (wa_tick_path a) = Some (map Inr (file_lines (fst (shards_write (final w))))) \<and>
         sy_files sy (wa_conn_path a) = conn_shard (final w))"

section \<open>Every environment gives a rate\<close>

lemma settings_rate:
  "0 < unat (cps (config_of_env case_env load_env)) \<and> unat (cps (config_of_env case_env load_env)) \<le> 1000000000"
proof -
  have l: "0 < unat (cps (for_case_with_load c l)) \<and> unat (cps (for_case_with_load c l)) \<le> 1000000000" for c l
    by (cases c; cases l) (simp_all add: for_case_with_load_def base_case_def)
  then have "0 < unat (cps (for_case c)) \<and> unat (cps (for_case c)) \<le> 1000000000" for c
    by (simp add: for_case_def)
  moreover have "0 < unat (cps default_case) \<and> unat (cps default_case) \<le> 1000000000"
    by (simp add: default_case_def)
  ultimately show ?thesis using l by (simp add: config_of_env_def split: option.split)
qed

lemma fork_children_cases:
  "length ws \<le> length forks \<Longrightarrow>
    fork_children ws forks pids = Some (Inr (pids @ map fst (take (length ws) forks))) \<and>
      - 1 \<notin> fst ` set (take (length ws) forks) \<or>
    (\<exists>e. fork_children ws forks pids = Some (Inl e) \<and> (- 1, e) \<in> set (take (length ws) forks))"
  by (induction ws forks pids rule: fork_children.induct) auto

section \<open>Properties\<close>

text \<open>
  C29: The simulation ends whatever its environment says: unknown words select defaults whose rate lets
  the generator finish, and as long as its children exit once shutdown is requested, the process
  stops early only when the shared memory cannot be mapped, the shard directory cannot be created
  or a fork fails, and then prints no report; otherwise it waits for its children, one per fork and
  in their order, and reports.
\<close>

theorem simulation_ends_for_every_environment:
  assumes "NUM_WORKERS \<le> length (sy_forks sy)" and "children_exit (sy_wait sy)"
  shows "\<exists>out. sim_process sy env = Some out \<and>
    (case so_end out of
       Map_Panic e \<Rightarrow> sy_map_failed sy \<and> so_stdout out = []
     | Shard_Dir_Panic e \<Rightarrow> \<not> sy_map_failed sy \<and> sy_mkdir_error sy = Some e \<and> so_stdout out = []
     | Ended (Fork_Panic e) \<Rightarrow> (- 1, e) \<in> set (take NUM_WORKERS (sy_forks sy)) \<and> so_stdout out = []
     | Ended Generator_Panic \<Rightarrow> False
     | Ended (Reported pids rp) \<Rightarrow> pids = map fst (take NUM_WORKERS (sy_forks sy)) \<and> - 1 \<notin> set pids \<and>
         so_stdout out =
           report_text (policy_of_env (sy_getenv sy ''POLICY'')) (env_or (sy_getenv sy) ''WORKLOAD_CASE'' ''default'') rp)"
proof (cases "sy_map_failed sy \<or> sy_mkdir_error sy \<noteq> None")
  case False
  then have fine: "mmap_shared_state (sy_map_failed sy) = Inr zeroed_state" "sy_mkdir_error sy = None"
    by (simp_all add: mmap_shared_state_def)
  let ?cfg = "config_of_env (sy_getenv sy ''WORKLOAD_CASE'') (sy_getenv sy ''LOAD'')"
  have l: "length [0..<NUM_WORKERS] \<le> length (sy_forks sy)" using assms(1) by simp
  obtain stats sh' where r: "run env zeroed_state ?cfg (policy_of_env (sy_getenv sy ''POLICY'')) (seed_of_env (sy_getenv sy ''SEED'')) =
      Some (Inr (stats, request_shutdown sh'))"
    using run_eq [OF conjunct1 [OF settings_rate] conjunct2 [OF settings_rate]] by metis
  let ?pids = "map fst (take NUM_WORKERS (sy_forks sy))"
  obtain sh2 where reap: "reap_children (sy_wait sy) ?pids [] (request_shutdown sh') = Some (?pids, sh2)"
    using reap_children_all [OF assms(2) requested_shutdown, of ?pids "[]"] by auto
  consider "fork_children [0..<NUM_WORKERS] (sy_forks sy) [] = Some (Inr ?pids)" "- 1 \<notin> set ?pids"
    | e where "fork_children [0..<NUM_WORKERS] (sy_forks sy) [] = Some (Inl e)" "(- 1, e) \<in> set (take NUM_WORKERS (sy_forks sy))"
    using fork_children_cases [OF l, of "[]"] by auto
  then show ?thesis
    by cases (use fine False r reap in \<open>simp_all add: sim_process_def sim_main_def Let_def\<close>)
qed (auto simp: sim_process_def mmap_shared_state_def Let_def)

definition bare_system :: sim_system where
  "bare_system = \<lparr>sy_getenv = (\<lambda>name. if name = ''POLICY'' then Some ''lifo'' else None), sy_temp_dir = ''/tmp'', sy_pid = 77,
     sy_map_failed = False, sy_mkdir_error = None, sy_forks = [(11, 0), (12, 0), (13, 0), (14, 0)],
     sy_wait = (\<lambda>pid. Some), sy_errno_text = (\<lambda>e. []),
     sy_files = (\<lambda>path. None), sy_tick_error = None, sy_conn_error = None\<rparr>"

theorem simulation_ends_for_every_environment_witness:
  "\<exists>out. sim_process bare_system \<lparr>others = \<lambda>k sh. sh, clock = of_nat\<rparr> = Some out \<and>
    (\<exists>rp. so_end out = Ended (Reported [11, 12, 13, 14] rp))"
proof -
  have "NUM_WORKERS \<le> length (sy_forks bare_system)" "children_exit (sy_wait bare_system)"
    by (simp_all add: bare_system_def NUM_WORKERS_def children_exit_def)
  note t = simulation_ends_for_every_environment [OF this, of "\<lparr>others = \<lambda>k sh. sh, clock = of_nat\<rparr>"]
  have b: "\<not> sy_map_failed bare_system" "sy_mkdir_error bare_system = None"
    "take NUM_WORKERS (sy_forks bare_system) = [(11, 0), (12, 0), (13, 0), (14, 0)]"
    by (simp_all add: bare_system_def NUM_WORKERS_def)
  from t obtain out where o: "sim_process bare_system \<lparr>others = \<lambda>k sh. sh, clock = of_nat\<rparr> = Some out" by blast
  have "\<exists>rp. so_end out = Ended (Reported [11, 12, 13, 14] rp)"
  proof (cases "so_end out")
    case (Ended ex)
    then show ?thesis using t o b by (cases ex) simp_all
  qed (use t o b in simp_all)
  then show ?thesis using o by blast
qed

text \<open>
  C18: The printed report of a simulation run is faithful: for every environment, if the shared memory
  is mapped, the directory can be created, the forks succeed, the workers' loops end with the
  processes after them, the shard files hold what the workers wrote and the file at \<open>CONNS_PATH\<close> can
  be written, the process ends having waited for every child, and prints a report that counts one
  generated connection per pacing interval and, through the shard files, their merge and the
  parsing of the merged text, exactly the rows each worker recorded, whose latencies give its
  percentiles.
\<close>

theorem simulation_process_is_faithful:
  fixes sy :: sim_system
  defines "p \<equiv> policy_of_env (sy_getenv sy ''POLICY'')"
    and "cfg \<equiv> config_of_env (sy_getenv sy ''WORKLOAD_CASE'') (sy_getenv sy ''LOAD'')"
  assumes "\<forall>w<NUM_WORKERS. worker_done sy turns start final w"
    and "NUM_WORKERS \<le> length (sy_forks sy)" and "\<forall>f\<in>set (take NUM_WORKERS (sy_forks sy)). fst f \<noteq> - 1"
    and "\<not> sy_map_failed sy" and "sy_mkdir_error sy = None" and "sy_conn_error sy = None" and "children_exit (sy_wait sy)"
  shows "\<exists>out report interval.
    sim_process sy env = Some out \<and>
    so_end out = Ended (Reported (map fst (take NUM_WORKERS (sy_forks sy))) report) \<and>
    so_stdout out = report_text p (env_or (sy_getenv sy) ''WORKLOAD_CASE'' ''default'') report \<and>
    gen_interval (cps cfg) = Some interval \<and>
    rp_generated report = of_nat (ceil_div (duration_of cfg) interval) \<and>
    rp_completed report = (\<Sum>w\<leftarrow>[0..<NUM_WORKERS]. length (sw_conns (final w))) \<and>
    rp_completed_per_worker report = map (\<lambda>w. of_nat (length (sw_conns (final w)))) [0..<NUM_WORKERS] \<and>
    (let latencies = map row_latency (concat (map (sw_conns \<circ> final) [0..<NUM_WORKERS]))
     in latencies \<noteq> [] \<longrightarrow> rp_p50_us report = percentile (sort_i64 latencies) P50 \<and>
       rp_p99_us report = percentile (sort_i64 latencies) P99 \<and> rp_max_us report = last (sort_i64 latencies))"
proof -
  have eq: "map (sy_files sy \<circ> conn_shard_path (shard_dir (sy_temp_dir sy) (sy_pid sy))) [0..<NUM_WORKERS] =
      map (conn_shard \<circ> final) [0..<NUM_WORKERS]"
    using assms(3) by (simp add: worker_done_def sim_child_def Let_def)
  have w: "\<forall>w<NUM_WORKERS. sim_worker_loop w p (burst cfg) (turns w) (sim_start w (hang cfg) (burst cfg) (start w)) = Some (final w)"
    using assms(3) by (simp add: worker_done_def sim_child_def Let_def p_def cfg_def)
  have "0 < unat (cps cfg)" "unat (cps cfg) \<le> 1000000000" using settings_rate by (simp_all add: cfg_def)
  from simulation_report_is_faithful [OF w assms(4,5) this assms(9), of env zeroed_state "seed_of_env (sy_getenv sy ''SEED'')"]
  obtain report interval where m: "sim_main (sy_forks sy) env zeroed_state cfg p (seed_of_env (sy_getenv sy ''SEED'')) (sy_wait sy)
      (map (conn_shard \<circ> final) [0..<NUM_WORKERS]) None =
      Some (Reported (map fst (take NUM_WORKERS (sy_forks sy))) report)"
    and f: "gen_interval (cps cfg) = Some interval"
    "rp_generated report = of_nat (ceil_div (duration_of cfg) interval)"
    "rp_completed report = (\<Sum>w\<leftarrow>[0..<NUM_WORKERS]. length (sw_conns (final w)))"
    "rp_completed_per_worker report = map (\<lambda>w. of_nat (length (sw_conns (final w)))) [0..<NUM_WORKERS]"
    "let latencies = map row_latency (concat (map (sw_conns \<circ> final) [0..<NUM_WORKERS]))
     in latencies \<noteq> [] \<longrightarrow> rp_p50_us report = percentile (sort_i64 latencies) P50 \<and>
       rp_p99_us report = percentile (sort_i64 latencies) P99 \<and> rp_max_us report = last (sort_i64 latencies)"
    by blast
  have "\<exists>out. sim_process sy env = Some out \<and>
      so_end out = Ended (Reported (map fst (take NUM_WORKERS (sy_forks sy))) report) \<and>
      so_stdout out = report_text p (env_or (sy_getenv sy) ''WORKLOAD_CASE'' ''default'') report"
    unfolding sim_process_def Let_def eq p_def [symmetric] cfg_def [symmetric] assms(7,8)
    by (simp add: m mmap_shared_state_def assms(6) del: map_map list.map_comp)
  then show ?thesis using f by blast
qed

text \<open>A directory that holds the files of the workers.\<close>

definition dir_of :: "string \<Rightarrow> (nat \<Rightarrow> sim_state) \<Rightarrow> string \<Rightarrow> shard" where
  "dir_of dir final path =
     (case find (\<lambda>w. tick_shard_path dir w = path) [0..<NUM_WORKERS] of
        Some w \<Rightarrow> Some (map Inr (file_lines (fst (shards_write (final w)))))
      | None \<Rightarrow>
          (case find (\<lambda>w. conn_shard_path dir w = path) [0..<NUM_WORKERS] of
             Some w \<Rightarrow> conn_shard (final w)
           | None \<Rightarrow> None))"

lemma find_unique: "w < n \<Longrightarrow> find (\<lambda>v. v = w) [0..<n] = Some w"
  unfolding find_Some_iff by (intro exI [of _ w]) simp

lemma find_nothing: "find (\<lambda>v. False) xs = None"
  by (simp add: find_None_iff)

lemma dir_of_written:
  "w < NUM_WORKERS \<Longrightarrow> dir_of dir final (tick_shard_path dir w) = Some (map Inr (file_lines (fst (shards_write (final w)))))"
  "w < NUM_WORKERS \<Longrightarrow> dir_of dir final (conn_shard_path dir w) = conn_shard (final w)"
  by (simp_all add: dir_of_def shard_paths_inject shard_paths_inject(3) [symmetric] find_unique find_nothing)

theorem simulation_process_is_faithful_witness:
  "\<exists>out report. sim_process (bare_system\<lparr>sy_files := dir_of (shard_dir ''/tmp'' 77) sample_final\<rparr>)
      \<lparr>others = \<lambda>k sh. sh, clock = of_nat\<rparr> = Some out \<and>
    so_stdout out = report_text Lifo ''default'' report \<and> rp_completed report = 4"
proof -
  let ?sy = "bare_system\<lparr>sy_files := dir_of (shard_dir ''/tmp'' 77) sample_final\<rparr>"
  have s: "policy_of_env (sy_getenv ?sy ''POLICY'') = Lifo" "config_of_env (sy_getenv ?sy ''WORKLOAD_CASE'') (sy_getenv ?sy ''LOAD'') = default_case"
    "env_or (sy_getenv ?sy) ''WORKLOAD_CASE'' ''default'' = ''default''"
    by (simp_all add: bare_system_def policy_of_env_def config_of_env_def case_of_env_def env_or_def)
  have "burst default_case = None" "hang default_case = None" by (simp_all add: default_case_def)
  then have "\<forall>w<NUM_WORKERS. worker_done ?sy (\<lambda>w. [serving_turn]) (\<lambda>w. request_shutdown zeroed_state) sample_final w"
    using sample_final dir_of_written [of _ "shard_dir ''/tmp'' 77" sample_final]
    unfolding worker_done_def sim_child_def s by (simp add: bare_system_def Let_def del: sim_worker_loop.simps)
  moreover have "NUM_WORKERS \<le> length (sy_forks ?sy)" "\<forall>f\<in>set (take NUM_WORKERS (sy_forks ?sy)). fst f \<noteq> - 1"
    "\<not> sy_map_failed ?sy" "sy_mkdir_error ?sy = None" "sy_conn_error ?sy = None" "children_exit (sy_wait ?sy)"
    by (simp_all add: bare_system_def NUM_WORKERS_def children_exit_def)
  moreover have "(\<Sum>w\<leftarrow>[0..<NUM_WORKERS]. length (sw_conns (sample_final w))) = 4"
    using sample_final by (simp add: NUM_WORKERS_def upt_rec)
  ultimately show ?thesis
    using simulation_process_is_faithful [of ?sy "\<lambda>w. [serving_turn]" "\<lambda>w. request_shutdown zeroed_state" sample_final
        "\<lparr>others = \<lambda>k sh. sh, clock = of_nat\<rparr>"]
    unfolding s by metis
qed

end
