(* ===== verification/Sim_System.thy ===== *)
theory Sim_System
  imports Sim_Worker Sim_Generator
begin

text \<open>
  The simulation as a system: the generator of \<open>userspace_simulation/src/generator.rs\<close> and the worker
  processes of \<open>userspace_simulation/src/worker.rs\<close>, interleaved over the shared memory. A step of
  a process is one operation on it: a push or a pop, one load of the scheduler's snapshot, the
  publication of a bitmap, the reading of the shutdown flag, the check of the queue, or the updates
  the worker makes to its own slot in one statement, in closing what has expired, or in handling one
  event, where the count of the connection, the simulated work and the end of the event are taken
  together. Clock readings are chosen by the step. That push and pop may be taken as one step although
  each is several accesses is \<open>accesses_implement_operations\<close> of \<open>Sim_Spsc\<close>.
\<close>

section \<open>The generator\<close>

datatype gen_pc = G_Loop | G_Push nat conn_desc | G_Full nat | G_Done

record gen_proc =
  gp_pc :: gen_pc
  gp_stats :: gen_stats
  gp_offset :: duration

definition next_conn :: "duration \<Rightarrow> gen_proc \<Rightarrow> gen_proc" where
  "next_conn interval g =
     g\<lparr>gp_pc := G_Loop, gp_stats := (gp_stats g)\<lparr>generated := generated (gp_stats g) + 1\<rparr>, gp_offset := gp_offset g + interval\<rparr>"

text \<open>The last argument is what a step adds to the record of attempted deliveries, which no code reads.\<close>

inductive gen_step ::
  "workload_config \<Rightarrow> policy \<Rightarrow> u64 \<Rightarrow> duration \<Rightarrow> shared_state \<times> gen_proc \<Rightarrow> shared_state \<times> gen_proc \<Rightarrow>
    (conn_desc \<times> nat \<times> bool) list \<Rightarrow> bool"
  for cfg :: workload_config and p :: policy and seed :: u64 and interval :: duration
where
  arrive: "gp_pc g = G_Loop \<Longrightarrow> gp_offset g < duration_of cfg \<Longrightarrow> cid = generated (gp_stats g) \<Longrightarrow>
    hash = gen_hash cid seed \<Longrightarrow> target = dispatch m p hash \<Longrightarrow>
    gen_step cfg p seed interval (m, g)
      (m, g\<lparr>gp_pc := G_Push target (gen_desc cfg cid hash now),
        gp_stats := (gp_stats g)\<lparr>dispatched_per_worker :=
          (dispatched_per_worker (gp_stats g))[target := dispatched_per_worker (gp_stats g) ! target + 1]\<rparr>\<rparr>) []"
| pushed: "gp_pc g = G_Push target d \<Longrightarrow> push (sh_queues m ! target) d = (True, q) \<Longrightarrow>
    gen_step cfg p seed interval (m, g) (m\<lparr>sh_queues := (sh_queues m)[target := q]\<rparr>, next_conn interval g) [(d, target, True)]"
| full: "gp_pc g = G_Push target d \<Longrightarrow> push (sh_queues m ! target) d = (False, q) \<Longrightarrow>
    gen_step cfg p seed interval (m, g)
      (m\<lparr>sh_queues := (sh_queues m)[target := q]\<rparr>, g\<lparr>gp_pc := G_Full target\<rparr>) [(d, target, False)]"
| drop: "gp_pc g = G_Full target \<Longrightarrow>
    gen_step cfg p seed interval (m, g)
      (m\<lparr>sh_drops := (sh_drops m)[target := sh_drops m ! target + 1]\<rparr>,
       next_conn interval (g\<lparr>gp_stats := (gp_stats g)\<lparr>dropped := dropped (gp_stats g) + 1\<rparr>\<rparr>)) []"
| finish: "gp_pc g = G_Loop \<Longrightarrow> \<not> gp_offset g < duration_of cfg \<Longrightarrow>
    gen_step cfg p seed interval (m, g) (request_shutdown m, g\<lparr>gp_pc := G_Done\<rparr>) []"

section \<open>The workers\<close>

datatype sim_pc =
    S_Top
  | S_Hang
  | S_Close
  | S_Fire
  | S_Choose
  | S_Follow_Ups "u64 list"
  | S_Poll "conn_desc list"
  | S_Idle
  | S_Ready "conn_desc list"
  | S_Serve "conn_desc list"
  | S_Schedule
  | S_Load i64 "i64 list"
  | S_Tick "schedule_result option"
  | S_Tick_Load "schedule_result option" i64 "i64 list"
  | S_Check
  | S_Drained
  | S_Exited

text \<open>The local state is that of \<open>Sim_Worker\<close>; its copy of the shared memory is replaced at every step.\<close>

record sim_proc =
  sp_pc :: sim_pc
  sp_state :: sim_state

definition view :: "shared_state \<Rightarrow> sim_proc \<Rightarrow> sim_state" where
  "view m pr = (sp_state pr)\<lparr>sw_shared := m\<rparr>"

definition leave :: "sim_pc \<Rightarrow> sim_state \<Rightarrow> shared_state \<times> sim_proc" where
  "leave pc s = (sw_shared s, \<lparr>sp_pc = pc, sp_state = s\<rparr>)"

text \<open>One round of the two event loops of \<open>Sim_Worker\<close>.\<close>

definition serve_one :: "nat \<Rightarrow> policy \<Rightarrow> conn_desc \<Rightarrow> i64 \<Rightarrow> i64 \<Rightarrow> sim_state \<Rightarrow> sim_state option" where
  "serve_one w p d dequeue_ns done_ns s = serve_batch w p [d] [(dequeue_ns, done_ns)] s"

definition follow_one :: "nat \<Rightarrow> policy \<Rightarrow> burst_spec \<Rightarrow> u64 \<Rightarrow> i64 \<Rightarrow> i64 \<Rightarrow> sim_state \<Rightarrow> sim_state option" where
  "follow_one w p b cid dequeue_ns done_ns s = serve_burst w p b [cid] [(dequeue_ns, done_ns)] s"

inductive sim_step ::
  "nat \<Rightarrow> workload_config \<Rightarrow> policy \<Rightarrow> shared_state \<times> sim_proc \<Rightarrow> shared_state \<times> sim_proc \<Rightarrow> bool"
  for w :: nat and cfg :: workload_config and p :: policy
where
  stamp: "sp_pc pr = S_Top \<Longrightarrow>
    sim_step w cfg p (m, pr) (leave S_Hang (on_slot w (store_loop_entry now) (view m pr)))"
| hangs: "sp_pc pr = S_Hang \<Longrightarrow> sw_hang_pending (sp_state pr) = Some h \<Longrightarrow> hang_at h \<le> elapsed \<Longrightarrow>
    sim_step w cfg p (m, pr) (leave S_Top ((view m pr)\<lparr>sw_hang_pending := None\<rparr>))"
| goes_on: "sp_pc pr = S_Hang \<Longrightarrow> (case sw_hang_pending (sp_state pr) of Some h \<Rightarrow> \<not> hang_at h \<le> elapsed | None \<Rightarrow> True) \<Longrightarrow>
    sim_step w cfg p (m, pr) (leave S_Close (view m pr))"
| closes: "sp_pc pr = S_Close \<Longrightarrow>
    s = close_expired w now (sw_open_conns (sp_state pr)) ((view m pr)\<lparr>sw_open_conns := []\<rparr>) \<Longrightarrow>
    sim_step w cfg p (m, pr) (leave S_Fire s)"
| fires: "sp_pc pr = S_Fire \<Longrightarrow> sim_step w cfg p (m, pr) (leave S_Choose (fire_burst t (view m pr)))"
| follow_ups: "sp_pc pr = S_Choose \<Longrightarrow> sw_burst_backlog (sp_state pr) \<noteq> [] \<Longrightarrow>
    n = min (length (sw_burst_backlog (sp_state pr))) SIM_MAX_EVENTS \<Longrightarrow>
    ids = take n (sw_burst_backlog (sp_state pr)) \<Longrightarrow>
    s = (view m pr)\<lparr>sw_burst_backlog := drop n (sw_burst_backlog (sp_state pr))\<rparr> \<Longrightarrow>
    sim_step w cfg p (m, pr) (leave (S_Follow_Ups ids) (on_slot w (add_pending (of_nat (length ids))) s))"
| polls: "sp_pc pr = S_Choose \<Longrightarrow> sw_burst_backlog (sp_state pr) = [] \<Longrightarrow>
    sim_step w cfg p (m, pr) (leave (S_Poll []) (view m pr))"
| pops: "sp_pc pr = S_Poll batch \<Longrightarrow> length batch < SIM_MAX_EVENTS \<Longrightarrow> pop (sh_queues m ! w) = (Some d, q) \<Longrightarrow>
    sim_step w cfg p (m, pr) (leave (S_Poll (batch @ [d])) (view (m\<lparr>sh_queues := (sh_queues m)[w := q]\<rparr>) pr))"
| full_batch: "sp_pc pr = S_Poll batch \<Longrightarrow> \<not> length batch < SIM_MAX_EVENTS \<Longrightarrow>
    sim_step w cfg p (m, pr) (leave (S_Ready batch) (view m pr))"
| no_more: "sp_pc pr = S_Poll batch \<Longrightarrow> length batch < SIM_MAX_EVENTS \<Longrightarrow> pop (sh_queues m ! w) = (None, q) \<Longrightarrow> batch \<noteq> [] \<Longrightarrow>
    sim_step w cfg p (m, pr) (leave (S_Ready batch) (view m pr))"
| finds_none: "sp_pc pr = S_Poll [] \<Longrightarrow> pop (sh_queues m ! w) = (None, q) \<Longrightarrow>
    sim_step w cfg p (m, pr) (leave S_Idle (view m pr))"
| gives_up: "sp_pc pr = S_Idle \<Longrightarrow> timeout \<or> shutdown_requested m \<Longrightarrow>
    sim_step w cfg p (m, pr) (leave (S_Ready []) (view m pr))"
| polls_again: "sp_pc pr = S_Idle \<Longrightarrow> \<not> shutdown_requested m \<Longrightarrow>
    sim_step w cfg p (m, pr) (leave (S_Poll []) (view m pr))"
| ready: "sp_pc pr = S_Ready batch \<Longrightarrow>
    sim_step w cfg p (m, pr) (leave (S_Serve batch) (on_slot w (add_pending (of_nat (length batch))) (view m pr)))"
| serves: "sp_pc pr = S_Serve (d # ds) \<Longrightarrow> serve_one w p d dequeue_ns done_ns (view m pr) = Some s \<Longrightarrow>
    sim_step w cfg p (m, pr) (leave (S_Serve ds) s)"
| served_all: "sp_pc pr = S_Serve [] \<Longrightarrow> sim_step w cfg p (m, pr) (leave S_Schedule (view m pr))"
| follows_up: "sp_pc pr = S_Follow_Ups (cid # ids) \<Longrightarrow> burst cfg = Some b \<Longrightarrow>
    follow_one w p b cid dequeue_ns done_ns (view m pr) = Some s \<Longrightarrow>
    sim_step w cfg p (m, pr) (leave (S_Follow_Ups ids) s)"
| followed_up_all: "sp_pc pr = S_Follow_Ups [] \<Longrightarrow> sim_step w cfg p (m, pr) (leave S_Schedule (view m pr))"
| schedules: "sp_pc pr = S_Schedule \<Longrightarrow> p = Hermes \<Longrightarrow> sim_step w cfg p (m, pr) (leave (S_Load now []) (view m pr))"
| loads_one: "sp_pc pr = S_Load t vs \<Longrightarrow> length vs < SNAPSHOT_LOADS \<Longrightarrow>
    sim_step w cfg p (m, pr) (leave (S_Load t (vs @ [load_nth (sh_wst m) (length vs)])) (view m pr))"
| publishes: "sp_pc pr = S_Load t vs \<Longrightarrow> \<not> length vs < SNAPSHOT_LOADS \<Longrightarrow>
    r = sim_schedule_from_snapshots (assemble vs) t SIM_HANG_THRESHOLD_NS \<Longrightarrow>
    sim_step w cfg p (m, pr) (leave (S_Tick (Some r)) (view (m\<lparr>sh_msel := sel_store (bitmap r) (sh_msel m)\<rparr>) pr))"
| no_scheduler: "sp_pc pr = S_Schedule \<Longrightarrow> p \<noteq> Hermes \<Longrightarrow>
    sim_step w cfg p (m, pr) (leave (S_Tick None) (view m pr))"
| tick_clock: "sp_pc pr = S_Tick result \<Longrightarrow> sim_step w cfg p (m, pr) (leave (S_Tick_Load result now []) (view m pr))"
| tick_loads: "sp_pc pr = S_Tick_Load result t vs \<Longrightarrow> length vs < SNAPSHOT_LOADS \<Longrightarrow>
    sim_step w cfg p (m, pr) (leave (S_Tick_Load result t (vs @ [load_nth (sh_wst m) (length vs)])) (view m pr))"
| ticks: "sp_pc pr = S_Tick_Load result t vs \<Longrightarrow> \<not> length vs < SNAPSHOT_LOADS \<Longrightarrow>
    tick = \<lparr>stk_timestamp_ns = t, stk_worker_id = w, stk_iter = sw_iter (sp_state pr), stk_snapshots = assemble vs,
      stk_queue_len = queue_len (sh_queues m ! w), stk_result = result, stk_policy = p\<rparr> \<Longrightarrow>
    sim_step w cfg p (m, pr) (leave S_Check ((view m pr)\<lparr>sw_ticks := sw_ticks (sp_state pr) @ [tick]\<rparr>))"
| runs_on: "sp_pc pr = S_Check \<Longrightarrow> \<not> shutdown_requested m \<Longrightarrow>
    sim_step w cfg p (m, pr) (leave S_Top ((view m pr)\<lparr>sw_iter := sw_iter (sp_state pr) + 1\<rparr>))"
| stopping: "sp_pc pr = S_Check \<Longrightarrow> shutdown_requested m \<Longrightarrow>
    sim_step w cfg p (m, pr) (leave S_Drained (view m pr))"
| still_work: "sp_pc pr = S_Drained \<Longrightarrow> \<not> (queue_is_empty (sh_queues m ! w) \<and> sw_burst_backlog (sp_state pr) = []) \<Longrightarrow>
    sim_step w cfg p (m, pr) (leave S_Top ((view m pr)\<lparr>sw_iter := sw_iter (sp_state pr) + 1\<rparr>))"
| exits: "sp_pc pr = S_Drained \<Longrightarrow> queue_is_empty (sh_queues m ! w) \<Longrightarrow> sw_burst_backlog (sp_state pr) = [] \<Longrightarrow>
    sim_step w cfg p (m, pr) (leave S_Exited (view m pr))"

inductive_cases sim_step_elim: "sim_step w cfg p (m, pr) (m', pr')"
inductive_cases gen_step_elim: "gen_step cfg p seed interval (m, g) (m', g') entries"

lemmas sim_step_cases = sim_step_elim [consumes 1, case_names stamp hangs goes_on closes fires follow_ups polls pops full_batch
  no_more finds_none gives_up polls_again ready serves served_all follows_up followed_up_all schedules loads_one publishes
  no_scheduler tick_clock tick_loads ticks
  runs_on stopping still_work exits]

lemmas gen_step_cases = gen_step_elim [consumes 1, case_names arrive pushed full drop finish]

section \<open>The system\<close>

record sim_sys =
  ss_mem :: shared_state
  ss_gen :: gen_proc
  ss_procs :: "sim_proc list"
  ss_log :: "(conn_desc \<times> nat \<times> bool) list"

definition fresh_gen :: gen_proc where
  "fresh_gen = \<lparr>gp_pc = G_Loop, gp_stats = gen_start, gp_offset = 0\<rparr>"

definition fresh_worker :: "workload_config \<Rightarrow> nat \<Rightarrow> sim_proc" where
  "fresh_worker cfg w = \<lparr>sp_pc = S_Top, sp_state = sim_start w (hang cfg) (burst cfg) zeroed_state\<rparr>"

definition sys_start :: "workload_config \<Rightarrow> sim_sys" where
  "sys_start cfg = \<lparr>ss_mem = zeroed_state, ss_gen = fresh_gen, ss_procs = map (fresh_worker cfg) [0..<NUM_WORKERS], ss_log = []\<rparr>"

inductive sys_step :: "workload_config \<Rightarrow> policy \<Rightarrow> u64 \<Rightarrow> duration \<Rightarrow> sim_sys \<Rightarrow> sim_sys \<Rightarrow> bool"
  for cfg :: workload_config and p :: policy and seed :: u64 and interval :: duration
where
  generator: "gen_step cfg p seed interval (ss_mem S, ss_gen S) (m, g) entries \<Longrightarrow>
    sys_step cfg p seed interval S (S\<lparr>ss_mem := m, ss_gen := g, ss_log := ss_log S @ entries\<rparr>)"
| worker: "w < NUM_WORKERS \<Longrightarrow> sim_step w cfg p (ss_mem S, ss_procs S ! w) (m, pr) \<Longrightarrow>
    sys_step cfg p seed interval S (S\<lparr>ss_mem := m, ss_procs := (ss_procs S)[w := pr]\<rparr>)"

inductive sys_reachable :: "workload_config \<Rightarrow> policy \<Rightarrow> u64 \<Rightarrow> duration \<Rightarrow> sim_sys \<Rightarrow> bool"
  for cfg :: workload_config and p :: policy and seed :: u64 and interval :: duration
where
  sys_begin: "sys_reachable cfg p seed interval (sys_start cfg)"
| sys_next: "sys_reachable cfg p seed interval S \<Longrightarrow> sys_step cfg p seed interval S S' \<Longrightarrow> sys_reachable cfg p seed interval S'"

lemma view_frame [simp]:
  "sw_shared (view m pr) = m" "sw_open_conns (view m pr) = sw_open_conns (sp_state pr)"
  "sw_hang_pending (view m pr) = sw_hang_pending (sp_state pr)" "sw_burst_pending (view m pr) = sw_burst_pending (sp_state pr)"
  "sw_burst_backlog (view m pr) = sw_burst_backlog (sp_state pr)" "sw_conns (view m pr) = sw_conns (sp_state pr)"
  by (simp_all add: view_def)

lemma leave_eq: "(m, pr) = leave pc s \<longleftrightarrow> m = sw_shared s \<and> pr = \<lparr>sp_pc = pc, sp_state = s\<rparr>"
  by (auto simp: leave_def)

text \<open>Undisturbed, the steps for one connection are one round of the generator's loop in \<open>Sim_Generator\<close>.\<close>

lemma gen_steps_are_gen_conn:
  assumes "gp_pc g = G_Loop" and "gp_offset g < duration_of cfg"
    and "gen_conn cfg p seed now (gp_stats g, m) = (stats', m')"
  shows "rtranclp (\<lambda>x y. \<exists>entries. gen_step cfg p seed interval x y entries) (m, g)
    (m', g\<lparr>gp_stats := stats', gp_offset := gp_offset g + interval\<rparr>)"
proof -
  let ?R = "\<lambda>x y. \<exists>entries. gen_step cfg p seed interval x y entries"
  define cid hash target d where "cid = generated (gp_stats g)" and "hash = gen_hash cid seed"
    and "target = dispatch m p hash" and "d = gen_desc cfg cid hash now"
  define stats1 where "stats1 = (gp_stats g)\<lparr>dispatched_per_worker :=
    (dispatched_per_worker (gp_stats g))[target := dispatched_per_worker (gp_stats g) ! target + 1]\<rparr>"
  obtain ok q where q: "push (sh_queues m ! target) d = (ok, q)" by fastforce
  note defs = cid_def hash_def target_def d_def stats1_def
  let ?g1 = "g\<lparr>gp_pc := G_Push target d, gp_stats := stats1\<rparr>" and ?m1 = "m\<lparr>sh_queues := (sh_queues m)[target := q]\<rparr>"
  have 1: "?R (m, g) (m, ?g1)"
    using gen_step.arrive [OF assms(1,2) refl refl refl] unfolding defs by blast
  show ?thesis
  proof (cases ok)
    case True
    have 2: "?R (m, ?g1) (?m1, next_conn interval ?g1)"
      using gen_step.pushed [of ?g1 target d m q cfg p seed interval] q True by auto
    have "(?m1, next_conn interval ?g1) = (m', g\<lparr>gp_stats := stats', gp_offset := gp_offset g + interval\<rparr>)"
      using assms(1,3) q True unfolding gen_conn_def defs by (cases g) (auto simp: next_conn_def Let_def)
    then show ?thesis using 1 2 by (metis (mono_tags, lifting) rtranclp.rtrancl_refl rtranclp.rtrancl_into_rtrancl)
  next
    case False
    let ?g2 = "?g1\<lparr>gp_pc := G_Full target\<rparr>"
    let ?m3 = "?m1\<lparr>sh_drops := (sh_drops ?m1)[target := sh_drops ?m1 ! target + 1]\<rparr>"
    let ?g3 = "next_conn interval (?g2\<lparr>gp_stats := (gp_stats ?g2)\<lparr>dropped := dropped (gp_stats ?g2) + 1\<rparr>\<rparr>)"
    have 2: "?R (m, ?g1) (?m1, ?g2)"
      using gen_step.full [of ?g1 target d m q cfg p seed interval] q False by auto
    have 3: "?R (?m1, ?g2) (?m3, ?g3)"
      using gen_step.drop [of ?g2 target cfg p seed interval ?m1] by auto
    have "(?m3, ?g3) = (m', g\<lparr>gp_stats := stats', gp_offset := gp_offset g + interval\<rparr>)"
      using assms(1,3) q False unfolding gen_conn_def defs by (cases g) (auto simp: next_conn_def Let_def)
    then show ?thesis using 1 2 3 by (metis (mono_tags, lifting) rtranclp.rtrancl_refl rtranclp.rtrancl_into_rtrancl)
  qed
qed

end
