(* ===== verification/Sim_Conservation.thy ===== *)
theory Sim_Conservation
  imports Sim_System "HOL-Library.Sublist"
begin

text \<open>
  What every interleaving of the generator and the workers of the simulation keeps: for each worker
  the connections it has served, those it holds in its hands and those in its queue are, in this
  order, the connections delivered to it; its follow-up events are for connections it has itself
  accepted, each at most once; the generator's counters count its deliveries. At the end every
  generated connection has been served exactly once or was dropped.
\<close>

section \<open>Where a connection is\<close>

definition desc_key :: "conn_desc \<Rightarrow> u64 \<times> i64 \<times> u32" where
  "desc_key d = (conn_id d, arrival_ns d, service_us d)"

definition row_key :: "sim_conn_row \<Rightarrow> u64 \<times> i64 \<times> u32" where
  "row_key row = (row_conn_id row, row_arrival_ns row, row_service_us row)"

definition accept_keys :: "sim_state \<Rightarrow> (u64 \<times> i64 \<times> u32) list" where
  "accept_keys s = map row_key (filter (\<lambda>row. row_kind_of row = Accept_Row) (sw_conns s))"

definition follow_ids :: "sim_state \<Rightarrow> u64 list" where
  "follow_ids s = map row_conn_id (filter (\<lambda>row. row_kind_of row = Burst_Row) (sw_conns s))"

fun in_hand :: "sim_pc \<Rightarrow> conn_desc list" where
  "in_hand (S_Poll batch) = batch"
| "in_hand (S_Ready batch) = batch"
| "in_hand (S_Serve batch) = batch"
| "in_hand _ = []"

fun to_follow :: "sim_pc \<Rightarrow> u64 list" where
  "to_follow (S_Follow_Ups ids) = ids"
| "to_follow _ = []"

definition delivered :: "nat \<Rightarrow> (conn_desc \<times> nat \<times> bool) list \<Rightarrow> conn_desc list" where
  "delivered w entries = map fst (filter (\<lambda>(d, target, ok). ok \<and> target = w) entries)"

definition flow :: "nat \<Rightarrow> shared_state \<Rightarrow> sim_proc \<Rightarrow> (u64 \<times> i64 \<times> u32) list" where
  "flow w m pr = accept_keys (sp_state pr) @ map desc_key (in_hand (sp_pc pr) @ queue_list (sh_queues m ! w))"

lemma rows_simps [simp]:
  "accept_keys (view m pr) = accept_keys (sp_state pr)" "follow_ids (view m pr) = follow_ids (sp_state pr)"
  "accept_keys (on_slot w f s) = accept_keys s" "follow_ids (on_slot w f s) = follow_ids s"
  "accept_keys (s\<lparr>sw_shared := m\<rparr>) = accept_keys s" "follow_ids (s\<lparr>sw_shared := m\<rparr>) = follow_ids s"
  "accept_keys (s\<lparr>sw_open_conns := cs\<rparr>) = accept_keys s" "follow_ids (s\<lparr>sw_open_conns := cs\<rparr>) = follow_ids s"
  "accept_keys (s\<lparr>sw_hang_pending := h\<rparr>) = accept_keys s" "follow_ids (s\<lparr>sw_hang_pending := h\<rparr>) = follow_ids s"
  "accept_keys (s\<lparr>sw_burst_backlog := ids\<rparr>) = accept_keys s" "follow_ids (s\<lparr>sw_burst_backlog := ids\<rparr>) = follow_ids s"
  "accept_keys (s\<lparr>sw_ticks := ts\<rparr>) = accept_keys s" "follow_ids (s\<lparr>sw_ticks := ts\<rparr>) = follow_ids s"
  "accept_keys (s\<lparr>sw_iter := k\<rparr>) = accept_keys s" "follow_ids (s\<lparr>sw_iter := k\<rparr>) = follow_ids s"
  by (simp_all add: accept_keys_def follow_ids_def)

section \<open>What the parts of a turn leave alone\<close>

definition same_shared :: "shared_state \<Rightarrow> shared_state \<Rightarrow> bool" where
  "same_shared m m' \<longleftrightarrow> (shared_ok m \<longrightarrow> shared_ok m') \<and> sh_shutdown m' = sh_shutdown m \<and> sh_drops m' = sh_drops m \<and>
     sh_queues m' = sh_queues m"

lemma same_shared_refl [simp]: "same_shared m m"
  by (simp add: same_shared_def)

lemma same_shared_trans: "same_shared m m' \<Longrightarrow> same_shared m' m'' \<Longrightarrow> same_shared m m''"
  by (simp add: same_shared_def)

lemma same_shared_on_slot [simp]: "same_shared (sw_shared s) (sw_shared (on_slot w f s))"
  by (simp add: same_shared_def on_slot_def shared_ok_upd_slot)

lemma close_expired_parts:
  "same_shared (sw_shared s) (sw_shared (close_expired w now cs s)) \<and>
   sw_conns (close_expired w now cs s) = sw_conns s \<and>
   sw_burst_pending (close_expired w now cs s) = sw_burst_pending s \<and>
   sw_burst_backlog (close_expired w now cs s) = sw_burst_backlog s \<and>
   sw_open_conns (close_expired w now cs s) = sw_open_conns s @ filter (\<lambda>(cid, deadline). \<not> deadline \<le>s now) cs"
proof (induction cs arbitrary: s)
  case (Cons c cs)
  obtain cid deadline where c: "c = (cid, deadline)" by fastforce
  show ?case
    using Cons [of "on_slot w (sub_conns 1) s"] Cons [of "s\<lparr>sw_open_conns := sw_open_conns s @ [(cid, deadline)]\<rparr>"]
      same_shared_trans [OF same_shared_on_slot [of s w "sub_conns 1"]]
    by (simp add: c)
qed simp

lemma fire_burst_parts:
  "sw_shared (fire_burst t s) = sw_shared s" "sw_conns (fire_burst t s) = sw_conns s"
  "sw_open_conns (fire_burst t s) = sw_open_conns s"
  "(sw_burst_pending (fire_burst t s), sw_burst_backlog (fire_burst t s))
    \<in> {(sw_burst_pending s, sw_burst_backlog s)} \<union>
      (if sw_burst_pending s = None then {} else {(None, map fst (sw_open_conns s))})"
  by (auto simp: fire_burst_def split: option.split)

lemma serve_one_parts:
  assumes "serve_one w p d dequeue_ns done_ns s = Some s'"
  shows "same_shared (sw_shared s) (sw_shared s')" and "accept_keys s' = accept_keys s @ [desc_key d]"
    and "follow_ids s' = follow_ids s" and "map fst (sw_open_conns s') = map fst (sw_open_conns s) @ [conn_id d]"
    and "sw_burst_pending s' = sw_burst_pending s" and "sw_burst_backlog s' = sw_burst_backlog s"
proof -
  have "same_shared (sw_shared s) (sw_shared (on_slot w (sub_pending 1) (on_slot w (add_conns 1) s)))"
    using same_shared_trans [OF same_shared_on_slot same_shared_on_slot] .
  then show "same_shared (sw_shared s) (sw_shared s')" and "accept_keys s' = accept_keys s @ [desc_key d]"
    and "follow_ids s' = follow_ids s" and "map fst (sw_open_conns s') = map fst (sw_open_conns s) @ [conn_id d]"
    and "sw_burst_pending s' = sw_burst_pending s" and "sw_burst_backlog s' = sw_burst_backlog s"
    using assms by (auto simp: serve_one_def follow_one_def Let_def accept_keys_def follow_ids_def row_key_def desc_key_def)
qed

lemma follow_one_parts:
  assumes "follow_one w p b cid dequeue_ns done_ns s = Some s'"
  shows "same_shared (sw_shared s) (sw_shared s')" and "accept_keys s' = accept_keys s"
    and "follow_ids s' = follow_ids s @ [cid]" and "sw_open_conns s' = sw_open_conns s"
    and "sw_burst_pending s' = sw_burst_pending s" and "sw_burst_backlog s' = sw_burst_backlog s"
  using assms by (auto simp: serve_one_def follow_one_def Let_def accept_keys_def follow_ids_def)

section \<open>A step of a worker\<close>

lemmas close_expired_frame =
  close_expired_parts [THEN conjunct1] close_expired_parts [THEN conjunct2, THEN conjunct1]

lemma sim_step_frame:
  assumes "sim_step w cfg p (m, pr) (m', pr')" and "shared_ok m" and "w < NUM_WORKERS"
  shows "shared_ok m' \<and> sh_shutdown m' = sh_shutdown m \<and> sh_drops m' = sh_drops m \<and>
    (\<forall>v. v \<noteq> w \<longrightarrow> sh_queues m' ! v = sh_queues m ! v) \<and> flow w m' pr' = flow w m pr"
  using assms(1)
proof (cases rule: sim_step_cases)
  case (closes now)
  then show ?thesis using assms(2) close_expired_parts [of "(view m pr)\<lparr>sw_open_conns := []\<rparr>" w now "sw_open_conns (sp_state pr)"]
    by (simp add: leave_eq flow_def same_shared_def accept_keys_def)
next
  case (pops batch d q)
  have len: "length (sh_queues m) = NUM_WORKERS" and q: "queue_inv (sh_queues m ! w)"
    using assms(2,3) by (simp_all add: shared_ok_def)
  have "queue_inv q \<and> queue_list (sh_queues m ! w) = d # queue_list q"
    using ring.deq_cases [OF q] pops by (auto split: list.splits)
  then show ?thesis
    using pops assms(2,3) len by (auto simp: leave_eq flow_def shared_ok_upd_queue nth_list_update_neq)
next
  case (serves d ds dequeue_ns done_ns s)
  then show ?thesis using serve_one_parts [OF serves(3)] assms(2) by (simp add: leave_eq flow_def same_shared_def)
next
  case (follows_up cid ids b dequeue_ns done_ns s)
  then show ?thesis using follow_one_parts [OF follows_up(4)] assms(2) by (simp add: leave_eq flow_def same_shared_def)
qed (use assms(2) same_shared_on_slot in \<open>auto simp: leave_eq flow_def same_shared_def fire_burst_parts shared_ok_store
      accept_keys_def [of "fire_burst _ _"] accept_keys_def [of "sp_state pr"]\<close>)

section \<open>Follow-ups stay with the worker\<close>

text \<open>
  All follow-ups of a worker, done and to do, are among its accepted connections, in their order; so
  are the connections it holds open. Before the burst there is none, and without a burst never; the
  accept queue is polled only when no follow-up waits.
\<close>

definition all_follow_ups :: "sim_proc \<Rightarrow> u64 list" where
  "all_follow_ups pr = follow_ids (sp_state pr) @ to_follow (sp_pc pr) @ sw_burst_backlog (sp_state pr)"

definition affinity :: "workload_config \<Rightarrow> sim_proc \<Rightarrow> bool" where
  "affinity cfg pr \<longleftrightarrow>
     subseq (all_follow_ups pr) (map fst (accept_keys (sp_state pr))) \<and>
     subseq (map fst (sw_open_conns (sp_state pr))) (map fst (accept_keys (sp_state pr))) \<and>
     (sw_burst_pending (sp_state pr) \<noteq> None \<longrightarrow> all_follow_ups pr = []) \<and>
     (burst cfg = None \<longrightarrow> sw_burst_pending (sp_state pr) = None \<and> all_follow_ups pr = []) \<and>
     (\<forall>batch. sp_pc pr \<in> {S_Idle, S_Poll batch} \<longrightarrow> sw_burst_backlog (sp_state pr) = [])"

lemma map_fst_filter_subseq: "subseq (map fst (filter P xs)) (map fst xs)"
  by (rule subseq_map) (rule subseq_filter_left)

lemma subseq_snoc: "subseq xs ys \<Longrightarrow> subseq xs (ys @ [y])"
  by (rule list_emb_prefix)

lemma sim_step_affinity:
  assumes "sim_step w cfg p (m, pr) (m', pr')" and "affinity cfg pr"
  shows "affinity cfg pr'"
  using assms(1)
proof (cases rule: sim_step_cases)
  case (closes now)
  then show ?thesis
    using assms(2) close_expired_parts [of "(view m pr)\<lparr>sw_open_conns := []\<rparr>" w now "sw_open_conns (sp_state pr)"]
      subseq_order.trans [OF map_fst_filter_subseq]
    by (auto simp: leave_eq affinity_def all_follow_ups_def accept_keys_def follow_ids_def)
next
  case (fires t)
  then show ?thesis
    using assms(2) fire_burst_parts [of t "view m pr"]
    by (auto simp: leave_eq affinity_def all_follow_ups_def accept_keys_def follow_ids_def split: if_splits)
next
  case (serves d ds dequeue_ns done_ns s)
  then show ?thesis
    using serve_one_parts [OF serves(3)] assms(2)
    by (auto simp: leave_eq affinity_def all_follow_ups_def desc_key_def intro: subseq_snoc)
next
  case (follows_up cid ids b dequeue_ns done_ns s)
  then show ?thesis
    using follow_one_parts [OF follows_up(4)] assms(2)
    by (auto simp: leave_eq affinity_def all_follow_ups_def)
qed (use assms(2) in \<open>auto simp: leave_eq affinity_def all_follow_ups_def view_def on_slot_def\<close>)

section \<open>The system\<close>

text \<open>The connection being counted off as dropped is in the log but not yet in the counters.\<close>

fun in_flight :: "gen_pc \<Rightarrow> nat" where
  "in_flight (G_Full target) = 1"
| "in_flight _ = 0"

definition gen_ok :: "workload_config \<Rightarrow> duration \<Rightarrow> gen_proc \<Rightarrow> (conn_desc \<times> nat \<times> bool) list \<Rightarrow> bool" where
  "gen_ok cfg interval g entries \<longleftrightarrow>
     (let n = length entries - in_flight (gp_pc g)
      in in_flight (gp_pc g) \<le> length (filter (\<lambda>(d, target, ok). \<not> ok) entries) \<and>
         map (conn_id \<circ> fst) entries = map of_nat [0..<length entries] \<and>
         generated (gp_stats g) = of_nat n \<and>
         dropped (gp_stats g) = of_nat (length (filter (\<lambda>(d, target, ok). \<not> ok) entries) - in_flight (gp_pc g)) \<and>
         gp_offset g = n * interval \<and> (\<forall>(d, target, ok)\<in>set entries. target < NUM_WORKERS) \<and>
         (0 < length entries \<longrightarrow> (length entries - 1) * interval < duration_of cfg) \<and>
         (case gp_pc g of
            G_Push target d \<Rightarrow> target < NUM_WORKERS \<and> conn_id d = of_nat n \<and> gp_offset g < duration_of cfg
          | G_Full target \<Rightarrow> target < NUM_WORKERS
          | G_Loop \<Rightarrow> True
          | G_Done \<Rightarrow> \<not> gp_offset g < duration_of cfg))"

lemma gen_step_ok:
  assumes "gen_step cfg p seed interval (m, g) (m', g') entries" and "gen_ok cfg interval g before"
  shows "gen_ok cfg interval g' (before @ entries)"
  using assms(1)
proof (cases rule: gen_step_cases)
  case (arrive now)
  then show ?thesis using assms(2) by (simp add: gen_ok_def Let_def gen_desc_def dispatch_less)
next
  case (pushed target d q)
  then show ?thesis using assms(2) by (simp add: gen_ok_def Let_def next_conn_def)
next
  case (full target d q)
  then show ?thesis using assms(2) by (simp add: gen_ok_def Let_def)
next
  case (drop target)
  then show ?thesis using assms(2)
    by (cases "length before") (auto simp: gen_ok_def Let_def next_conn_def of_nat_diff)
next
  case finish
  then show ?thesis using assms(2) by (simp add: gen_ok_def Let_def)
qed

lemma gen_step_frame:
  assumes "gen_step cfg p seed interval (m, g) (m', g') entries" and "shared_ok m" and "gen_ok cfg interval g before"
  shows "shared_ok m' \<and> gp_pc g \<noteq> G_Done \<and>
    (gp_pc g' = G_Done \<longrightarrow> shutdown_requested m') \<and> (gp_pc g' \<noteq> G_Done \<longrightarrow> sh_shutdown m' = sh_shutdown m) \<and>
    (\<forall>w<NUM_WORKERS. queue_list (sh_queues m' ! w) = queue_list (sh_queues m ! w) @ delivered w entries)"
proof -
  have push_ok: "queue_inv q \<and> queue_list q = queue_list (sh_queues m ! target) @ (if ok then [d] else [])"
    if "push (sh_queues m ! target) d = (ok, q)" "target < NUM_WORKERS" for target d ok q
    using ring.enq_cases [OF shared_ok_queue [OF assms(2) that(2)], of d] that(1) by (auto split: if_splits)
  have len: "length (sh_queues m) = NUM_WORKERS" "length (sh_drops m) = NUM_WORKERS"
    using assms(2) by (simp_all add: shared_ok_def)
  show ?thesis
    using assms(1)
  proof (cases rule: gen_step_cases)
    case (pushed target d q)
    then have "target < NUM_WORKERS" using assms(3) by (simp add: gen_ok_def Let_def)
    then show ?thesis
      using push_ok [of target d True q] pushed assms(2) len
      by (auto simp: shared_ok_upd_queue delivered_def next_conn_def nth_list_update)
  next
    case (full target d q)
    then have "target < NUM_WORKERS" using assms(3) by (simp add: gen_ok_def Let_def)
    then show ?thesis
      using push_ok [of target d False q] full assms(2) len
      by (auto simp: shared_ok_upd_queue delivered_def nth_list_update)
  qed (use assms(2) len in \<open>auto simp: delivered_def next_conn_def shared_ok_drops shared_ok_shutdown shutdown_requested_def
      request_shutdown_def shared_ok_def\<close>)
qed

lemma sim_step_pc:
  assumes "sim_step w cfg p (m, pr) (m', pr')"
  shows "sp_pc pr \<noteq> S_Exited" and "sp_pc pr' = S_Drained \<Longrightarrow> shutdown_requested m"
    and "sp_pc pr' = S_Exited \<Longrightarrow> sp_pc pr = S_Drained \<and> queue_is_empty (sh_queues m' ! w) \<and> all_follow_ups pr' = follow_ids (sp_state pr')"
  using assms by (cases rule: sim_step_cases; auto simp: leave_eq all_follow_ups_def)+

definition proc_inv :: "workload_config \<Rightarrow> nat \<Rightarrow> sim_sys \<Rightarrow> bool" where
  "proc_inv cfg w S \<longleftrightarrow>
     (let pr = ss_procs S ! w
      in flow w (ss_mem S) pr = map desc_key (delivered w (ss_log S)) \<and> affinity cfg pr \<and>
         (sp_pc pr \<in> {S_Drained, S_Exited} \<longrightarrow> gp_pc (ss_gen S) = G_Done) \<and>
         (sp_pc pr = S_Exited \<longrightarrow> queue_list (sh_queues (ss_mem S) ! w) = [] \<and> all_follow_ups pr = follow_ids (sp_state pr)))"

definition sys_inv :: "workload_config \<Rightarrow> duration \<Rightarrow> sim_sys \<Rightarrow> bool" where
  "sys_inv cfg interval S \<longleftrightarrow>
     shared_ok (ss_mem S) \<and> length (ss_procs S) = NUM_WORKERS \<and> gen_ok cfg interval (ss_gen S) (ss_log S) \<and>
     (shutdown_requested (ss_mem S) \<longleftrightarrow> gp_pc (ss_gen S) = G_Done) \<and> (\<forall>w<NUM_WORKERS. proc_inv cfg w S)"

lemma delivered_append: "delivered w (xs @ ys) = delivered w xs @ delivered w ys"
  by (simp add: delivered_def)

lemma queue_list_empty: "queue_is_empty q \<longleftrightarrow> queue_list q = []"
  by (metis length_0_conv length_queue_list queue_is_empty_def)

lemma sys_inv_start: "sys_inv cfg interval (sys_start cfg)"
proof -
  have "affinity cfg (fresh_worker cfg w)" for w
    by (simp add: affinity_def all_follow_ups_def fresh_worker_def sim_start_def accept_keys_def follow_ids_def)
  moreover have "queue_list (sh_queues zeroed_state ! w) = []" if "w < NUM_WORKERS" for w
    using zeroed_state_ok(2) that by (simp add: zeroed_state_def)
  ultimately show ?thesis
    using zeroed_state_ok(1,3)
    by (simp add: sys_inv_def sys_start_def fresh_gen_def gen_ok_def gen_start_def proc_inv_def flow_def fresh_worker_def
        sim_start_def accept_keys_def delivered_def Let_def)
qed

lemma sys_inv_step:
  assumes "sys_step cfg p seed interval S S'" and "sys_inv cfg interval S"
  shows "sys_inv cfg interval S'"
  using assms(1)
proof cases
  case (generator m g entries)
  have ok: "shared_ok (ss_mem S)" "gen_ok cfg interval (ss_gen S) (ss_log S)" using assms(2) by (simp_all add: sys_inv_def)
  note f = gen_step_frame [OF generator(2) ok]
  have "proc_inv cfg w S'" if w: "w < NUM_WORKERS" for w
  proof -
    have inv: "proc_inv cfg w S" using assms(2) w by (simp add: sys_inv_def)
    have "flow w m (ss_procs S ! w) = flow w (ss_mem S) (ss_procs S ! w) @ map desc_key (delivered w entries)"
      using f w by (simp add: flow_def)
    then show ?thesis using inv f generator(1) by (auto simp: proc_inv_def Let_def delivered_append)
  qed
  then show ?thesis
    using f generator(1) assms(2) gen_step_ok [OF generator(2) ok(2)]
    by (auto simp: sys_inv_def shutdown_requested_def)
next
  case (worker w m pr)
  have ok: "shared_ok (ss_mem S)" using assms(2) by (simp add: sys_inv_def)
  note f = sim_step_frame [OF worker(3) ok worker(2)] and pc = sim_step_pc [OF worker(3)]
  have len: "length (ss_procs S) = NUM_WORKERS" using assms(2) by (simp add: sys_inv_def)
  have "proc_inv cfg v S'" if v: "v < NUM_WORKERS" for v
  proof (cases "v = w")
    case True
    have inv: "proc_inv cfg w S" using assms(2) worker(2) by (simp add: sys_inv_def)
    then have "affinity cfg pr" using sim_step_affinity [OF worker(3)] by (simp add: proc_inv_def Let_def)
    moreover have "sp_pc pr \<in> {S_Drained, S_Exited} \<longrightarrow> gp_pc (ss_gen S) = G_Done"
      using pc inv assms(2) by (auto simp: sys_inv_def proc_inv_def Let_def)
    ultimately show ?thesis
      using True inv f pc(3) worker(1,2) len by (simp add: proc_inv_def Let_def queue_list_empty)
  next
    case False
    have "proc_inv cfg v S" using assms(2) v by (simp add: sys_inv_def)
    then show ?thesis using False f worker(1) by (simp add: proc_inv_def Let_def flow_def)
  qed
  then show ?thesis
    using f worker(1) assms(2) by (simp add: sys_inv_def shutdown_requested_def)
qed

lemma sys_reachable_inv: "sys_reachable cfg p seed interval S \<Longrightarrow> sys_inv cfg interval S"
  by (induction rule: sys_reachable.induct) (auto intro: sys_inv_start sys_inv_step)

lemma delivered_total:
  "\<forall>(d, target, ok)\<in>set entries. target < n \<Longrightarrow>
    (\<Sum>w<n. length (delivered w entries)) + length (filter (\<lambda>(d, target, ok). \<not> ok) entries) = length entries"
proof (induction entries)
  case (Cons e entries)
  obtain d target ok where e: "e = (d, target, ok)" using prod_cases3 by blast
  have "delivered w (e # entries) = (if ok \<and> target = w then [d] else []) @ delivered w entries" for w
    by (simp add: e delivered_def)
  then have "(\<Sum>w<n. length (delivered w (e # entries))) =
      (\<Sum>w<n. (if ok \<and> target = w then 1 else 0) + length (delivered w entries))"
    by (intro sum.cong) auto
  also have "\<dots> = (if ok \<and> target < n then 1 else 0) + (\<Sum>w<n. length (delivered w entries))"
    by (cases ok) (simp_all add: sum.distrib)
  finally show ?case using Cons e by auto
qed (simp add: delivered_def)

lemma finished_run:
  assumes "sys_reachable cfg p seed interval S" and "gp_pc (ss_gen S) = G_Done" and "0 < interval"
  shows "length (ss_log S) = ceil_div (duration_of cfg) interval" and "gen_ok cfg interval (ss_gen S) (ss_log S)"
proof -
  show ok: "gen_ok cfg interval (ss_gen S) (ss_log S)" using sys_reachable_inv [OF assms(1)] by (simp add: sys_inv_def)
  then have "\<not> length (ss_log S) * interval < duration_of cfg"
    "0 < length (ss_log S) \<longrightarrow> (length (ss_log S) - 1) * interval < duration_of cfg"
    using assms(2) by (simp_all add: gen_ok_def Let_def)
  then have "ceil_div (duration_of cfg) interval \<le> length (ss_log S)"
    "0 < length (ss_log S) \<longrightarrow> \<not> ceil_div (duration_of cfg) interval \<le> length (ss_log S) - 1"
    by (auto simp: ceil_div_le_iff [OF assms(3)] not_less not_le)
  then show "length (ss_log S) = ceil_div (duration_of cfg) interval" by (cases "length (ss_log S)") auto
qed

lemma exited_worker:
  assumes "sys_reachable cfg p seed interval S" and "w < NUM_WORKERS" and "sp_pc (ss_procs S ! w) = S_Exited"
  shows "accept_keys (sp_state (ss_procs S ! w)) = map desc_key (delivered w (ss_log S))"
    and "subseq (follow_ids (sp_state (ss_procs S ! w))) (map fst (accept_keys (sp_state (ss_procs S ! w))))"
proof -
  have "proc_inv cfg w S" using sys_reachable_inv [OF assms(1)] assms(2) by (simp add: sys_inv_def)
  then show "accept_keys (sp_state (ss_procs S ! w)) = map desc_key (delivered w (ss_log S))"
    and "subseq (follow_ids (sp_state (ss_procs S ! w))) (map fst (accept_keys (sp_state (ss_procs S ! w))))"
    using assms(3) unfolding proc_inv_def flow_def affinity_def Let_def by auto
qed

end
