(* ===== verification/Sim_Drain.thy ===== *)
theory Sim_Drain
  imports Sim_Conservation
begin

text \<open>
  The simulation comes to rest. No process of it ever blocks, the \<open>expect\<close> in the worker's burst
  branch included, and once the generator is done every further step of a worker brings it closer
  to its exit, so that every run from there is finite and can only end with all workers gone; what it leaves behind
  is what \<open>Sim_Conservation\<close> says.
\<close>

section \<open>No process blocks\<close>

lemma gen_can_step:
  assumes "gp_pc g \<noteq> G_Done"
  shows "\<exists>r entries. gen_step cfg p seed interval (m, g) r entries"
proof (cases "gp_pc g")
  case G_Loop
  show ?thesis
  proof (cases "gp_offset g < duration_of cfg")
    case True
    then show ?thesis using gen_step.arrive [OF G_Loop True refl refl refl] by blast
  next
    case False
    then show ?thesis using gen_step.finish [OF G_Loop False] by blast
  qed
next
  case (G_Push target d)
  obtain ok q where "push (sh_queues m ! target) d = (ok, q)" by fastforce
  then show ?thesis
    using gen_step.pushed [OF G_Push, of m q cfg p seed interval] gen_step.full [OF G_Push, of m q cfg p seed interval]
    by (cases ok) auto
next
  case (G_Full target)
  then show ?thesis using gen_step.drop by blast
qed (use assms in simp)

lemma worker_can_move:
  assumes "affinity cfg pr" and "sp_pc pr \<noteq> S_Exited"
  shows "\<exists>r. sim_step w cfg p (m, pr) r"
proof (cases "sp_pc pr")
  case S_Hang
  show ?thesis
  proof (cases "sw_hang_pending (sp_state pr)")
    case None
    then show ?thesis using sim_step.goes_on [OF S_Hang] by fastforce
  next
    case (Some h)
    then show ?thesis using sim_step.hangs [OF S_Hang Some order.refl] by blast
  qed
next
  case S_Choose
  then show ?thesis using sim_step.follow_ups [OF S_Choose _ refl refl refl] sim_step.polls [OF S_Choose] by blast
next
  case (S_Follow_Ups ids)
  show ?thesis
  proof (cases ids)
    case Nil
    then show ?thesis using sim_step.followed_up_all S_Follow_Ups by blast
  next
    case (Cons cid ids')
    then obtain b where b: "burst cfg = Some b"
      using assms(1) S_Follow_Ups by (cases "burst cfg") (auto simp: affinity_def all_follow_ups_def)
    have "\<exists>s. follow_one w p b cid 0 0 (view m pr) = Some s" by (simp add: follow_one_def Let_def)
    then show ?thesis using sim_step.follows_up [of pr cid ids' cfg b] S_Follow_Ups Cons b by blast
  qed
next
  case (S_Poll batch)
  show ?thesis
  proof (cases "length batch < SIM_MAX_EVENTS")
    case True
    obtain d q where q: "pop (sh_queues m ! w) = (d, q)" by fastforce
    show ?thesis
    proof (cases d)
      case None
      then show ?thesis
        using q sim_step.no_more [OF S_Poll True] sim_step.finds_none [of pr m w] S_Poll by (cases "batch = []") blast+
    next
      case (Some x)
      then show ?thesis using q sim_step.pops [OF S_Poll True] by blast
    qed
  qed (use sim_step.full_batch [OF S_Poll] in blast)
next
  case S_Idle
  then show ?thesis using sim_step.gives_up [OF S_Idle, of True] by blast
next
  case (S_Serve ds)
  show ?thesis
  proof (cases ds)
    case Nil
    then show ?thesis using sim_step.served_all S_Serve by blast
  next
    case (Cons d ds')
    have "\<exists>s. serve_one w p d 0 0 (view m pr) = Some s" by (simp add: serve_one_def Let_def)
    then show ?thesis using sim_step.serves [of pr d ds'] S_Serve Cons by blast
  qed
next
  case S_Schedule
  then show ?thesis using sim_step.schedules [OF S_Schedule] sim_step.no_scheduler [OF S_Schedule] by blast
next
  case (S_Load t vs)
  then show ?thesis using sim_step.loads_one [OF S_Load] sim_step.publishes [OF S_Load _ refl] by blast
next
  case (S_Tick_Load result t vs)
  then show ?thesis using sim_step.tick_loads [OF S_Tick_Load] sim_step.ticks [OF S_Tick_Load _ refl] by blast
next
  case S_Check
  then show ?thesis using sim_step.runs_on sim_step.stopping by blast
next
  case S_Drained
  then show ?thesis using sim_step.still_work [OF S_Drained] sim_step.exits [OF S_Drained] by blast
next
  case S_Top
  then show ?thesis using sim_step.stamp [OF S_Top] by blast
next
  case S_Close
  then show ?thesis using sim_step.closes [OF S_Close refl] by blast
next
  case S_Fire
  then show ?thesis using sim_step.fires [OF S_Fire] by blast
next
  case (S_Ready batch)
  then show ?thesis using sim_step.ready [OF S_Ready] by blast
next
  case (S_Tick result)
  then show ?thesis using sim_step.tick_clock [OF S_Tick] by blast
qed (use assms(2) in simp)

section \<open>What is left to do\<close>

text \<open>A hang and a burst can each still happen once; connections and follow-ups that wait cost a turn.\<close>

definition waiting :: "nat \<Rightarrow> shared_state \<Rightarrow> sim_proc \<Rightarrow> nat" where
  "waiting w m pr = queue_len (sh_queues m ! w) + length (sw_burst_backlog (sp_state pr))"

fun turn_left :: "nat \<Rightarrow> sim_pc \<Rightarrow> nat" where
  "turn_left again S_Top = 56"
| "turn_left again S_Hang = 55"
| "turn_left again S_Close = 54"
| "turn_left again S_Fire = 53"
| "turn_left again S_Choose = 52"
| "turn_left again (S_Follow_Ups ids) = again + 35 + 2 * length ids"
| "turn_left again (S_Poll batch) = (if batch = [] then 51 else again + 38 + 3 * length batch)"
| "turn_left again S_Idle = again + 37"
| "turn_left again (S_Ready batch) = again + 36 + 2 * length batch"
| "turn_left again (S_Serve batch) = again + 35 + 2 * length batch"
| "turn_left again S_Schedule = again + 31"
| "turn_left again (S_Load t vs) = again + 18 + (SNAPSHOT_LOADS - length vs)"
| "turn_left again (S_Tick result) = again + 17"
| "turn_left again (S_Tick_Load result t vs) = again + 4 + (SNAPSHOT_LOADS - length vs)"
| "turn_left again S_Check = again + 3"
| "turn_left again S_Drained = again + 2"
| "turn_left again S_Exited = 0"

definition work_left :: "nat \<Rightarrow> shared_state \<Rightarrow> sim_proc \<Rightarrow> nat" where
  "work_left w m pr = 100 * waiting w m pr + turn_left (if 0 < waiting w m pr then 60 else 0) (sp_pc pr)"

definition hang_left :: "sim_proc \<Rightarrow> nat" where
  "hang_left pr = (if sw_hang_pending (sp_state pr) = None then 0 else 1)"

definition burst_left :: "sim_proc \<Rightarrow> nat" where
  "burst_left pr = (if sw_burst_pending (sp_state pr) = None then 0 else 1)"

definition less_left :: "nat \<Rightarrow> shared_state \<times> sim_proc \<Rightarrow> shared_state \<times> sim_proc \<Rightarrow> bool" where
  "less_left w x y \<longleftrightarrow> hang_left (snd x) < hang_left (snd y) \<or> hang_left (snd x) = hang_left (snd y) \<and>
     (burst_left (snd x) < burst_left (snd y) \<or> burst_left (snd x) = burst_left (snd y) \<and>
       work_left w (fst x) (snd x) < work_left w (fst y) (snd y))"

lemma on_slot_pending [simp]: "sw_hang_pending (on_slot w f s) = sw_hang_pending s"
  by (simp add: on_slot_def)

lemma close_expired_hang: "sw_hang_pending (close_expired w now cs s) = sw_hang_pending s"
  by (induction cs arbitrary: s) (auto split: prod.split)

lemma taking_pays:
  assumes "1 \<le> k" and "k \<le> l"
  shows "100 * (len + l - k) + (95 + 2 * k) < 100 * (len + l) + (52 :: nat)"
proof -
  obtain j where "l = k + j" using assms(2) le_Suc_ex by blast
  then show ?thesis using assms(1) by simp
qed

lemma worker_drains:
  assumes "sim_step w cfg p (m, pr) (m', pr')" and "shared_ok m" and "w < NUM_WORKERS"
    and "affinity cfg pr" and "shutdown_requested m"
  shows "less_left w (m', pr') (m, pr)"
  using assms(1)
proof (cases rule: sim_step_cases)
  case (closes now)
  then show ?thesis
    using close_expired_parts [of "(view m pr)\<lparr>sw_open_conns := []\<rparr>" w now "sw_open_conns (sp_state pr)"]
    by (simp add: less_left_def leave_eq hang_left_def burst_left_def work_left_def waiting_def same_shared_def
        close_expired_hang)
next
  case (fires t)
  then show ?thesis
    using fire_burst_parts [of t "view m pr"]
    by (auto simp: less_left_def leave_eq hang_left_def burst_left_def work_left_def waiting_def fire_burst_def
        split: option.splits)
next
  case follow_ups
  let ?n = "min (length (sw_burst_backlog (sp_state pr))) SIM_MAX_EVENTS"
  have n: "1 \<le> ?n" "?n \<le> 4" "?n \<le> length (sw_burst_backlog (sp_state pr))"
    using follow_ups(3) by (auto simp: SIM_MAX_EVENTS_def Suc_le_eq)
  define k where "k = ?n"
  have "100 * (len + length (sw_burst_backlog (sp_state pr)) - k) + (95 + 2 * k) <
      100 * (len + length (sw_burst_backlog (sp_state pr))) + 52" for len
    using n unfolding k_def [symmetric] by (intro taking_pays)
  then show ?thesis
    using follow_ups n unfolding k_def [symmetric]
    by (simp add: less_left_def leave_eq hang_left_def burst_left_def work_left_def waiting_def)
next
  case (pops batch d q)
  have q: "queue_inv (sh_queues m ! w)" "length (sh_queues m) = NUM_WORKERS"
    using assms(2,3) by (simp_all add: shared_ok_def)
  have "queue_inv q \<and> queue_list (sh_queues m ! w) = d # queue_list q"
    using ring.deq_cases [OF q(1)] pops by (auto split: list.splits)
  then have "queue_len (sh_queues m ! w) = Suc (queue_len q)" by (metis length_Cons length_queue_list)
  then show ?thesis
    using pops q assms(3) by (simp add: less_left_def leave_eq hang_left_def burst_left_def work_left_def waiting_def)
next
  case (finds_none q)
  have "queue_inv (sh_queues m ! w)" using assms(2,3) by (simp add: shared_ok_def)
  then have "queue_list (sh_queues m ! w) = []" using ring.deq_cases finds_none(3) by (fastforce split: list.splits)
  then have "queue_len (sh_queues m ! w) = 0" by (metis length_queue_list list.size(3))
  moreover have "sw_burst_backlog (sp_state pr) = []" using assms(4) finds_none(2) by (simp add: affinity_def)
  ultimately show ?thesis
    using finds_none by (simp add: less_left_def leave_eq hang_left_def burst_left_def work_left_def waiting_def)
next
  case (serves d ds dequeue_ns done_ns s)
  then show ?thesis
    by (auto simp: less_left_def leave_eq hang_left_def burst_left_def work_left_def waiting_def serve_one_def Let_def)
next
  case (follows_up cid ids b dequeue_ns done_ns s)
  then show ?thesis
    by (auto simp: less_left_def leave_eq hang_left_def burst_left_def work_left_def waiting_def follow_one_def Let_def)
next
  case (full_batch batch)
  then have "batch \<noteq> []" by (auto simp: SIM_MAX_EVENTS_def)
  then show ?thesis
    using full_batch by (simp add: less_left_def leave_eq hang_left_def burst_left_def work_left_def waiting_def)
next
  case still_work
  then show ?thesis
    by (auto simp: less_left_def leave_eq hang_left_def burst_left_def work_left_def waiting_def queue_is_empty_def)
next
  case exits
  then show ?thesis
    by (simp add: less_left_def leave_eq hang_left_def burst_left_def work_left_def waiting_def view_def)
qed (use assms(4,5) in \<open>simp_all add: less_left_def leave_eq hang_left_def burst_left_def work_left_def waiting_def
      SNAPSHOT_LOADS_def NUM_WORKERS_def view_def [of m pr] view_def [of "m\<lparr>sh_msel := _\<rparr>" pr] on_slot_def\<close>)

section \<open>The system comes to rest\<close>

definition all_left :: "sim_sys \<Rightarrow> nat \<times> nat \<times> nat" where
  "all_left S = (\<Sum>w<NUM_WORKERS. hang_left (ss_procs S ! w), \<Sum>w<NUM_WORKERS. burst_left (ss_procs S ! w),
     \<Sum>w<NUM_WORKERS. work_left w (ss_mem S) (ss_procs S ! w))"

abbreviation left_order :: "((nat \<times> nat \<times> nat) \<times> (nat \<times> nat \<times> nat)) set" where
  "left_order \<equiv> less_than <*lex*> less_than <*lex*> less_than"

definition all_exited :: "sim_sys \<Rightarrow> bool" where
  "all_exited S \<longleftrightarrow> (\<forall>w<NUM_WORKERS. sp_pc (ss_procs S ! w) = S_Exited)"

lemma sum_changes:
  fixes f g :: "nat \<Rightarrow> nat"
  assumes "w < n" and "\<And>v. v \<noteq> w \<Longrightarrow> f v = g v"
  shows "(f w < g w \<longrightarrow> sum f {..<n} < sum g {..<n}) \<and> (f w = g w \<longrightarrow> sum f {..<n} = sum g {..<n})"
proof -
  have "sum f ({..<n} - {w}) = sum g ({..<n} - {w})" using assms(2) by (intro sum.cong) auto
  then show ?thesis using assms(1) by (simp add: sum.remove [of "{..<n}" w])
qed

lemma done_step:
  assumes "sys_reachable cfg p seed interval S" and "gp_pc (ss_gen S) = G_Done" and "sys_step cfg p seed interval S S'"
  shows "ss_gen S' = ss_gen S \<and> ss_log S' = ss_log S \<and> (all_left S', all_left S) \<in> left_order"
  using assms(3)
proof cases
  case (generator m g entries)
  have "shared_ok (ss_mem S)" "gen_ok cfg interval (ss_gen S) (ss_log S)"
    using sys_reachable_inv [OF assms(1)] by (simp_all add: sys_inv_def)
  then show ?thesis using gen_step_frame [OF generator(2)] assms(2) by blast
next
  case (worker w m pr)
  note inv = sys_reachable_inv [OF assms(1)]
  have ok: "shared_ok (ss_mem S)" "shutdown_requested (ss_mem S)" "affinity cfg (ss_procs S ! w)" "length (ss_procs S) = NUM_WORKERS"
    using inv worker(2) assms(2) by (simp_all add: sys_inv_def proc_inv_def Let_def)
  have less: "less_left w (m, pr) (ss_mem S, ss_procs S ! w)"
    by (rule worker_drains [OF worker(3) ok(1) worker(2) ok(3,2)])
  have others: "work_left v m (ss_procs S ! v) = work_left v (ss_mem S) (ss_procs S ! v)" if "v \<noteq> w" for v
    using sim_step_frame [OF worker(3) ok(1) worker(2)] that by (simp add: work_left_def waiting_def)
  note h = sum_changes [OF worker(2), of "\<lambda>v. hang_left (ss_procs S' ! v)" "\<lambda>v. hang_left (ss_procs S ! v)"]
  note b = sum_changes [OF worker(2), of "\<lambda>v. burst_left (ss_procs S' ! v)" "\<lambda>v. burst_left (ss_procs S ! v)"]
  note l = sum_changes [OF worker(2), of "\<lambda>v. work_left v (ss_mem S') (ss_procs S' ! v)" "\<lambda>v. work_left v (ss_mem S) (ss_procs S ! v)"]
  show ?thesis
    using less h b l others worker(1,2) ok(4) by (auto simp: all_left_def less_left_def)
qed

lemma wf_left: "wf (inv_image left_order all_left)"
  by (intro wf_inv_image wf_lex_prod wf_less_than)

lemma finishes:
  assumes "sys_reachable cfg p seed interval S" and "gp_pc (ss_gen S) = G_Done"
  shows "\<exists>S'. sys_reachable cfg p seed interval S' \<and> all_exited S' \<and> ss_gen S' = ss_gen S \<and> ss_log S' = ss_log S"
  using wf_left assms
proof (induction S rule: wf_induct_rule)
  case (less S)
  show ?case
  proof (cases "all_exited S")
    case False
    then obtain w where w: "w < NUM_WORKERS" "sp_pc (ss_procs S ! w) \<noteq> S_Exited" by (auto simp: all_exited_def)
    have "affinity cfg (ss_procs S ! w)"
      using sys_reachable_inv [OF less.prems(1)] w(1) by (simp add: sys_inv_def proc_inv_def Let_def)
    from worker_can_move [OF this w(2)] obtain m pr where "sim_step w cfg p (ss_mem S, ss_procs S ! w) (m, pr)" by fastforce
    then obtain S' where s: "sys_step cfg p seed interval S S'" using sys_step.worker w(1) by blast
    note d = done_step [OF less.prems s]
    then show ?thesis
      using less.IH [of S'] sys_next [OF less.prems(1) s] less.prems(2) by (metis in_inv_image)
  qed (use less.prems in blast)
qed

section \<open>Properties\<close>

text \<open>
  C4: No connection is lost, served twice or served out of turn: in every interleaving of the generator
  and the workers, once the generator is done and the workers have exited, the generator has
  attempted connections \<open>0, 1, \<dots>\<close>, one per interval of the run, in this order; each worker has
  recorded exactly the ones delivered to it, in order and with their arrival and service times;
  together with the counted drops these are all; and follow-ups are for connections the worker
  has itself accepted, each at most once.
\<close>

theorem no_connection_is_lost:
  assumes "sys_reachable cfg p seed interval S" and "0 < interval" and "gp_pc (ss_gen S) = G_Done"
    and "\<forall>w<NUM_WORKERS. sp_pc (ss_procs S ! w) = S_Exited"
  shows "let n = ceil_div (duration_of cfg) interval; stats = gp_stats (ss_gen S);
      accepted = \<lambda>w. accept_keys (sp_state (ss_procs S ! w));
      lost = filter (\<lambda>(d, target, ok). \<not> ok) (ss_log S)
    in map (conn_id \<circ> fst) (ss_log S) = map of_nat [0..<n] \<and>
      generated stats = of_nat n \<and> dropped stats = of_nat (length lost) \<and>
      (\<Sum>w<NUM_WORKERS. length (accepted w)) + length lost = n \<and>
      (\<forall>w<NUM_WORKERS. accepted w = map desc_key (delivered w (ss_log S)) \<and>
        subseq (follow_ids (sp_state (ss_procs S ! w))) (map fst (accepted w)))"
proof -
  note n = finished_run [OF assms(1,3,2)]
  have w: "accept_keys (sp_state (ss_procs S ! w)) = map desc_key (delivered w (ss_log S)) \<and>
      subseq (follow_ids (sp_state (ss_procs S ! w))) (map fst (accept_keys (sp_state (ss_procs S ! w))))"
    if "w < NUM_WORKERS" for w
    using exited_worker [OF assms(1) that] assms(4) that by blast
  then have "(\<Sum>w<NUM_WORKERS. length (accept_keys (sp_state (ss_procs S ! w)))) =
      (\<Sum>w<NUM_WORKERS. length (delivered w (ss_log S)))"
    by (intro sum.cong) simp_all
  then have "(\<Sum>w<NUM_WORKERS. length (accept_keys (sp_state (ss_procs S ! w)))) +
      length (filter (\<lambda>(d, target, ok). \<not> ok) (ss_log S)) = ceil_div (duration_of cfg) interval"
    using delivered_total [of "ss_log S" NUM_WORKERS] n by (simp add: gen_ok_def Let_def)
  moreover have "map (conn_id \<circ> fst) (ss_log S) = map of_nat [0..<ceil_div (duration_of cfg) interval]"
    "generated (gp_stats (ss_gen S)) = of_nat (ceil_div (duration_of cfg) interval)"
    "dropped (gp_stats (ss_gen S)) = of_nat (length (filter (\<lambda>(d, target, ok). \<not> ok) (ss_log S)))"
    using n assms(3) by (simp_all add: gen_ok_def Let_def)
  ultimately show ?thesis unfolding Let_def using w by blast
qed

text \<open>
  C17: The simulation always comes to an end: in every reachable state the generator and each worker that
  has not exited can make a step, so nothing waits for ever and the worker's \<open>expect\<close> never fails;
  and from any state where the generator is done there is no infinite run, whatever the order of
  the processes, so every run ends, and it ends with all workers gone.
\<close>

theorem simulation_comes_to_rest:
  assumes "sys_reachable cfg p seed interval S"
  shows "(gp_pc (ss_gen S) \<noteq> G_Done \<longrightarrow> (\<exists>r entries. gen_step cfg p seed interval (ss_mem S, ss_gen S) r entries)) \<and>
    (\<forall>w<NUM_WORKERS. sp_pc (ss_procs S ! w) \<noteq> S_Exited \<longrightarrow> (\<exists>r. sim_step w cfg p (ss_mem S, ss_procs S ! w) r)) \<and>
    (gp_pc (ss_gen S) = G_Done \<longrightarrow>
      \<not> (\<exists>run. run 0 = S \<and> (\<forall>k. sys_step cfg p seed interval (run k) (run (Suc k)))) \<and>
      (\<exists>S'. sys_reachable cfg p seed interval S' \<and> all_exited S' \<and> ss_gen S' = ss_gen S \<and> ss_log S' = ss_log S))"
proof -
  have "affinity cfg (ss_procs S ! w)" if "w < NUM_WORKERS" for w
    using sys_reachable_inv [OF assms] that by (simp add: sys_inv_def proc_inv_def Let_def)
  moreover have "False" if "gp_pc (ss_gen S) = G_Done" "run 0 = S" "\<And>k. sys_step cfg p seed interval (run k) (run (Suc k))" for run
  proof -
    have r: "sys_reachable cfg p seed interval (run k) \<and> gp_pc (ss_gen (run k)) = G_Done" for k
    proof (induction k)
      case (Suc k)
      then show ?case using done_step [of cfg p seed interval "run k" "run (Suc k)"] sys_next that(3) by metis
    qed (use that assms in simp)
    have "(run (Suc k), run k) \<in> inv_image left_order all_left" for k
      using done_step [of cfg p seed interval "run k" "run (Suc k)"] r that(3) by simp
    then show False using wf_left unfolding wf_iff_no_infinite_down_chain by blast
  qed
  ultimately show ?thesis using gen_can_step worker_can_move finishes [OF assms] by blast
qed

text \<open>A run of one nanosecond has one connection.\<close>

definition one_shot :: workload_config where
  "one_shot = default_case\<lparr>duration_of := 1\<rparr>"

lemma generator_step:
  "sys_reachable cfg p seed interval S \<Longrightarrow> gen_step cfg p seed interval (ss_mem S, ss_gen S) (m, g) entries \<Longrightarrow>
    sys_reachable cfg p seed interval (S\<lparr>ss_mem := m, ss_gen := g, ss_log := ss_log S @ entries\<rparr>)"
  using sys_next [OF _ sys_step.generator] by blast

lemma one_shot_done: "\<exists>S. sys_reachable one_shot p seed 1 S \<and> gp_pc (ss_gen S) = G_Done \<and> length (ss_log S) = 1"
proof -
  let ?S = "sys_start one_shot"
  define target where "target = dispatch zeroed_state p (gen_hash 0 seed)"
  define d where "d = gen_desc one_shot 0 (gen_hash 0 seed) 0"
  have t: "target < NUM_WORKERS" by (simp add: target_def dispatch_less)
  have z: "sh_queues zeroed_state ! target = zeroed_queue" using t by (simp add: zeroed_state_def)
  obtain q where q: "push zeroed_queue d = (True, q)"
    by (simp add: push_def zeroed_queue_def QUEUE_CAP_def Let_def)
  have a: "gen_step one_shot p seed 1 (ss_mem ?S, ss_gen ?S) (zeroed_state, (ss_gen ?S)\<lparr>gp_pc := G_Push target d,
      gp_stats := gen_start\<lparr>dispatched_per_worker := (dispatched_per_worker gen_start)[target := dispatched_per_worker gen_start ! target + 1]\<rparr>\<rparr>) []"
    using gen_step.arrive [of "ss_gen ?S" one_shot 0 "gen_hash 0 seed" seed target zeroed_state p 1 0]
    by (simp add: sys_start_def fresh_gen_def one_shot_def target_def d_def gen_start_def)
  note r1 = generator_step [OF sys_begin a]
  let ?S1 = "?S\<lparr>ss_mem := zeroed_state, ss_gen := (ss_gen ?S)\<lparr>gp_pc := G_Push target d,
      gp_stats := gen_start\<lparr>dispatched_per_worker := (dispatched_per_worker gen_start)[target := dispatched_per_worker gen_start ! target + 1]\<rparr>\<rparr>,
      ss_log := ss_log ?S @ []\<rparr>"
  have b: "gen_step one_shot p seed 1 (ss_mem ?S1, ss_gen ?S1)
      (zeroed_state\<lparr>sh_queues := (sh_queues zeroed_state)[target := q]\<rparr>, next_conn 1 (ss_gen ?S1)) [(d, target, True)]"
    using gen_step.pushed [of "ss_gen ?S1" target d zeroed_state q] q by (simp add: z)
  note r2 = generator_step [OF r1 b]
  show ?thesis
    using generator_step [OF r2 gen_step.finish]
    by (force simp: next_conn_def sys_start_def fresh_gen_def one_shot_def)
qed

theorem simulation_comes_to_rest_witness:
  "\<exists>S. sys_reachable one_shot Hermes 7 1 S \<and> all_exited S \<and> length (ss_log S) = 1"
proof -
  obtain S where s: "sys_reachable one_shot Hermes 7 1 S" "gp_pc (ss_gen S) = G_Done" "length (ss_log S) = 1"
    using one_shot_done by blast
  show ?thesis using simulation_comes_to_rest [OF s(1)] s(2,3) by metis
qed

theorem no_connection_is_lost_witness:
  "\<exists>S. sys_reachable one_shot Hermes 7 1 S \<and>
    (\<Sum>w<NUM_WORKERS. length (accept_keys (sp_state (ss_procs S ! w)))) + length (filter (\<lambda>(d, target, ok). \<not> ok) (ss_log S)) = 1"
proof -
  obtain S where s: "sys_reachable one_shot Hermes 7 1 S" "gp_pc (ss_gen S) = G_Done"
    using one_shot_done by blast
  obtain S' where s': "sys_reachable one_shot Hermes 7 1 S'" "all_exited S'" "gp_pc (ss_gen S') = G_Done"
    using finishes [OF s] s(2) by metis
  have "ceil_div (duration_of one_shot) 1 = 1" by (simp add: ceil_div_def one_shot_def)
  then show ?thesis
    using no_connection_is_lost [OF s'(1) _ s'(3)] s'(1,2) by (auto simp: all_exited_def Let_def)
qed

end
