(* ===== verification/Sim_Turn.thy ===== *)
theory Sim_Turn
  imports Sim_System
begin

text \<open>
  The turn of \<open>Sim_Worker\<close> and the steps of \<open>Sim_System\<close> describe the same loop: whatever turn the
  former takes, with the changes of the other processes given to it as functions, the latter takes
  step by step, with these changes made by the environment between its steps.
\<close>

section \<open>Steps with an environment\<close>

text \<open>\<open>env\<close> relates the shared memory before and after something the other processes do.\<close>

definition moves ::
  "(shared_state \<Rightarrow> shared_state \<Rightarrow> bool) \<Rightarrow> nat \<Rightarrow> workload_config \<Rightarrow> policy \<Rightarrow>
    shared_state \<times> sim_proc \<Rightarrow> shared_state \<times> sim_proc \<Rightarrow> bool" where
  "moves env w cfg p x y \<longleftrightarrow> sim_step w cfg p x y \<or> snd y = snd x \<and> env (fst x) (fst y)"

abbreviation reaches_by ::
  "(shared_state \<Rightarrow> shared_state \<Rightarrow> bool) \<Rightarrow> nat \<Rightarrow> workload_config \<Rightarrow> policy \<Rightarrow>
    shared_state \<times> sim_proc \<Rightarrow> shared_state \<times> sim_proc \<Rightarrow> bool" where
  "reaches_by env w cfg p \<equiv> rtranclp (moves env w cfg p)"

definition set_queue :: "nat \<Rightarrow> conn_queue \<Rightarrow> shared_state \<Rightarrow> shared_state" where
  "set_queue w q m = m\<lparr>sh_queues := (sh_queues m)[w := q]\<rparr>"

text \<open>What a turn is told of the others is something the environment can do, and the flag is read as it is.\<close>

definition turn_from_env :: "(shared_state \<Rightarrow> shared_state \<Rightarrow> bool) \<Rightarrow> nat \<Rightarrow> sim_turn \<Rightarrow> sim_state \<Rightarrow> bool" where
  "turn_from_env env w t s \<longleftrightarrow>
     (\<forall>r\<in>set (st_polls t). pr_shutdown r = shutdown_requested (sw_shared s) \<and>
       (\<forall>n m q. env (set_queue w q m) (set_queue w (pr_before_pop r n q) m))) \<and>
     (\<forall>m. env m (st_others t m))"

lemma view_simps [simp]:
  "view m \<lparr>sp_pc = pc, sp_state = s\<rparr> = s\<lparr>sw_shared := m\<rparr>" "s\<lparr>sw_shared := sw_shared s\<rparr> = s"
  by (simp_all add: view_def)

lemma by_step: "sim_step w cfg p x y \<Longrightarrow> reaches_by env w cfg p y z \<Longrightarrow> reaches_by env w cfg p x z"
  by (meson converse_rtranclp_into_rtranclp moves_def)

lemma by_env: "env m m' \<Longrightarrow> reaches_by env w cfg p (m', pr) z \<Longrightarrow> reaches_by env w cfg p (m, pr) z"
  by (rule converse_rtranclp_into_rtranclp [of _ _ "(m', pr)"]) (simp_all add: moves_def)

text \<open>A step taken where the local copy of the memory is current.\<close>

lemma from_leave: "sim_step w cfg p (sw_shared s, \<lparr>sp_pc = pc, sp_state = s\<rparr>) y \<Longrightarrow> reaches_by env w cfg p y z \<Longrightarrow>
    reaches_by env w cfg p (leave pc s) z"
  unfolding leave_def by (rule by_step)

section \<open>The parts of a turn\<close>

lemma serve_steps:
  "serve_batch w p ds clocks s = Some s' \<Longrightarrow> reaches_by env w cfg p (leave (S_Serve ds) s) (leave S_Schedule s')"
proof (induction w p ds clocks s rule: serve_batch.induct)
  case (1 w p clocks s)
  then show ?case
    using from_leave [OF sim_step.served_all [of "\<lparr>sp_pc = S_Serve [], sp_state = s\<rparr>" w cfg p "sw_shared s"]] by simp
next
  case (3 w p d ds dequeue_ns done_ns clocks s)
  obtain s1 where s1: "serve_one w p d dequeue_ns done_ns s = Some s1" "serve_batch w p ds clocks s1 = Some s'"
    using 3(2) by (simp add: serve_one_def Let_def)
  have "reaches_by env w cfg p (leave (S_Serve ds) s1) (leave S_Schedule s')"
    using 3(1) [OF refl refl refl] 3(2) s1(1) by (simp add: serve_one_def Let_def)
  then show ?case
    using from_leave [OF sim_step.serves [of "\<lparr>sp_pc = S_Serve (d # ds), sp_state = s\<rparr>" d ds w p dequeue_ns done_ns "sw_shared s" s1]] s1(1)
    by simp
qed simp

lemma follow_steps:
  "serve_burst w p b ids clocks s = Some s' \<Longrightarrow> burst cfg = Some b \<Longrightarrow>
    reaches_by env w cfg p (leave (S_Follow_Ups ids) s) (leave S_Schedule s')"
proof (induction w p b ids clocks s rule: serve_burst.induct)
  case (1 w p b clocks s)
  then show ?case
    using from_leave [OF sim_step.followed_up_all [of "\<lparr>sp_pc = S_Follow_Ups [], sp_state = s\<rparr>" w cfg p "sw_shared s"]] by simp
next
  case (3 w p b cid ids dequeue_ns done_ns clocks s)
  obtain s1 where s1: "follow_one w p b cid dequeue_ns done_ns s = Some s1"
    by (simp add: follow_one_def Let_def)
  have "reaches_by env w cfg p (leave (S_Follow_Ups ids) s1) (leave S_Schedule s')"
    using 3(1) [OF refl refl] 3(2,3) s1 by (simp add: follow_one_def Let_def)
  then show ?case
    using from_leave [OF sim_step.follows_up [of "\<lparr>sp_pc = S_Follow_Ups (cid # ids), sp_state = s\<rparr>" cid ids cfg b w p dequeue_ns done_ns
        "sw_shared s" s1]] s1 3(3)
    by simp
qed simp

definition with_queue :: "nat \<Rightarrow> conn_queue \<Rightarrow> sim_state \<Rightarrow> sim_state" where
  "with_queue w q s = s\<lparr>sw_shared := set_queue w q (sw_shared s)\<rparr>"

lemma with_queue_simps [simp]:
  "set_queue w q' (set_queue w q m) = set_queue w q' m"
  "sw_shared (with_queue w q s) = set_queue w q (sw_shared s)"
  "(with_queue w q s)\<lparr>sw_shared := set_queue w q' (sw_shared s)\<rparr> = with_queue w q' s"
  "w < length (sh_queues m) \<Longrightarrow> sh_queues (set_queue w q m) ! w = q"
  "shutdown_requested (set_queue w q m) = shutdown_requested m"
  by (simp_all add: set_queue_def with_queue_def shutdown_requested_def)

lemma with_queue_same: "with_queue w (sh_queues (sw_shared s) ! w) s = s"
  by (simp add: with_queue_def set_queue_def)

lemma pop_steps:
  assumes "pop_batch before room batch q = (batch', q')" and "length batch + room = SIM_MAX_EVENTS"
    and "\<And>n m q. env (set_queue w q m) (set_queue w (before n q) m)" and "w < length (sh_queues (sw_shared s))"
    and "reaches_by env w cfg p (leave (if batch' = [] then S_Idle else S_Ready batch') (with_queue w q' s)) z"
  shows "reaches_by env w cfg p (leave (S_Poll batch) (with_queue w q s)) z"
  using assms(1,2)
proof (induction room arbitrary: batch q)
  case 0
  then have "batch' = batch" "q' = q" "batch \<noteq> []" by (auto simp: SIM_MAX_EVENTS_def)
  then show ?case
    using from_leave [OF sim_step.full_batch [of "\<lparr>sp_pc = S_Poll batch, sp_state = with_queue w q s\<rparr>" batch w cfg p
        "sw_shared (with_queue w q s)"]] assms(5) 0(2) by simp
next
  case (Suc room)
  define q1 where "q1 = before (length batch) q"
  let ?pr = "\<lparr>sp_pc = S_Poll batch, sp_state = with_queue w q s\<rparr>" and ?m = "set_queue w q1 (sw_shared s)"
  have room: "length batch < SIM_MAX_EVENTS" using Suc.prems(2) by simp
  have m: "sh_queues ?m ! w = q1" using assms(4) by simp
  obtain d q2 where d: "pop q1 = (d, q2)" by fastforce
  have r: "reaches_by env w cfg p (?m, ?pr) z"
  proof (cases d)
    case None
    then have b: "batch' = batch" "q' = q1" using Suc.prems(1) d by (auto simp: q1_def [symmetric] pop_def Let_def split: if_splits)
    show ?thesis
    proof (cases "batch = []")
      case True
      have "sim_step w cfg p (?m, ?pr) (leave S_Idle (view ?m ?pr))"
        using sim_step.finds_none [of ?pr ?m w] d None m True by simp
      then show ?thesis using by_step assms(5) b True by simp
    next
      case False
      have "sim_step w cfg p (?m, ?pr) (leave (S_Ready batch) (view ?m ?pr))"
        using sim_step.no_more [of ?pr batch ?m w] d None m room False by simp
      then show ?thesis using by_step assms(5) b False by simp
    qed
  next
    case (Some x)
    have "sim_step w cfg p (?m, ?pr) (leave (S_Poll (batch @ [x])) (view (?m\<lparr>sh_queues := (sh_queues ?m)[w := q2]\<rparr>) ?pr))"
      using sim_step.pops [of ?pr batch ?m w x q2] d Some m room by simp
    moreover have "?m\<lparr>sh_queues := (sh_queues ?m)[w := q2]\<rparr> = set_queue w q2 (sw_shared s)" by (simp add: set_queue_def)
    moreover have "reaches_by env w cfg p (leave (S_Poll (batch @ [x])) (with_queue w q2 s)) z"
      using Suc.IH [of "batch @ [x]" q2] Suc.prems d Some by (simp add: q1_def [symmetric])
    ultimately show ?thesis using by_step by simp
  qed
  have "env (set_queue w q (sw_shared s)) ?m" unfolding q1_def by (rule assms(3))
  then show ?case unfolding leave_def with_queue_simps using r by (rule by_env)
qed

lemma poll_steps:
  assumes "poll_accept_queue rs q = Some (batch, q')" and "w < length (sh_queues (sw_shared s))"
    and "\<And>r n m q. r \<in> set rs \<Longrightarrow> env (set_queue w q m) (set_queue w (pr_before_pop r n q) m)"
    and "\<And>r. r \<in> set rs \<Longrightarrow> pr_shutdown r = shutdown_requested (sw_shared s)"
    and "reaches_by env w cfg p (leave (S_Ready batch) (with_queue w q' s)) z"
  shows "reaches_by env w cfg p (leave (S_Poll []) (with_queue w q s)) z"
  using assms(1,3,4)
proof (induction rs arbitrary: q)
  case (Cons r rs)
  obtain b q1 where b: "pop_batch (pr_before_pop r) SIM_MAX_EVENTS [] q = (b, q1)" by fastforce
  have "reaches_by env w cfg p (leave (if b = [] then S_Idle else S_Ready b) (with_queue w q1 s)) z"
  proof (cases "b \<noteq> [] \<or> pr_timeout r \<or> pr_shutdown r")
    case True
    then have "batch = b" "q' = q1" using Cons.prems(1) b by auto
    then show ?thesis
      using assms(5) from_leave [OF sim_step.gives_up [of "\<lparr>sp_pc = S_Idle, sp_state = with_queue w q1 s\<rparr>" True
          "sw_shared (with_queue w q1 s)" w cfg p], of env z] by auto
  next
    case False
    then have "poll_accept_queue rs q1 = Some (batch, q')" using Cons.prems(1) b by simp
    then have "reaches_by env w cfg p (leave (S_Poll []) (with_queue w q1 s)) z" using Cons.IH Cons.prems(2,3) by simp
    then show ?thesis
      using False Cons.prems(3) from_leave [OF sim_step.polls_again [of "\<lparr>sp_pc = S_Idle, sp_state = with_queue w q1 s\<rparr>"
          "sw_shared (with_queue w q1 s)" w cfg p], of env z] by auto
  qed
  then show ?case using pop_steps [OF b _ _ assms(2)] Cons.prems(2) by simp
qed simp

section \<open>One turn\<close>

lemma set_queue_shared: "length (sh_queues (sw_shared (close_expired w now cs s))) = length (sh_queues (sw_shared s)) \<and>
    shutdown_requested (sw_shared (close_expired w now cs s)) = shutdown_requested (sw_shared s)"
proof (induction cs arbitrary: s)
  case (Cons c cs)
  then show ?case by (cases c) (simp add: on_slot_def shutdown_requested_def)
qed simp

lemma events_steps:
  assumes "serve_events w p (burst cfg) t s = Some s'" and "w < length (sh_queues (sw_shared s))" and "turn_from_env env w t s"
    and "reaches_by env w cfg p (leave S_Schedule s') z"
  shows "reaches_by env w cfg p (leave S_Choose s) z"
proof (cases "sw_burst_backlog s = []")
  case False
  let ?n = "min (length (sw_burst_backlog s)) SIM_MAX_EVENTS"
  let ?ids = "take ?n (sw_burst_backlog s)"
  let ?s = "on_slot w (add_pending (of_nat (length ?ids))) (s\<lparr>sw_burst_backlog := drop ?n (sw_burst_backlog s)\<rparr>)"
  obtain b where b: "burst cfg = Some b" "serve_burst w p b ?ids (st_times t) ?s = Some s'"
    using assms(1) False by (auto simp: serve_events_def Let_def split: option.splits)
  have "sim_step w cfg p (sw_shared s, \<lparr>sp_pc = S_Choose, sp_state = s\<rparr>) (leave (S_Follow_Ups ?ids) ?s)"
    using sim_step.follow_ups [of "\<lparr>sp_pc = S_Choose, sp_state = s\<rparr>" ?n ?ids _ "sw_shared s" w cfg p, OF _ _ _ _ refl] False by simp
  moreover have "reaches_by env w cfg p (leave (S_Follow_Ups ?ids) ?s) z"
    using follow_steps [OF b(2,1)] assms(4) by (rule rtranclp_trans)
  ultimately show ?thesis by (rule from_leave)
next
  case True
  obtain batch q where q: "poll_accept_queue (st_polls t) (sh_queues (sw_shared s) ! w) = Some (batch, q)"
    "serve_batch w p batch (st_times t) (on_slot w (add_pending (of_nat (length batch))) (with_queue w q s)) = Some s'"
    using assms(1) True by (auto simp: serve_events_def Let_def with_queue_def set_queue_def split: option.splits)
  have "sim_step w cfg p (sw_shared s, \<lparr>sp_pc = S_Choose, sp_state = s\<rparr>) (leave (S_Poll []) s)"
    using sim_step.polls [of "\<lparr>sp_pc = S_Choose, sp_state = s\<rparr>" w cfg p "sw_shared s"] True by simp
  moreover have "reaches_by env w cfg p (leave (S_Ready batch) (with_queue w q s)) z"
  proof (rule from_leave)
    show "sim_step w cfg p (sw_shared (with_queue w q s), \<lparr>sp_pc = S_Ready batch, sp_state = with_queue w q s\<rparr>)
        (leave (S_Serve batch) (on_slot w (add_pending (of_nat (length batch))) (with_queue w q s)))"
      using sim_step.ready [of "\<lparr>sp_pc = S_Ready batch, sp_state = with_queue w q s\<rparr>" batch w cfg p "sw_shared (with_queue w q s)"]
      by (simp del: with_queue_simps)
    show "reaches_by env w cfg p (leave (S_Serve batch) (on_slot w (add_pending (of_nat (length batch))) (with_queue w q s))) z"
      using serve_steps [OF q(2)] assms(4) by (rule rtranclp_trans)
  qed
  then have "reaches_by env w cfg p (leave (S_Poll []) s) z"
    using poll_steps [OF q(1) assms(2), of env cfg p z] assms(3) by (auto simp: with_queue_same turn_from_env_def)
  ultimately show ?thesis by (rule from_leave)
qed

text \<open>The scheduler and the tick each read the whole table, load by load.\<close>

lemma schedule_loads:
  assumes "k \<le> SNAPSHOT_LOADS"
    and "reaches_by env w cfg p (leave (S_Load t (loads (sh_wst (sw_shared s)) SNAPSHOT_LOADS)) s) z"
  shows "reaches_by env w cfg p (leave (S_Load t (loads (sh_wst (sw_shared s)) k)) s) z"
  using assms(1)
proof (induction k rule: inc_induct)
  case (step k)
  let ?vs = "loads (sh_wst (sw_shared s)) k"
  show ?case
    using step from_leave [OF sim_step.loads_one [of "\<lparr>sp_pc = S_Load t ?vs, sp_state = s\<rparr>" t ?vs w cfg p "sw_shared s"]] by simp
qed (rule assms(2))

lemma tick_loads_all:
  assumes "k \<le> SNAPSHOT_LOADS"
    and "reaches_by env w cfg p (leave (S_Tick_Load res t (loads (sh_wst (sw_shared s)) SNAPSHOT_LOADS)) s) z"
  shows "reaches_by env w cfg p (leave (S_Tick_Load res t (loads (sh_wst (sw_shared s)) k)) s) z"
  using assms(1)
proof (induction k rule: inc_induct)
  case (step k)
  let ?vs = "loads (sh_wst (sw_shared s)) k"
  show ?case
    using step from_leave [OF sim_step.tick_loads [of "\<lparr>sp_pc = S_Tick_Load res t ?vs, sp_state = s\<rparr>" res t ?vs w cfg p "sw_shared s"]]
    by simp
qed (rule assms(2))

lemma schedule_steps:
  assumes "p = Hermes" and "r = sim_schedule (sh_wst m) now SIM_HANG_THRESHOLD_NS"
    and "reaches_by env w cfg p (leave (S_Tick (Some r)) (s\<lparr>sw_shared := m\<lparr>sh_msel := sel_store (bitmap r) (sh_msel m)\<rparr>\<rparr>)) z"
  shows "reaches_by env w cfg p (m, \<lparr>sp_pc = S_Schedule, sp_state = s\<rparr>) z"
proof -
  let ?s = "s\<lparr>sw_shared := m\<rparr>" and ?vs = "loads (sh_wst m) SNAPSHOT_LOADS"
  have "r = sim_schedule_from_snapshots (assemble ?vs) now SIM_HANG_THRESHOLD_NS"
    using assms(2) by (simp add: sim_schedule_def sim_status_table_eq assemble_loads)
  then have "sim_step w cfg p (sw_shared ?s, \<lparr>sp_pc = S_Load now ?vs, sp_state = ?s\<rparr>)
      (leave (S_Tick (Some r)) (s\<lparr>sw_shared := m\<lparr>sh_msel := sel_store (bitmap r) (sh_msel m)\<rparr>\<rparr>))"
    using sim_step.publishes [of "\<lparr>sp_pc = S_Load now ?vs, sp_state = ?s\<rparr>" now ?vs r w cfg p m] by simp
  then have "reaches_by env w cfg p (leave (S_Load now ?vs) ?s) z" using assms(3) by (rule from_leave)
  then have "reaches_by env w cfg p (leave (S_Load now []) ?s) z" using schedule_loads [of 0 env w cfg p now ?s z] by simp
  moreover have "sim_step w cfg p (m, \<lparr>sp_pc = S_Schedule, sp_state = s\<rparr>) (leave (S_Load now []) ?s)"
    using sim_step.schedules [of "\<lparr>sp_pc = S_Schedule, sp_state = s\<rparr>" p w cfg m now] assms(1) by simp
  ultimately show ?thesis by (blast intro: by_step)
qed

lemma tick_steps:
  assumes "tick = \<lparr>stk_timestamp_ns = t, stk_worker_id = w, stk_iter = sw_iter s, stk_snapshots = snapshot_all (sh_wst (sw_shared s)),
      stk_queue_len = queue_len (sh_queues (sw_shared s) ! w), stk_result = res, stk_policy = p\<rparr>"
    and "reaches_by env w cfg p (leave S_Check (s\<lparr>sw_ticks := sw_ticks s @ [tick]\<rparr>)) z"
  shows "reaches_by env w cfg p (leave (S_Tick res) s) z"
proof -
  let ?vs = "loads (sh_wst (sw_shared s)) SNAPSHOT_LOADS"
  have "sim_step w cfg p (sw_shared s, \<lparr>sp_pc = S_Tick_Load res t ?vs, sp_state = s\<rparr>)
      (leave S_Check (s\<lparr>sw_ticks := sw_ticks s @ [tick]\<rparr>))"
    using sim_step.ticks [of "\<lparr>sp_pc = S_Tick_Load res t ?vs, sp_state = s\<rparr>" res t ?vs tick w "sw_shared s" p cfg] assms(1)
    by (simp add: assemble_loads)
  then have "reaches_by env w cfg p (leave (S_Tick_Load res t ?vs) s) z" using assms(2) by (rule from_leave)
  then have "reaches_by env w cfg p (leave (S_Tick_Load res t []) s) z"
    using tick_loads_all [of 0 env w cfg p res t s z] by simp
  moreover have "sim_step w cfg p (sw_shared s, \<lparr>sp_pc = S_Tick res, sp_state = s\<rparr>) (leave (S_Tick_Load res t []) s)"
    using sim_step.tick_clock [of "\<lparr>sp_pc = S_Tick res, sp_state = s\<rparr>" res w cfg p "sw_shared s" t] by simp
  ultimately show ?thesis by (blast intro: from_leave)
qed

lemma end_steps:
  assumes "sim_end_of_turn w p t s = (stop, s')" and "env (sw_shared s) (st_others t (sw_shared s))"
  shows "reaches_by env w cfg p (leave S_Schedule s) (leave (if stop then S_Exited else S_Top) s')"
proof -
  define m where "m = st_others t (sw_shared s)"
  define result where "result = (if p = Hermes then Some (sim_schedule (sh_wst m) (st_schedule_ns t) SIM_HANG_THRESHOLD_NS) else None)"
  define m1 where "m1 = (case result of Some r \<Rightarrow> m\<lparr>sh_msel := sel_store (bitmap r) (sh_msel m)\<rparr> | None \<Rightarrow> m)"
  define s1 where "s1 = s\<lparr>sw_shared := m1\<rparr>"
  define tick where "tick = \<lparr>stk_timestamp_ns = st_tick_ns t, stk_worker_id = w, stk_iter = sw_iter s,
    stk_snapshots = snapshot_all (sh_wst m1), stk_queue_len = queue_len (sh_queues m1 ! w), stk_result = result, stk_policy = p\<rparr>"
  define s2 where "s2 = s1\<lparr>sw_ticks := sw_ticks s @ [tick]\<rparr>"
  have e: "(stop, s') = (if shutdown_requested m1 \<and> queue_is_empty (sh_queues m1 ! w) \<and> sw_burst_backlog s = []
      then (True, s2) else (False, s2\<lparr>sw_iter := sw_iter s + 1\<rparr>))"
    using assms(1) by (auto simp: sim_end_of_turn_def Let_def m_def result_def m1_def s1_def s2_def tick_def
        sim_schedule_def split: if_splits)
  have check: "reaches_by env w cfg p (leave S_Check s2) (leave (if stop then S_Exited else S_Top) s')"
  proof -
    have v: "view m1 \<lparr>sp_pc = pc, sp_state = s2\<rparr> = s2" "sw_shared s2 = m1" for pc by (simp_all add: s2_def s1_def view_def)
    let ?c = "\<lparr>sp_pc = S_Check, sp_state = s2\<rparr>" and ?d = "\<lparr>sp_pc = S_Drained, sp_state = s2\<rparr>"
    have top: "sw_iter s2 = sw_iter s" "sw_burst_backlog s2 = sw_burst_backlog s" by (simp_all add: s2_def s1_def)
    show ?thesis
    proof (cases "shutdown_requested m1")
      case False
      then have "sim_step w cfg p (sw_shared s2, ?c) (leave S_Top s')"
        using sim_step.runs_on [of ?c m1 w cfg p, unfolded v] e top v(2) by simp
      then show ?thesis using from_leave [OF _ rtranclp.rtrancl_refl] e False by simp
    next
      case True
      have "sim_step w cfg p (sw_shared s2, ?d) (leave (if stop then S_Exited else S_Top) s')"
        using sim_step.still_work [of ?d m1 w cfg p, unfolded v] sim_step.exits [of ?d m1 w cfg p, unfolded v] e top v(2) True
        by (auto split: if_splits)
      then have "reaches_by env w cfg p (leave S_Drained s2) (leave (if stop then S_Exited else S_Top) s')"
        by (rule from_leave) (rule rtranclp.rtrancl_refl)
      moreover have "sim_step w cfg p (sw_shared s2, ?c) (leave S_Drained s2)"
        using sim_step.stopping [of ?c m1 w cfg p, unfolded v] True v(2) by simp
      ultimately show ?thesis using from_leave by blast
    qed
  qed
  have tick: "reaches_by env w cfg p (leave (S_Tick result) s1) (leave (if stop then S_Exited else S_Top) s')"
    using check tick_steps [of tick "st_tick_ns t" w s1 result p env cfg] by (simp add: s1_def s2_def tick_def)
  have "reaches_by env w cfg p (m, \<lparr>sp_pc = S_Schedule, sp_state = s\<rparr>) (leave (if stop then S_Exited else S_Top) s')"
  proof (cases "p = Hermes")
    case True
    then show ?thesis
      using tick schedule_steps [OF True refl, of env w cfg m "st_schedule_ns t" s] by (simp add: result_def m1_def s1_def)
  next
    case False
    have "sim_step w cfg p (m, \<lparr>sp_pc = S_Schedule, sp_state = s\<rparr>) (leave (S_Tick result) s1)"
      using sim_step.no_scheduler [of "\<lparr>sp_pc = S_Schedule, sp_state = s\<rparr>" p w cfg m] False
      by (simp add: result_def m1_def s1_def)
    then show ?thesis using tick by (rule by_step)
  qed
  then show ?thesis unfolding leave_def [of S_Schedule] using assms(2) by (auto simp: m_def intro: by_env)
qed

section \<open>Properties\<close>

text \<open>
  The turn of the worker and the interleaving system agree: every turn of \<open>sim_one_turn\<close>, with
  the changes of the other processes that the environment makes at the turn's hooks (the flag stays
  as it is while the queue is polled), is a run of the steps the worker takes in the system, from the
  top of its loop back to the top or to its exit.
\<close>

lemma sim_turn_is_a_run_of_steps:
  assumes "sim_one_turn w p (burst cfg) t s = Some (stop, s')" and "w < length (sh_queues (sw_shared s))"
    and "turn_from_env env w t s"
  shows "rtranclp (moves env w cfg p) (leave S_Top s) (leave (if stop then S_Exited else S_Top) s')"
proof -
  let ?goal = "leave (if stop then S_Exited else S_Top) s'"
  define s1 where "s1 = on_slot w (store_loop_entry (st_entry_ns t)) s"
  have m1: "sw_hang_pending s1 = sw_hang_pending s" "sw_open_conns s1 = sw_open_conns s"
    "length (sh_queues (sw_shared s1)) = length (sh_queues (sw_shared s))" "shutdown_requested (sw_shared s1) = shutdown_requested (sw_shared s)"
    by (simp_all add: s1_def on_slot_def shutdown_requested_def)
  have "sim_step w cfg p (sw_shared s, \<lparr>sp_pc = S_Top, sp_state = s\<rparr>) (leave S_Hang s1)"
    using sim_step.stamp [of "\<lparr>sp_pc = S_Top, sp_state = s\<rparr>" w cfg p "sw_shared s" "st_entry_ns t"] by (simp add: s1_def)
  moreover have "reaches_by env w cfg p (leave S_Hang s1) ?goal"
  proof (cases "case sw_hang_pending s1 of Some h \<Rightarrow> hang_at h \<le> st_elapsed t | None \<Rightarrow> False")
    case True
    then obtain h where h: "sw_hang_pending s1 = Some h" "hang_at h \<le> st_elapsed t" by (auto split: option.splits)
    then have "stop = False \<and> s' = s1\<lparr>sw_hang_pending := None\<rparr>"
      using assms(1) True by (simp add: sim_one_turn_def Let_def s1_def)
    then have "sim_step w cfg p (sw_shared s1, \<lparr>sp_pc = S_Hang, sp_state = s1\<rparr>) ?goal"
      using sim_step.hangs [of "\<lparr>sp_pc = S_Hang, sp_state = s1\<rparr>" h "st_elapsed t" w cfg p "sw_shared s1"] h by simp
    then show ?thesis by (rule from_leave) (rule rtranclp.rtrancl_refl)
  next
    case False
    define s2 where "s2 = close_expired w (st_now_ns t) (sw_open_conns s1) (s1\<lparr>sw_open_conns := []\<rparr>)"
    obtain s4 where s4: "serve_events w p (burst cfg) t (fire_burst t s2) = Some s4" "sim_end_of_turn w p t s4 = (stop, s')"
      using assms(1) False by (auto simp: sim_one_turn_def Let_def s1_def s2_def)
    have same: "length (sh_queues (sw_shared (fire_burst t s2))) = length (sh_queues (sw_shared s))"
      "shutdown_requested (sw_shared (fire_burst t s2)) = shutdown_requested (sw_shared s)"
      using set_queue_shared [of w "st_now_ns t" "sw_open_conns s1" "s1\<lparr>sw_open_conns := []\<rparr>"] m1
      by (auto simp: s2_def fire_burst_def split: option.split)
    have "sim_step w cfg p (sw_shared s1, \<lparr>sp_pc = S_Hang, sp_state = s1\<rparr>) (leave S_Close s1)"
      using sim_step.goes_on [of "\<lparr>sp_pc = S_Hang, sp_state = s1\<rparr>" "st_elapsed t" w cfg p "sw_shared s1"] False
      by (auto split: option.splits)
    moreover have "sim_step w cfg p (sw_shared s1, \<lparr>sp_pc = S_Close, sp_state = s1\<rparr>) (leave S_Fire s2)"
      using sim_step.closes [of "\<lparr>sp_pc = S_Close, sp_state = s1\<rparr>" s2 w "st_now_ns t" "sw_shared s1" cfg p] by (simp add: s2_def)
    moreover have "sim_step w cfg p (sw_shared s2, \<lparr>sp_pc = S_Fire, sp_state = s2\<rparr>) (leave S_Choose (fire_burst t s2))"
      using sim_step.fires [of "\<lparr>sp_pc = S_Fire, sp_state = s2\<rparr>" w cfg p "sw_shared s2" t] by simp
    moreover have "reaches_by env w cfg p (leave S_Schedule s4) ?goal"
      using end_steps [OF s4(2)] assms(3) by (simp add: turn_from_env_def)
    then have "reaches_by env w cfg p (leave S_Choose (fire_burst t s2)) ?goal"
      using events_steps [OF s4(1)] assms(2,3) same by (simp add: turn_from_env_def)
    ultimately show ?thesis by (blast intro: from_leave)
  qed
  ultimately show ?thesis by (rule from_leave)
qed

text \<open>An idle turn that sees the shutdown.\<close>

lemma sim_turn_is_a_run_of_steps_witness:
  "\<exists>s'. rtranclp (moves (=) 0 default_case Lifo)
    (leave S_Top (sim_start 0 None None (request_shutdown zeroed_state))) (leave S_Exited s')"
proof -
  let ?s = "sim_start 0 None None (request_shutdown zeroed_state)"
  let ?t = "last_sim_turn\<lparr>st_polls := [\<lparr>pr_before_pop = \<lambda>n q. q, pr_timeout = True, pr_shutdown = True\<rparr>], st_others := \<lambda>sh. sh\<rparr>"
  have q: "sh_queues zeroed_state ! 0 = zeroed_queue" "length (sh_queues zeroed_state) = NUM_WORKERS"
    by (simp_all add: zeroed_state_def NUM_WORKERS_def)
  have "pop_batch (\<lambda>n q. q) SIM_MAX_EVENTS [] zeroed_queue = ([], zeroed_queue)"
    by (simp add: SIM_MAX_EVENTS_def numeral_eq_Suc pop_def zeroed_queue_def Let_def)
  then have "\<exists>s'. sim_one_turn 0 Lifo None ?t ?s = Some (True, s')"
    using q
    by (simp add: sim_one_turn_def sim_start_def last_sim_turn_def fire_burst_def serve_events_def on_slot_def
        request_shutdown_def sim_end_of_turn_def shutdown_requested_def queue_is_empty_def Let_def)
  then obtain s' where s': "sim_one_turn 0 Lifo None ?t ?s = Some (True, s')" ..
  moreover have "turn_from_env (=) 0 ?t ?s"
    by (simp add: turn_from_env_def sim_start_def shutdown_requested_def request_shutdown_def)
  moreover have "burst default_case = None" by (simp add: default_case_def)
  ultimately show ?thesis
    using sim_turn_is_a_run_of_steps [of 0 Lifo default_case ?t ?s True s' "(=)"] q
    by (auto simp: sim_start_def request_shutdown_def NUM_WORKERS_def)
qed

end
