(* ===== verification/Weak_Memory.thy ===== *)
theory Weak_Memory
  imports Main
begin

text \<open>
  Rust's atomics below sequential consistency, as a machine with views. A location keeps the history
  of what was stored to it; a thread has a view, the position in each history before which it can
  no longer read, and a load may return any message from there on. A release store attaches the
  view of the thread to its message and an acquire load joins it to the view of the reader; a
  relaxed access moves the thread along the one location only. Accesses that are not atomic are a
  data race, undefined behaviour, unless the thread has seen every earlier access they conflict with.

  Stores go to the end of a history, so the machine is for locations that one thread writes, which all
  locations here are. A load does not read a store that has not happened yet.
\<close>

section \<open>Views and histories\<close>

datatype ordering = Relaxed | Acquire | Release

type_synonym 'l view = "'l \<Rightarrow> nat"
type_synonym ('l, 'a) history = "('a \<times> 'l view) list"

definition load_at :: "ordering \<Rightarrow> 'l \<Rightarrow> ('l, 'a) history \<Rightarrow> nat \<Rightarrow> 'l view \<Rightarrow> ('a \<times> 'l view) option" where
  "load_at ord l h t v =
     (if v l \<le> t \<and> t < length h
      then Some (fst (h ! t), if ord = Acquire then sup (v(l := t)) (snd (h ! t)) else v(l := t))
      else None)"

definition store_at :: "ordering \<Rightarrow> 'l \<Rightarrow> 'a \<Rightarrow> ('l, 'a) history \<Rightarrow> 'l view \<Rightarrow> ('l, 'a) history \<times> 'l view" where
  "store_at ord l x h v =
     (let v' = v(l := length h)
      in (h @ [(x, if ord = Release then v' else (\<lambda>_. 0)(l := length h))], v'))"

text \<open>Plain accesses: what was written, and the read or written value with whether the access raced.\<close>

definition plain_read :: "'l \<Rightarrow> 'a list \<Rightarrow> 'l view \<Rightarrow> 'a \<times> bool" where
  "plain_read l h v = (h ! v l, Suc (v l) \<noteq> length h)"

definition plain_write :: "'l \<Rightarrow> 'l \<Rightarrow> 'a \<Rightarrow> 'a list \<Rightarrow> nat \<Rightarrow> 'l view \<Rightarrow> 'a list \<times> 'l view \<times> bool" where
  "plain_write l reads_of x h reads v = (h @ [x], v(l := length h), Suc (v l) \<noteq> length h \<or> v reads_of \<noteq> reads)"

section \<open>What a load may return\<close>

lemma load_at_SomeE:
  assumes "load_at ord l h t v = Some (x, v')"
  obtains "v l \<le> t" and "t < length h" and "x = fst (h ! t)" and "v \<le> v'" and "t \<le> v' l"
    and "v' \<le> sup (v(l := t)) (snd (h ! t))" and "ord = Acquire \<Longrightarrow> snd (h ! t) \<le> v'"
    and "ord \<noteq> Acquire \<Longrightarrow> v' = v(l := t)"
proof -
  have "v l \<le> t" "t < length h" "x = fst (h ! t)"
    "v' = (if ord = Acquire then sup (v(l := t)) (snd (h ! t)) else v(l := t))"
    using assms by (auto simp: load_at_def split: if_splits)
  moreover from this have "v \<le> v(l := t)" by (simp add: le_fun_def)
  moreover have "v(l := t) \<le> v'" "t \<le> v' l" "v' \<le> sup (v(l := t)) (snd (h ! t))"
    using calculation(4) by (auto simp: le_fun_def split: if_splits)
  ultimately show thesis using that by (auto intro: order.trans split: if_splits)
qed

text \<open>A thread that is at the end of a history reads its last message.\<close>

lemma load_at_last:
  assumes "load_at ord l h t v = Some (x, v')" and "length h \<le> Suc (v l)"
  shows "t = v l"
  using assms by (auto simp: load_at_def split: if_splits)

end
