(* ===== verification/Sim_Weak_Queue.thy ===== *)
theory Sim_Weak_Queue
  imports Sim_Spsc Sim_Shared Weak_Memory
begin

text \<open>
  The accept queue and the shutdown flag of \<open>userspace_simulation/src/shm.rs\<close> with the orderings written
  in the code, over the machine of \<open>Weak_Memory\<close>: the generator pushes, looks at the depth of the
  queue when it dispatches, and requests the shutdown when it is done; the worker pops, looks at
  the depth for its metrics, and leaves when it sees the flag and then an empty queue. Each load has
  its choice of message as an argument. The control points are those of \<open>Sim_Spsc\<close>, where the accesses
  are interleaved without any of this.
\<close>

section \<open>State\<close>

datatype loc = Tail_At | Head_At | Flag_At | Slot_At nat | Reads_At nat

datatype weak_producer = WP push_pc | WP_Finished
datatype weak_consumer = WC pop_pc | WC_Flagged | WC_Len u32 | WC_Exited

text \<open>
  A slot is not atomic; \<open>w_slots\<close> has what was written to it and \<open>w_reads\<close> how often it was read. The
  queue starts empty with both indices \<open>b\<close>, which is zero in the code. \<open>w_race\<close> is set by a data
  race; \<open>w_sent\<close> and \<open>w_got\<close> record what was pushed and popped.
\<close>

record weak_state =
  w_tail :: "(loc, u32) history"
  w_head :: "(loc, u32) history"
  w_flag :: "(loc, u32) history"
  w_slots :: "nat \<Rightarrow> conn_desc list"
  w_reads :: "nat \<Rightarrow> nat"
  w_pview :: "loc view"
  w_cview :: "loc view"
  w_prod :: weak_producer
  w_cons :: weak_consumer
  w_race :: bool
  w_sent :: "conn_desc list"
  w_got :: "conn_desc list"

definition weak_init :: "u32 \<Rightarrow> weak_state" where
  "weak_init b = \<lparr>w_tail = [(b, \<lambda>_. 0)], w_head = [(b, \<lambda>_. 0)], w_flag = [(0, \<lambda>_. 0)], w_slots = \<lambda>_. [zeroed_desc],
     w_reads = \<lambda>_. 0, w_pview = \<lambda>_. 0, w_cview = \<lambda>_. 0, w_prod = WP (P_Done True), w_cons = WC (C_Done None),
     w_race = False, w_sent = [], w_got = []\<rparr>"

section \<open>The generator's accesses\<close>

definition p_load :: "ordering \<Rightarrow> loc \<Rightarrow> (loc, u32) history \<Rightarrow> nat \<Rightarrow> (u32 \<Rightarrow> weak_producer) \<Rightarrow> weak_state \<Rightarrow> weak_state option" where
  "p_load ord l h t next s = map_option (\<lambda>(x, v). s\<lparr>w_pview := v, w_prod := next x\<rparr>) (load_at ord l h t (w_pview s))"

fun push_weak :: "nat \<Rightarrow> push_pc \<Rightarrow> weak_state \<Rightarrow> weak_state option" where
  "push_weak t (P_Start desc) s = p_load Relaxed Tail_At (w_tail s) t (\<lambda>tail. WP (P_Tail desc tail)) s"
| "push_weak t (P_Tail desc tail) s = p_load Acquire Head_At (w_head s) t (\<lambda>head. WP (P_Both desc tail head)) s"
| "push_weak t (P_Both desc tail head) s =
     (if QUEUE_CAP \<le> unat (tail - head) then Some (s\<lparr>w_prod := WP (P_Done False)\<rparr>)
      else let k = unat tail mod QUEUE_CAP;
               (h, v, race) = plain_write (Slot_At k) (Reads_At k) desc (w_slots s k) (w_reads s k) (w_pview s)
           in Some (s\<lparr>w_slots := (w_slots s)(k := h), w_pview := v, w_race := w_race s \<or> race,
                w_prod := WP (P_Written desc tail)\<rparr>))"
| "push_weak t (P_Written desc tail) s =
     (let (h, v) = store_at Release Tail_At (tail + 1) (w_tail s) (w_pview s)
      in Some (s\<lparr>w_tail := h, w_pview := v, w_prod := WP (P_Done True), w_sent := w_sent s @ [desc]\<rparr>))"
| "push_weak t (P_Done ok) s = None"

definition finish_weak :: "weak_state \<Rightarrow> weak_state option" where
  "finish_weak s =
     (let (h, v) = store_at Release Flag_At 1 (w_flag s) (w_pview s)
      in Some (s\<lparr>w_flag := h, w_pview := v, w_prod := WP_Finished\<rparr>))"

section \<open>The worker's accesses\<close>

definition c_load :: "ordering \<Rightarrow> loc \<Rightarrow> (loc, u32) history \<Rightarrow> nat \<Rightarrow> (u32 \<Rightarrow> weak_consumer) \<Rightarrow> weak_state \<Rightarrow> weak_state option" where
  "c_load ord l h t next s = map_option (\<lambda>(x, v). s\<lparr>w_cview := v, w_cons := next x\<rparr>) (load_at ord l h t (w_cview s))"

fun pop_weak :: "nat \<Rightarrow> pop_pc \<Rightarrow> weak_state \<Rightarrow> weak_state option" where
  "pop_weak t C_Start s = c_load Relaxed Head_At (w_head s) t (\<lambda>head. WC (C_Head head)) s"
| "pop_weak t (C_Head head) s = c_load Acquire Tail_At (w_tail s) t (\<lambda>tail. WC (C_Both head tail)) s"
| "pop_weak t (C_Both head tail) s =
     (if head = tail then Some (s\<lparr>w_cons := WC (C_Done None)\<rparr>)
      else let k = unat head mod QUEUE_CAP;
               (desc, race) = plain_read (Slot_At k) (w_slots s k) (w_cview s)
           in Some (s\<lparr>w_reads := (w_reads s)(k := w_reads s k + 1), w_cview := (w_cview s)(Reads_At k := w_reads s k + 1),
                w_race := w_race s \<or> race, w_cons := WC (C_Read head desc)\<rparr>))"
| "pop_weak t (C_Read head desc) s =
     (let (h, v) = store_at Release Head_At (head + 1) (w_head s) (w_cview s)
      in Some (s\<lparr>w_head := h, w_cview := v, w_cons := WC (C_Done (Some desc)), w_got := w_got s @ [desc]\<rparr>))"
| "pop_weak t (C_Done r) s = None"

text \<open>\<open>shutdown_requested\<close> and then \<open>is_empty\<close>; the ordering of the flag's load is an argument.\<close>

definition SHUTDOWN_LOAD :: ordering where
  "SHUTDOWN_LOAD = Relaxed"

definition check_flag :: "ordering \<Rightarrow> nat \<Rightarrow> weak_state \<Rightarrow> weak_state option" where
  "check_flag ord t s =
     c_load ord Flag_At (w_flag s) t (\<lambda>flag. if flag = 1 then WC_Flagged else WC (C_Done None)) s"

definition check_empty :: "nat \<Rightarrow> u32 \<Rightarrow> weak_state \<Rightarrow> weak_state option" where
  "check_empty t tail s =
     c_load Relaxed Head_At (w_head s) t (\<lambda>head. if unat (tail - head) = 0 then WC_Exited else WC (C_Done None)) s"

section \<open>The two processes together\<close>

datatype weak_move =
    W_Call_Push conn_desc
  | W_Push nat
  | W_Look_Tail nat
  | W_Look_Head nat
  | W_Finish
  | W_Call_Pop
  | W_Pop nat
  | W_Watch_Tail nat
  | W_Watch_Head nat
  | W_Check nat

fun do_weak :: "ordering \<Rightarrow> weak_move \<Rightarrow> weak_state \<Rightarrow> weak_state option" where
  "do_weak ord (W_Call_Push desc) s =
     (case w_prod s of WP (P_Done ok) \<Rightarrow> Some (s\<lparr>w_prod := WP (P_Start desc)\<rparr>) | _ \<Rightarrow> None)"
| "do_weak ord (W_Push t) s = (case w_prod s of WP pc \<Rightarrow> push_weak t pc s | WP_Finished \<Rightarrow> None)"
| "do_weak ord (W_Look_Tail t) s =
     (case w_prod s of WP (P_Done ok) \<Rightarrow> p_load Relaxed Tail_At (w_tail s) t (\<lambda>_. w_prod s) s | _ \<Rightarrow> None)"
| "do_weak ord (W_Look_Head t) s =
     (case w_prod s of WP (P_Done ok) \<Rightarrow> p_load Relaxed Head_At (w_head s) t (\<lambda>_. w_prod s) s | _ \<Rightarrow> None)"
| "do_weak ord W_Finish s = (case w_prod s of WP (P_Done ok) \<Rightarrow> finish_weak s | _ \<Rightarrow> None)"
| "do_weak ord W_Call_Pop s = (case w_cons s of WC (C_Done r) \<Rightarrow> Some (s\<lparr>w_cons := WC C_Start\<rparr>) | _ \<Rightarrow> None)"
| "do_weak ord (W_Pop t) s = (case w_cons s of WC pc \<Rightarrow> pop_weak t pc s | _ \<Rightarrow> None)"
| "do_weak ord (W_Watch_Tail t) s =
     (case w_cons s of WC (C_Done r) \<Rightarrow> c_load Relaxed Tail_At (w_tail s) t (\<lambda>_. w_cons s) s | _ \<Rightarrow> None)"
| "do_weak ord (W_Watch_Head t) s =
     (case w_cons s of WC (C_Done r) \<Rightarrow> c_load Relaxed Head_At (w_head s) t (\<lambda>_. w_cons s) s | _ \<Rightarrow> None)"
| "do_weak ord (W_Check t) s =
     (case w_cons s of
        WC (C_Done r) \<Rightarrow> check_flag ord t s
      | WC_Flagged \<Rightarrow> c_load Relaxed Tail_At (w_tail s) t WC_Len s
      | WC_Len tail \<Rightarrow> check_empty t tail s
      | _ \<Rightarrow> None)"

inductive weak_reachable :: "ordering \<Rightarrow> u32 \<Rightarrow> weak_state \<Rightarrow> bool" for ord :: ordering and b :: u32 where
  weak_start: "weak_reachable ord b (weak_init b)"
| weak_next: "weak_reachable ord b s \<Longrightarrow> do_weak ord mv s = Some s' \<Longrightarrow> weak_reachable ord b s'"

fun weak_run :: "ordering \<Rightarrow> weak_move list \<Rightarrow> weak_state \<Rightarrow> weak_state option" where
  "weak_run ord [] s = Some s"
| "weak_run ord (mv # mvs) s = (case do_weak ord mv s of Some s' \<Rightarrow> weak_run ord mvs s' | None \<Rightarrow> None)"

lemma weak_run_reachable:
  "weak_reachable ord b s \<Longrightarrow> weak_run ord mvs s = Some s' \<Longrightarrow> weak_reachable ord b s'"
  by (induction mvs arbitrary: s) (auto split: option.splits intro: weak_next)

text \<open>The last connection is pushed and the shutdown requested; the worker sees the flag and an old tail.\<close>

definition lost_run :: "weak_move list" where
  "lost_run = [W_Call_Push (sample_desc 1), W_Push 0, W_Push 0, W_Push 0, W_Push 0, W_Finish, W_Check 1, W_Check 0, W_Check 0]"

lemma lost_run_ends:
  "\<exists>s. weak_run Relaxed lost_run (weak_init 0) = Some s \<and> w_cons s = WC_Exited \<and> w_sent s = [sample_desc 1] \<and> w_got s = [] \<and>
     w_prod s = WP_Finished"
  by (simp add: lost_run_def weak_init_def p_load_def c_load_def load_at_def store_at_def plain_write_def check_flag_def
      check_empty_def finish_weak_def QUEUE_CAP_def Let_def)

end
