(* ===== verification/Sim_Weak_Safety.thy ===== *)
theory Sim_Weak_Safety
  imports Sim_Weak_Queue
begin

text \<open>
  What the orderings of the accept queue are worth: under the views of \<open>Weak_Memory\<close> the ring has no data race
  and stays first-in first-out, for any choice of messages the loads make; and the shutdown flag, read
  with a relaxed load, does not cover the last push, while an acquire load would.
\<close>

section \<open>Counting the accesses of a slot\<close>

text \<open>The \<open>i\<close>-th push writes, and the \<open>i\<close>-th pop reads, the slot \<open>slot_of b i\<close>.\<close>

definition uses :: "u32 \<Rightarrow> nat \<Rightarrow> nat \<Rightarrow> nat" where
  "uses b k n = length (filter (\<lambda>i. slot_of b i = k) [0..<n])"

lemma uses_simps [simp]: "uses b k 0 = 0" "uses b k (Suc n) = uses b k n + (if slot_of b n = k then 1 else 0)"
  by (simp_all add: uses_def)

lemma uses_mono: "i \<le> n \<Longrightarrow> uses b k i \<le> uses b k n"
  by (induction n rule: dec_induct) auto

text \<open>Within a window of the size of the ring, a slot is used once.\<close>

lemma uses_window:
  assumes "j \<le> n" and "n \<le> i" and "i < j + QUEUE_CAP"
  shows "uses b (slot_of b i) n = uses b (slot_of b i) j"
  using assms
proof (induction n rule: dec_induct)
  case (step n)
  then have "slot_of b n \<noteq> slot_of b i" by (intro slot_of_distinct) simp_all
  then show ?case using step by simp
qed simp

lemma uses_after:
  assumes "Suc i \<le> n" and "n \<le> i + QUEUE_CAP"
  shows "uses b (slot_of b i) n = Suc (uses b (slot_of b i) i)"
  using assms
proof (induction n rule: dec_induct)
  case (step n)
  then have "slot_of b i \<noteq> slot_of b n" by (intro slot_of_distinct) simp_all
  then show ?case using step by simp
qed simp

lemma index_distance:
  assumes "j \<le> n" and "n \<le> j + QUEUE_CAP"
  shows "unat ((b + of_nat n) - (b + of_nat j) :: u32) = n - j"
proof -
  have "(b + of_nat n) - (b + of_nat j) = (of_nat (n - j) :: u32)" using assms(1) by simp
  then show ?thesis using assms(2) by (simp add: unat_of_nat take_bit_nat_eq_self QUEUE_CAP_def)
qed

section \<open>The invariant\<close>

definition written :: "weak_state \<Rightarrow> conn_desc list" where
  "written s = w_sent s @ (case w_prod s of WP (P_Written desc tail) \<Rightarrow> [desc] | _ \<Rightarrow> [])"

definition reads_done :: "weak_state \<Rightarrow> nat" where
  "reads_done s = length (w_got s) + (case w_cons s of WC (C_Read head desc) \<Rightarrow> 1 | _ \<Rightarrow> 0)"

text \<open>No view is ahead of what has happened.\<close>

fun latest_of :: "u32 \<Rightarrow> nat \<Rightarrow> nat \<Rightarrow> nat \<Rightarrow> nat \<Rightarrow> nat \<Rightarrow> loc view" where
  "latest_of b ns ng nf nw nr Tail_At = ns"
| "latest_of b ns ng nf nw nr Head_At = ng"
| "latest_of b ns ng nf nw nr Flag_At = nf - 1"
| "latest_of b ns ng nf nw nr (Slot_At k) = uses b k nw"
| "latest_of b ns ng nf nw nr (Reads_At k) = uses b k nr"

abbreviation latest :: "u32 \<Rightarrow> weak_state \<Rightarrow> loc view" where
  "latest b s \<equiv> latest_of b (length (w_sent s)) (length (w_got s)) (length (w_flag s)) (length (written s)) (reads_done s)"

lemma latest_mono:
  "ns \<le> ns' \<Longrightarrow> ng \<le> ng' \<Longrightarrow> nf \<le> nf' \<Longrightarrow> nw \<le> nw' \<Longrightarrow> nr \<le> nr' \<Longrightarrow>
    latest_of b ns ng nf nw nr \<le> latest_of b ns' ng' nf' nw' nr'"
proof (rule le_funI)
  fix l
  assume "ns \<le> ns'" "ng \<le> ng'" "nf \<le> nf'" "nw \<le> nw'" "nr \<le> nr'"
  then show "latest_of b ns ng nf nw nr l \<le> latest_of b ns' ng' nf' nw' nr' l" by (cases l) (auto intro: uses_mono)
qed

definition index_history :: "u32 \<Rightarrow> (nat \<Rightarrow> loc) \<Rightarrow> nat \<Rightarrow> (loc, u32) history \<Rightarrow> bool" where
  "index_history b l n h \<longleftrightarrow> length h = Suc n \<and>
     (\<forall>i\<le>n. fst (h ! i) = b + of_nat i \<and> (\<forall>k. uses b k i \<le> snd (h ! i) (l k)))"

definition views_of :: "weak_state \<Rightarrow> loc view set" where
  "views_of s = {w_pview s, w_cview s} \<union> snd ` (set (w_tail s) \<union> set (w_head s) \<union> set (w_flag s))"

definition memory_ok :: "u32 \<Rightarrow> weak_state \<Rightarrow> bool" where
  "memory_ok b s \<longleftrightarrow>
     index_history b Slot_At (length (w_sent s)) (w_tail s) \<and> index_history b Reads_At (length (w_got s)) (w_head s) \<and>
     (\<forall>k. length (w_slots s k) = Suc (uses b k (length (written s)))) \<and>
     (\<forall>i<length (written s). w_slots s (slot_of b i) ! Suc (uses b (slot_of b i) i) = written s ! i) \<and>
     (\<forall>k. w_reads s k = uses b k (reads_done s)) \<and>
     (\<forall>v\<in>views_of s. v \<le> latest b s) \<and> \<not> w_race s"

fun push_knows :: "u32 \<Rightarrow> nat \<Rightarrow> loc view \<Rightarrow> push_pc \<Rightarrow> bool" where
  "push_knows b n v (P_Tail desc tail) = (tail = b + of_nat n)"
| "push_knows b n v (P_Both desc tail head) = (tail = b + of_nat n \<and>
     (\<exists>j. head = b + of_nat j \<and> j \<le> v Head_At \<and> n \<le> j + QUEUE_CAP \<and> (\<forall>k. uses b k j \<le> v (Reads_At k))))"
| "push_knows b n v (P_Written desc tail) = (tail = b + of_nat n)"
| "push_knows b n v _ = True"

definition producer_knows :: "u32 \<Rightarrow> weak_state \<Rightarrow> bool" where
  "producer_knows b s \<longleftrightarrow>
     length (w_sent s) \<le> w_pview s Tail_At \<and> (\<forall>k. uses b k (length (written s)) \<le> w_pview s (Slot_At k)) \<and>
     length (written s) \<le> w_pview s Head_At + QUEUE_CAP \<and>
     (\<forall>pc. w_prod s = WP pc \<longrightarrow> push_knows b (length (w_sent s)) (w_pview s) pc)"

fun pop_knows :: "u32 \<Rightarrow> conn_desc list \<Rightarrow> nat \<Rightarrow> loc view \<Rightarrow> pop_pc \<Rightarrow> bool" where
  "pop_knows b xs n v (C_Head head) = (head = b + of_nat n)"
| "pop_knows b xs n v (C_Both head tail) = (head = b + of_nat n \<and>
     (\<exists>j. tail = b + of_nat j \<and> n \<le> j \<and> j \<le> v Tail_At \<and> (\<forall>k. uses b k j \<le> v (Slot_At k))))"
| "pop_knows b xs n v (C_Read head desc) = (head = b + of_nat n \<and> n < length xs \<and> desc = xs ! n)"
| "pop_knows b xs n v _ = True"

definition consumer_knows :: "u32 \<Rightarrow> weak_state \<Rightarrow> bool" where
  "consumer_knows b s \<longleftrightarrow>
     length (w_got s) \<le> w_cview s Head_At \<and> (\<forall>k. uses b k (reads_done s) \<le> w_cview s (Reads_At k)) \<and>
     reads_done s \<le> w_cview s Tail_At \<and> w_got s = take (length (w_got s)) (w_sent s) \<and>
     (\<forall>pc. w_cons s = WC pc \<longrightarrow> pop_knows b (w_sent s) (length (w_got s)) (w_cview s) pc)"

definition weak_inv :: "u32 \<Rightarrow> weak_state \<Rightarrow> bool" where
  "weak_inv b s \<longleftrightarrow> memory_ok b s \<and> producer_knows b s \<and> consumer_knows b s"

lemma weak_inv_start: "weak_inv b (weak_init b)"
proof -
  have "v \<le> latest b (weak_init b)" if "v \<in> views_of (weak_init b)" for v
    using that by (auto simp: views_of_def weak_init_def le_fun_def)
  then show ?thesis
    by (auto simp: weak_inv_def memory_ok_def producer_knows_def consumer_knows_def weak_init_def written_def
        reads_done_def index_history_def)
qed

text \<open>The assertion of a process is about what it writes itself.\<close>

lemma producer_frame:
  "w_sent s' = w_sent s \<Longrightarrow> w_prod s' = w_prod s \<Longrightarrow> w_pview s' = w_pview s \<Longrightarrow> producer_knows b s' = producer_knows b s"
  by (simp add: producer_knows_def written_def)

lemma consumer_frame:
  "w_sent s' = w_sent s \<Longrightarrow> w_got s' = w_got s \<Longrightarrow> w_cons s' = w_cons s \<Longrightarrow> w_cview s' = w_cview s \<Longrightarrow>
    consumer_knows b s' = consumer_knows b s"
  by (simp add: consumer_knows_def reads_done_def)

section \<open>Loads\<close>

lemma loaded_view:
  assumes "load_at ord l h t v = Some (x, v')" and "v \<le> z" and "snd ` set h \<subseteq> V" and "\<forall>v\<in>V. v \<le> z" and "t \<le> z l"
  shows "v' \<le> z"
  using assms(1)
proof (rule load_at_SomeE)
  assume "t < length h" and le: "v' \<le> sup (v(l := t)) (snd (h ! t))"
  then have "snd (h ! t) \<le> z" using assms(3,4) nth_mem by fastforce
  moreover have "v(l := t) \<le> z" using assms(2,5) by (simp add: le_fun_def)
  ultimately show ?thesis using le by (meson le_sup_iff order_trans sup_least)
qed

abbreviation unwritten :: "weak_producer \<Rightarrow> bool" where
  "unwritten pr \<equiv> \<forall>desc tail. pr \<noteq> WP (P_Written desc tail)"

abbreviation unread :: "weak_consumer \<Rightarrow> bool" where
  "unread c \<equiv> \<forall>head desc. c \<noteq> WC (C_Read head desc)"

lemma written_unwritten: "unwritten (w_prod s) \<Longrightarrow> written s = w_sent s"
  by (auto simp: written_def split: weak_producer.split push_pc.split)

lemma reads_unread: "unread (w_cons s) \<Longrightarrow> reads_done s = length (w_got s)"
  by (auto simp: reads_done_def split: weak_consumer.split pop_pc.split)

lemma p_load_inv:
  assumes inv: "weak_inv b s" and ld: "load_at ord l h t (w_pview s) = Some (x, v)" and h: "snd ` set h \<subseteq> views_of s"
    and t: "t \<le> latest b s l" and pr: "unwritten (w_prod s)" "unwritten pr"
    and pc: "\<And>pc. pr = WP pc \<Longrightarrow> push_knows b (length (w_sent s)) v pc"
  shows "weak_inv b (s\<lparr>w_pview := v, w_prod := pr\<rparr>)"
proof -
  let ?s = "s\<lparr>w_pview := v, w_prod := pr\<rparr>"
  note i = inv [unfolded weak_inv_def memory_ok_def producer_knows_def]
  have w: "written s = w_sent s" "written ?s = w_sent s" using pr by (simp_all add: written_unwritten)
  have r: "reads_done ?s = reads_done s" by (simp add: reads_done_def)
  have "w_pview s \<le> v" using ld by (rule load_at_SomeE)
  then have grows: "w_pview s l \<le> v l" for l by (simp add: le_fun_def)
  have "w_pview s \<le> latest b s" "\<forall>v\<in>views_of s. v \<le> latest b s" using i by (simp_all add: views_of_def)
  then have "v \<le> latest b s" by (intro loaded_view [OF ld _ h _, of "latest b s"]) (use t in simp_all)
  then have "\<forall>v\<in>views_of ?s. v \<le> latest b ?s" using i w r by (auto simp: views_of_def)
  then have m: "memory_ok b ?s" using i w r by (simp add: memory_ok_def)
  have p: "producer_knows b ?s"
    unfolding producer_knows_def
  proof (intro conjI allI)
    show "length (w_sent ?s) \<le> w_pview ?s Tail_At" "length (written ?s) \<le> w_pview ?s Head_At + QUEUE_CAP"
      using i w grows [of Tail_At] grows [of Head_At] by simp_all
    show "uses b k (length (written ?s)) \<le> w_pview ?s (Slot_At k)" for k
      using i w grows [of "Slot_At k"] by (auto intro: order_trans)
  qed (use pc in simp)
  moreover have "consumer_knows b ?s" using inv using consumer_frame [of ?s s] by (simp add: weak_inv_def)
  ultimately show ?thesis using m by (simp add: weak_inv_def)
qed

lemma c_load_inv:
  assumes inv: "weak_inv b s" and ld: "load_at ord l h t (w_cview s) = Some (x, v)" and h: "snd ` set h \<subseteq> views_of s"
    and t: "t \<le> latest b s l" and c: "unread (w_cons s)" "unread c"
    and pc: "\<And>pc. c = WC pc \<Longrightarrow> pop_knows b (w_sent s) (length (w_got s)) v pc"
  shows "weak_inv b (s\<lparr>w_cview := v, w_cons := c\<rparr>)"
proof -
  let ?s = "s\<lparr>w_cview := v, w_cons := c\<rparr>"
  note i = inv [unfolded weak_inv_def memory_ok_def consumer_knows_def]
  have w: "written ?s = written s" by (simp add: written_def)
  have r: "reads_done s = length (w_got s)" "reads_done ?s = length (w_got s)" using c by (simp_all add: reads_unread)
  have "w_cview s \<le> v" using ld by (rule load_at_SomeE)
  then have grows: "w_cview s l \<le> v l" for l by (simp add: le_fun_def)
  have "w_cview s \<le> latest b s" "\<forall>v\<in>views_of s. v \<le> latest b s" using i by (simp_all add: views_of_def)
  then have "v \<le> latest b s" by (intro loaded_view [OF ld _ h _, of "latest b s"]) (use t in simp_all)
  then have "\<forall>v\<in>views_of ?s. v \<le> latest b ?s" using i w r by (auto simp: views_of_def)
  then have m: "memory_ok b ?s" using i w r by (simp add: memory_ok_def)
  have p: "consumer_knows b ?s"
    unfolding consumer_knows_def
  proof (intro conjI allI)
    show "length (w_got ?s) \<le> w_cview ?s Head_At" "reads_done ?s \<le> w_cview ?s Tail_At"
      using i r grows [of Tail_At] grows [of Head_At] by simp_all
    show "uses b k (reads_done ?s) \<le> w_cview ?s (Reads_At k)" for k
      using i r grows [of "Reads_At k"] by (auto intro: order_trans)
    show "w_got ?s = take (length (w_got ?s)) (w_sent ?s)" using i by simp
  qed (use pc in simp)
  moreover have "producer_knows b ?s" using inv using producer_frame [of ?s s] by (simp add: weak_inv_def)
  ultimately show ?thesis using m by (simp add: weak_inv_def)
qed

section \<open>The accesses of a push\<close>

lemma index_history_append:
  assumes "index_history b l n h" and "\<And>k. uses b k (Suc n) \<le> v (l k)"
  shows "index_history b l (Suc n) (h @ [(b + of_nat n + 1, v)])"
  using assms by (auto simp: index_history_def nth_append le_Suc_eq algebra_simps simp del: uses_simps)

lemma tail_views: "snd ` set (w_tail s) \<subseteq> views_of s" "snd ` set (w_head s) \<subseteq> views_of s" "snd ` set (w_flag s) \<subseteq> views_of s"
  by (auto simp: views_of_def)

text \<open>What the producer knows of the consumer when it has found room.\<close>

lemma slot_is_free:
  assumes "weak_inv b s" and "w_prod s = WP (P_Both desc tail head)" and "\<not> QUEUE_CAP \<le> unat (tail - head)"
  shows "unat tail mod QUEUE_CAP = slot_of b (length (w_sent s))"
    and "Suc (length (w_sent s)) \<le> w_pview s Head_At + QUEUE_CAP"
    and "w_pview s (Reads_At (slot_of b (length (w_sent s)))) = w_reads s (slot_of b (length (w_sent s)))"
proof -
  let ?n = "length (w_sent s)" and ?k = "slot_of b (length (w_sent s))"
  note i = assms(1) [unfolded weak_inv_def memory_ok_def producer_knows_def consumer_knows_def]
  from i assms(2) obtain j where j: "tail = b + of_nat ?n" "head = b + of_nat j" "j \<le> w_pview s Head_At" "?n \<le> j + QUEUE_CAP"
    "\<And>k. uses b k j \<le> w_pview s (Reads_At k)" by auto
  have top: "w_pview s \<le> latest b s" "w_cview s \<le> latest b s" using i by (simp_all add: views_of_def)
  have g: "w_pview s Head_At \<le> length (w_got s)" using le_funD [OF top(1), of Head_At] by simp
  have r: "reads_done s \<le> ?n" "length (w_got s) \<le> reads_done s"
    using le_funD [OF top(2), of Tail_At] i by (auto simp: reads_done_def)
  show "unat tail mod QUEUE_CAP = ?k" unfolding j(1) by (rule unat_add_mod_cap)
  have "j \<le> ?n" using j(3) g r by simp
  then have lt: "?n < j + QUEUE_CAP" using assms(3) j(1,2,4) index_distance [of j ?n b] by simp
  then show "Suc ?n \<le> w_pview s Head_At + QUEUE_CAP" using j(3) by simp
  have "uses b ?k (reads_done s) = uses b ?k j" by (rule uses_window) (use j(3) g r lt in simp_all)
  then have "w_reads s ?k \<le> w_pview s (Reads_At ?k)" using i j(5) [of ?k] by simp
  moreover have "w_pview s (Reads_At ?k) \<le> w_reads s ?k" using le_funD [OF top(1), of "Reads_At ?k"] i by simp
  ultimately show "w_pview s (Reads_At ?k) = w_reads s ?k" by simp
qed

lemma write_inv:
  assumes inv: "weak_inv b s" and pr: "w_prod s = WP (P_Both desc tail head)" and room: "\<not> QUEUE_CAP \<le> unat (tail - head)"
    and wr: "plain_write (Slot_At k) (Reads_At k) desc (w_slots s k) (w_reads s k) (w_pview s) = (h, v, race)"
    and k: "k = unat tail mod QUEUE_CAP"
  shows "weak_inv b (s\<lparr>w_slots := (w_slots s)(k := h), w_pview := v, w_race := w_race s \<or> race, w_prod := WP (P_Written desc tail)\<rparr>)"
proof -
  let ?s = "s\<lparr>w_slots := (w_slots s)(k := h), w_pview := v, w_race := w_race s \<or> race, w_prod := WP (P_Written desc tail)\<rparr>"
  let ?n = "length (w_sent s)"
  note i = inv [unfolded weak_inv_def memory_ok_def producer_knows_def]
  note free = slot_is_free [OF inv pr room, folded k]
  have w: "written s = w_sent s" "written ?s = w_sent s @ [desc]" using pr by (simp_all add: written_def)
  have r: "reads_done ?s = reads_done s" by (simp add: reads_done_def)
  have top: "w_pview s \<le> latest b s" using i by (simp add: views_of_def)
  have len: "length (w_slots s k) = Suc (uses b k ?n)" using i w by simp
  have "w_pview s (Slot_At k) = uses b k ?n"
    using le_funD [OF top, of "Slot_At k"] i w by (simp add: order_antisym)
  then have p: "h = w_slots s k @ [desc]" "v = (w_pview s)(Slot_At k := Suc (uses b k ?n))" "\<not> race"
    using wr free len by (auto simp: plain_write_def)
  have old: "latest b s \<le> latest b ?s" by (rule latest_mono) (simp_all add: w r)
  have "v \<le> latest b ?s"
  proof (rule le_funI)
    fix l
    show "v l \<le> latest b ?s l"
      using le_funD [OF top, of l] le_funD [OF old, of l] by (cases "l = Slot_At k") (auto simp: p(2) written_def free(1))
  qed
  then have "\<forall>v\<in>views_of ?s. v \<le> latest b ?s" using i old by (auto simp: views_of_def intro: order_trans)
  moreover have "\<forall>j<length (written ?s). w_slots ?s (slot_of b j) ! Suc (uses b (slot_of b j) j) = written ?s ! j"
    unfolding w(2)
  proof (intro allI impI)
    fix j
    assume "j < length (w_sent s @ [desc])"
    then consider "j < ?n" | "j = ?n" by fastforce
    then show "w_slots ?s (slot_of b j) ! Suc (uses b (slot_of b j) j) = (w_sent s @ [desc]) ! j"
    proof cases
      case 1
      then have "uses b (slot_of b j) (Suc j) \<le> uses b (slot_of b j) ?n" by (intro uses_mono) simp
      then show ?thesis using 1 i w len by (auto simp: p(1) nth_append)
    qed (use free(1) len in \<open>simp add: p(1) nth_append\<close>)
  qed
  ultimately have m: "memory_ok b ?s"
    using i w r len p free(1) by (simp add: memory_ok_def)
  have "producer_knows b ?s"
    using i pr free(2) by (auto simp: producer_knows_def written_def p free(1))
  moreover have "consumer_knows b ?s" using inv consumer_frame [of ?s s] by (simp add: weak_inv_def)
  ultimately show ?thesis using m by (simp add: weak_inv_def)
qed

lemma publish_inv:
  assumes inv: "weak_inv b s" and pr: "w_prod s = WP (P_Written desc tail)"
    and st: "store_at Release Tail_At (tail + 1) (w_tail s) (w_pview s) = (h, v)"
  shows "weak_inv b (s\<lparr>w_tail := h, w_pview := v, w_prod := WP (P_Done True), w_sent := w_sent s @ [desc]\<rparr>)"
proof -
  let ?s = "s\<lparr>w_tail := h, w_pview := v, w_prod := WP (P_Done True), w_sent := w_sent s @ [desc]\<rparr>"
  let ?n = "length (w_sent s)"
  note i = inv [unfolded weak_inv_def memory_ok_def producer_knows_def consumer_knows_def]
  have w: "written s = w_sent s @ [desc]" "written ?s = w_sent s @ [desc]" using pr by (simp_all add: written_def)
  have r: "reads_done ?s = reads_done s" by (simp add: reads_done_def)
  have tail: "tail = b + of_nat ?n" and len: "length (w_tail s) = Suc ?n" using i pr by (simp_all add: index_history_def)
  have hv: "h = w_tail s @ [(b + of_nat ?n + 1, v)]" "v = (w_pview s)(Tail_At := Suc ?n)"
    using st by (auto simp: store_at_def Let_def tail len)
  have top: "w_pview s \<le> latest b s" using i by (simp add: views_of_def)
  have old: "latest b s \<le> latest b ?s" by (rule latest_mono) (simp_all add: w r)
  have "v \<le> latest b ?s"
  proof (rule le_funI)
    fix l
    show "v l \<le> latest b ?s l"
      using le_funD [OF top, of l] le_funD [OF old, of l] by (cases "l = Tail_At") (auto simp: hv(2))
  qed
  then have "\<forall>v\<in>views_of ?s. v \<le> latest b ?s" using i old by (auto simp: views_of_def hv(1) intro: order_trans)
  moreover have "index_history b Slot_At (Suc ?n) h"
    unfolding hv(1) by (rule index_history_append) (use i w hv(2) in simp_all)
  ultimately have m: "memory_ok b ?s" using i w r by (simp add: memory_ok_def)
  have "producer_knows b ?s" using i w by (auto simp: producer_knows_def w hv(2))
  moreover have "consumer_knows b ?s"
  proof -
    have "length (w_got s) \<le> ?n"
      using i le_funD [of "w_cview s" "latest b s" Tail_At] by (auto simp: views_of_def reads_done_def split: if_splits)
    moreover have "pop_knows b (w_sent s @ [desc]) m u pc" if "pop_knows b (w_sent s) m u pc" for m u pc
      using that by (cases pc) (auto simp: nth_append)
    ultimately show ?thesis using i r by (simp add: consumer_knows_def)
  qed
  ultimately show ?thesis using m by (simp add: weak_inv_def)
qed

lemma finish_inv:
  assumes inv: "weak_inv b s" and pr: "w_prod s = WP (P_Done ok)"
    and st: "store_at Release Flag_At 1 (w_flag s) (w_pview s) = (h, v)"
  shows "weak_inv b (s\<lparr>w_flag := h, w_pview := v, w_prod := WP_Finished\<rparr>)"
proof -
  let ?s = "s\<lparr>w_flag := h, w_pview := v, w_prod := WP_Finished\<rparr>"
  note i = inv [unfolded weak_inv_def memory_ok_def producer_knows_def]
  have w: "written s = w_sent s" "written ?s = w_sent s" using pr by (simp_all add: written_def)
  have r: "reads_done ?s = reads_done s" by (simp add: reads_done_def)
  have hv: "h = w_flag s @ [(1, v)]" "v = (w_pview s)(Flag_At := length (w_flag s))"
    using st by (auto simp: store_at_def Let_def)
  have top: "w_pview s \<le> latest b s" using i by (simp add: views_of_def)
  have old: "latest b s \<le> latest b ?s" by (rule latest_mono) (simp_all add: hv(1) written_def reads_done_def pr)
  have "v \<le> latest b ?s"
  proof (rule le_funI)
    fix l
    show "v l \<le> latest b ?s l"
      using le_funD [OF top, of l] le_funD [OF old, of l] by (cases "l = Flag_At") (auto simp: hv)
  qed
  then have "\<forall>v\<in>views_of ?s. v \<le> latest b ?s" using i old by (auto simp: views_of_def hv(1) intro: order_trans)
  then have m: "memory_ok b ?s" using i w r by (simp add: memory_ok_def)
  have "producer_knows b ?s" using i w by (simp add: producer_knows_def hv(2))
  moreover have "consumer_knows b ?s" using inv consumer_frame [of ?s s] by (simp add: weak_inv_def)
  ultimately show ?thesis using m by (simp add: weak_inv_def)
qed

lemma control_inv:
  assumes "weak_inv b s" and "unwritten (w_prod s)" and "unwritten pr" and "\<And>pc. pr = WP pc \<Longrightarrow> push_knows b (length (w_sent s)) (w_pview s) pc"
  shows "weak_inv b (s\<lparr>w_prod := pr\<rparr>)"
proof -
  let ?s = "s\<lparr>w_prod := pr\<rparr>"
  have w: "written s = w_sent s" "written ?s = w_sent s" using assms(2,3) by (simp_all add: written_unwritten)
  have "reads_done ?s = reads_done s" by (simp add: reads_done_def)
  then show ?thesis
    using assms(1,4) w consumer_frame [of ?s s] by (simp add: weak_inv_def memory_ok_def producer_knows_def views_of_def)
qed

lemma index_value:
  assumes h: "index_history b l n h" and ld: "load_at ord l' h t v = Some (x, v')"
  shows "t \<le> n" and "x = b + of_nat t" and "v l' \<le> t" and "t \<le> v' l'" and "ord = Acquire \<Longrightarrow> uses b k t \<le> v' (l k)"
proof -
  from ld have 1: "t < length h" "x = fst (h ! t)" "v l' \<le> t" "t \<le> v' l'" "ord = Acquire \<Longrightarrow> snd (h ! t) \<le> v'"
    by (auto elim: load_at_SomeE)
  from 1 h show 2: "t \<le> n" "x = b + of_nat t" "v l' \<le> t" "t \<le> v' l'" by (auto simp: index_history_def)
  show "uses b k t \<le> v' (l k)" if "ord = Acquire"
    using le_funD [OF 1(5) [OF that], of "l k"] h 2(1) by (auto simp: index_history_def intro: order_trans)
qed

lemma push_inv:
  assumes inv: "weak_inv b s" and pr: "w_prod s = WP pc" and mv: "push_weak t pc s = Some s'"
  shows "weak_inv b s'"
proof (cases pc)
  case (P_Start desc)
  from mv obtain x v where l: "load_at Relaxed Tail_At (w_tail s) t (w_pview s) = Some (x, v)"
    and s': "s' = s\<lparr>w_pview := v, w_prod := WP (P_Tail desc x)\<rparr>" by (auto simp: P_Start p_load_def)
  have h: "index_history b Slot_At (length (w_sent s)) (w_tail s)" "length (w_sent s) \<le> w_pview s Tail_At"
    using inv by (simp_all add: weak_inv_def memory_ok_def producer_knows_def)
  note t = index_value [OF h(1) l]
  have "t = length (w_sent s)" using t(1,3) h(2) by simp
  then show ?thesis
    unfolding s' by (intro p_load_inv [OF inv l tail_views(1)]) (use pr P_Start t(2) in auto)
next
  case (P_Tail desc tail)
  from mv obtain x v where l: "load_at Acquire Head_At (w_head s) t (w_pview s) = Some (x, v)"
    and s': "s' = s\<lparr>w_pview := v, w_prod := WP (P_Both desc tail x)\<rparr>" by (auto simp: P_Tail p_load_def)
  have h: "index_history b Reads_At (length (w_got s)) (w_head s)" "length (w_sent s) \<le> w_pview s Head_At + QUEUE_CAP"
    "tail = b + of_nat (length (w_sent s))"
    using inv pr P_Tail by (auto simp: weak_inv_def memory_ok_def producer_knows_def written_def)
  note t = index_value [OF h(1) l]
  have "push_knows b (length (w_sent s)) v (P_Both desc tail x)"
    using t h(2,3) by (auto intro!: exI [of _ t])
  then show ?thesis
    unfolding s' using p_load_inv [OF inv l tail_views(2), of "WP (P_Both desc tail x)"] t(1) pr P_Tail by auto
next
  case (P_Both desc tail head)
  show ?thesis
  proof (cases "QUEUE_CAP \<le> unat (tail - head)")
    case True
    then show ?thesis using mv P_Both pr control_inv [OF inv, of "WP (P_Done False)"] by auto
  next
    case False
    obtain h v race where wr: "plain_write (Slot_At (unat tail mod QUEUE_CAP)) (Reads_At (unat tail mod QUEUE_CAP)) desc
        (w_slots s (unat tail mod QUEUE_CAP)) (w_reads s (unat tail mod QUEUE_CAP)) (w_pview s) = (h, v, race)"
      by (metis prod_cases3)
    then show ?thesis
      using write_inv [OF inv _ False wr refl] mv P_Both pr False by (auto simp: Let_def)
  qed
next
  case (P_Written desc tail)
  then show ?thesis using mv pr publish_inv [OF inv] by (auto split: prod.splits)
qed (use mv in simp)

section \<open>The accesses of a pop\<close>

text \<open>What the consumer knows of the producer when it has found a descriptor.\<close>

lemma slot_is_filled:
  assumes "weak_inv b s" and "w_cons s = WC (C_Both head tail)" and "head \<noteq> tail"
  shows "unat head mod QUEUE_CAP = slot_of b (length (w_got s))" and "head = b + of_nat (length (w_got s))"
    and "Suc (length (w_got s)) \<le> w_cview s Tail_At" and "length (w_got s) < length (w_sent s)"
    and "Suc (w_cview s (Slot_At (slot_of b (length (w_got s))))) = length (w_slots s (slot_of b (length (w_got s))))"
    and "w_slots s (slot_of b (length (w_got s))) ! w_cview s (Slot_At (slot_of b (length (w_got s)))) = w_sent s ! length (w_got s)"
proof -
  let ?n = "length (w_got s)" and ?k = "slot_of b (length (w_got s))" and ?m = "length (written s)"
  note i = assms(1) [unfolded weak_inv_def memory_ok_def producer_knows_def consumer_knows_def]
  from i assms(2) obtain j where j: "head = b + of_nat ?n" "tail = b + of_nat j" "?n \<le> j" "j \<le> w_cview s Tail_At"
    "\<And>k. uses b k j \<le> w_cview s (Slot_At k)" by auto
  have top: "w_pview s \<le> latest b s" "w_cview s \<le> latest b s" using i by (simp_all add: views_of_def)
  have s: "j \<le> length (w_sent s)" using le_funD [OF top(2), of Tail_At] j(4) by simp
  have m: "length (w_sent s) \<le> ?m" "?m \<le> ?n + QUEUE_CAP"
    using le_funD [OF top(1), of Head_At] i by (auto simp: written_def)
  have ne: "Suc ?n \<le> j" using assms(3) j(1,2,3) by (cases "j = ?n") auto
  show "unat head mod QUEUE_CAP = ?k" unfolding j(1) by (rule unat_add_mod_cap)
  show "head = b + of_nat ?n" by (rule j(1))
  show "Suc ?n \<le> w_cview s Tail_At" "?n < length (w_sent s)" using ne j(4) s by simp_all
  have "uses b ?k j = Suc (uses b ?k ?n)" "uses b ?k ?m = Suc (uses b ?k ?n)"
    using ne s m by (auto intro!: uses_after)
  then have v: "w_cview s (Slot_At ?k) = Suc (uses b ?k ?n)" "length (w_slots s ?k) = Suc (Suc (uses b ?k ?n))"
    using le_funD [OF top(2), of "Slot_At ?k"] j(5) [of ?k] i by simp_all
  then show "Suc (w_cview s (Slot_At ?k)) = length (w_slots s ?k)" by simp
  have "?n < ?m" using ne s m by simp
  then have "w_slots s ?k ! Suc (uses b ?k ?n) = written s ! ?n" using i by blast
  then show "w_slots s ?k ! w_cview s (Slot_At ?k) = w_sent s ! ?n"
    using v(1) ne s by (simp add: written_def nth_append)
qed

lemma read_inv:
  assumes inv: "weak_inv b s" and c: "w_cons s = WC (C_Both head tail)" and ne: "head \<noteq> tail"
    and rd: "plain_read (Slot_At k) (w_slots s k) (w_cview s) = (desc, race)" and k: "k = unat head mod QUEUE_CAP"
  shows "weak_inv b (s\<lparr>w_reads := (w_reads s)(k := w_reads s k + 1), w_cview := (w_cview s)(Reads_At k := w_reads s k + 1),
    w_race := w_race s \<or> race, w_cons := WC (C_Read head desc)\<rparr>)" (is "weak_inv b ?s")
proof -
  let ?n = "length (w_got s)"
  note i = inv [unfolded weak_inv_def memory_ok_def consumer_knows_def]
  note full = slot_is_filled [OF inv c ne]
  have k': "k = slot_of b ?n" using k full(1) by simp
  have d: "desc = w_sent s ! ?n" "\<not> race" using rd full(5,6) by (auto simp: plain_read_def k')
  have w: "written ?s = written s" by (simp add: written_def)
  have r: "reads_done s = ?n" "reads_done ?s = Suc ?n" using c by (simp_all add: reads_done_def)
  have top: "w_cview s \<le> latest b s" using i by (simp add: views_of_def)
  have old: "latest b s \<le> latest b ?s" by (rule latest_mono) (simp_all add: reads_done_def c written_def)
  have "(w_cview s)(Reads_At k := w_reads s k + 1) \<le> latest b ?s"
  proof (rule le_funI)
    fix l
    show "((w_cview s)(Reads_At k := w_reads s k + 1)) l \<le> latest b ?s l"
      using le_funD [OF top, of l] le_funD [OF old, of l] i r(1) by (cases "l = Reads_At k") (auto simp: reads_done_def k')
  qed
  then have "\<forall>v\<in>views_of ?s. v \<le> latest b ?s" using i old by (auto simp: views_of_def intro: order_trans)
  then have m: "memory_ok b ?s" using i w r d(2) by (simp add: memory_ok_def k')
  have "consumer_knows b ?s" using i full r c by (auto simp: consumer_knows_def reads_done_def d(1) k')
  moreover have "producer_knows b ?s" using inv producer_frame [of ?s s] by (simp add: weak_inv_def)
  ultimately show ?thesis using m by (simp add: weak_inv_def)
qed

lemma take_inv:
  assumes inv: "weak_inv b s" and c: "w_cons s = WC (C_Read head desc)"
    and st: "store_at Release Head_At (head + 1) (w_head s) (w_cview s) = (h, v)"
  shows "weak_inv b (s\<lparr>w_head := h, w_cview := v, w_cons := WC (C_Done (Some desc)), w_got := w_got s @ [desc]\<rparr>)" (is "weak_inv b ?s")
proof -
  let ?n = "length (w_got s)"
  note i = inv [unfolded weak_inv_def memory_ok_def consumer_knows_def]
  have w: "written ?s = written s" by (simp add: written_def)
  have r: "reads_done s = Suc ?n" "reads_done ?s = Suc ?n" using c by (simp_all add: reads_done_def)
  have head: "head = b + of_nat ?n" "?n < length (w_sent s)" "desc = w_sent s ! ?n" and len: "length (w_head s) = Suc ?n"
    using i c by (simp_all add: index_history_def)
  have hv: "h = w_head s @ [(b + of_nat ?n + 1, v)]" "v = (w_cview s)(Head_At := Suc ?n)"
    using st by (auto simp: store_at_def Let_def head(1) len)
  have top: "w_cview s \<le> latest b s" using i by (simp add: views_of_def)
  have old: "latest b s \<le> latest b ?s" by (rule latest_mono) (simp_all add: reads_done_def c written_def)
  have "v \<le> latest b ?s"
  proof (rule le_funI)
    fix l
    show "v l \<le> latest b ?s l"
      using le_funD [OF top, of l] le_funD [OF old, of l] by (cases "l = Head_At") (auto simp: hv(2))
  qed
  then have "\<forall>v\<in>views_of ?s. v \<le> latest b ?s" using i old by (auto simp: views_of_def hv(1) intro: order_trans)
  moreover have "index_history b Reads_At (Suc ?n) h"
    unfolding hv(1) by (rule index_history_append) (use i r hv(2) in simp_all)
  ultimately have m: "memory_ok b ?s" using i w r by (simp add: memory_ok_def)
  have "w_got s @ [desc] = take (Suc ?n) (w_sent s)"
    using i head(2,3) by (metis take_Suc_conv_app_nth)
  then have "consumer_knows b ?s" using i r by (simp add: consumer_knows_def reads_done_def hv(2))
  moreover have "producer_knows b ?s" using inv producer_frame [of ?s s] by (simp add: weak_inv_def)
  ultimately show ?thesis using m by (simp add: weak_inv_def)
qed

lemma worker_control_inv:
  assumes "weak_inv b s" and "unread (w_cons s)" and "unread c"
    and "\<And>pc. c = WC pc \<Longrightarrow> pop_knows b (w_sent s) (length (w_got s)) (w_cview s) pc"
  shows "weak_inv b (s\<lparr>w_cons := c\<rparr>)" (is "weak_inv b ?s")
proof -
  have r: "reads_done s = length (w_got s)" "reads_done ?s = length (w_got s)" using assms(2,3) by (simp_all add: reads_unread)
  have "written ?s = written s" by (simp add: written_def)
  then show ?thesis
    using assms(1,4) r producer_frame [of ?s s] by (simp add: weak_inv_def memory_ok_def consumer_knows_def views_of_def)
qed

lemma pop_inv:
  assumes inv: "weak_inv b s" and c: "w_cons s = WC pc" and mv: "pop_weak t pc s = Some s'"
  shows "weak_inv b s'"
proof (cases pc)
  case C_Start
  from mv obtain x v where l: "load_at Relaxed Head_At (w_head s) t (w_cview s) = Some (x, v)"
    and s': "s' = s\<lparr>w_cview := v, w_cons := WC (C_Head x)\<rparr>" by (auto simp: C_Start c_load_def)
  have h: "index_history b Reads_At (length (w_got s)) (w_head s)" "length (w_got s) \<le> w_cview s Head_At"
    using inv by (simp_all add: weak_inv_def memory_ok_def consumer_knows_def)
  note t = index_value [OF h(1) l]
  have "t = length (w_got s)" using t(1,3) h(2) by simp
  then show ?thesis
    unfolding s' by (intro c_load_inv [OF inv l tail_views(2)]) (use c C_Start t(2) in auto)
next
  case (C_Head head)
  from mv obtain x v where l: "load_at Acquire Tail_At (w_tail s) t (w_cview s) = Some (x, v)"
    and s': "s' = s\<lparr>w_cview := v, w_cons := WC (C_Both head x)\<rparr>" by (auto simp: C_Head c_load_def)
  have h: "index_history b Slot_At (length (w_sent s)) (w_tail s)" "length (w_got s) \<le> w_cview s Tail_At"
    "head = b + of_nat (length (w_got s))"
    using inv c C_Head by (auto simp: weak_inv_def memory_ok_def consumer_knows_def reads_done_def)
  note t = index_value [OF h(1) l]
  have "pop_knows b (w_sent s) (length (w_got s)) v (C_Both head x)"
    using t h(2,3) by (auto intro!: exI [of _ t])
  then show ?thesis
    unfolding s' using c_load_inv [OF inv l tail_views(1), of "WC (C_Both head x)"] t(1) c C_Head by auto
next
  case (C_Both head tail)
  show ?thesis
  proof (cases "head = tail")
    case True
    then show ?thesis using mv C_Both c worker_control_inv [OF inv, of "WC (C_Done None)"] by auto
  next
    case False
    obtain desc race where "plain_read (Slot_At (unat head mod QUEUE_CAP)) (w_slots s (unat head mod QUEUE_CAP)) (w_cview s) = (desc, race)"
      by fastforce
    then show ?thesis
      using read_inv [OF inv _ False _ refl] mv C_Both c False by (auto simp: Let_def)
  qed
next
  case (C_Read head desc)
  then show ?thesis using mv c take_inv [OF inv] by (auto split: prod.splits)
qed (use mv in simp)

section \<open>Every move\<close>

lemma history_lengths:
  assumes "weak_inv b s"
  shows "length (w_tail s) = Suc (length (w_sent s))" and "length (w_head s) = Suc (length (w_got s))"
  using assms by (simp_all add: weak_inv_def memory_ok_def index_history_def)

lemma load_bound: "load_at ord l h t v = Some r \<Longrightarrow> t < length h"
  by (simp add: load_at_def split: if_splits)

lemma look_inv:
  assumes "weak_inv b s" and "w_prod s = WP (P_Done ok)" and "p_load ord l h t (\<lambda>_. w_prod s) s = Some s'"
    and "snd ` set h \<subseteq> views_of s" and "length h = Suc (latest b s l)"
  shows "weak_inv b s'"
proof -
  from assms(3) obtain x v where l: "load_at ord l h t (w_pview s) = Some (x, v)" and s': "s' = s\<lparr>w_pview := v, w_prod := w_prod s\<rparr>"
    by (auto simp: p_load_def)
  show ?thesis
    unfolding s' by (rule p_load_inv [OF assms(1) l assms(4)]) (use assms(2,5) load_bound [OF l] in auto)
qed

lemma watch_inv:
  assumes "weak_inv b s" and "unread (w_cons s)" and "c_load ord l h t next s = Some s'"
    and "snd ` set h \<subseteq> views_of s" and "length h = Suc (latest b s l)"
    and "\<And>x. unread (next x)" and "\<And>x pc v. next x = WC pc \<Longrightarrow> pop_knows b (w_sent s) (length (w_got s)) v pc"
  shows "weak_inv b s'"
proof -
  from assms(3) obtain x v where l: "load_at ord l h t (w_cview s) = Some (x, v)" and s': "s' = s\<lparr>w_cview := v, w_cons := next x\<rparr>"
    by (auto simp: c_load_def)
  show ?thesis
    unfolding s' by (rule c_load_inv [OF assms(1) l assms(4)]) (use assms(2,5,6,7) load_bound [OF l] in auto)
qed

text \<open>The flag is what the generator made it, and covers what the generator sent.\<close>

definition flag_ok :: "weak_state \<Rightarrow> bool" where
  "flag_ok s \<longleftrightarrow>
     (if w_prod s = WP_Finished then \<exists>v. w_flag s = [(0, \<lambda>_. 0), (1, v)] \<and> length (w_sent s) \<le> v Tail_At
      else w_flag s = [(0, \<lambda>_. 0)])"

lemma move_inv:
  assumes inv: "weak_inv b s" and flag: "w_flag s \<noteq> []" and mv: "do_weak ord mv s = Some s'"
  shows "weak_inv b s'"
proof (cases mv)
  case (W_Call_Push desc)
  then show ?thesis
    using mv control_inv [OF inv, of "WP (P_Start desc)"] by (auto split: weak_producer.splits push_pc.splits)
next
  case (W_Push t)
  then show ?thesis using mv push_inv [OF inv] by (auto split: weak_producer.splits)
next
  case (W_Look_Tail t)
  then show ?thesis
    using mv look_inv [OF inv _ _ tail_views(1), of _ Relaxed Tail_At t] history_lengths [OF inv]
    by (auto split: weak_producer.splits push_pc.splits)
next
  case (W_Look_Head t)
  then show ?thesis
    using mv look_inv [OF inv _ _ tail_views(2), of _ Relaxed Head_At t] history_lengths [OF inv]
    by (auto split: weak_producer.splits push_pc.splits)
next
  case W_Finish
  then show ?thesis
    using mv finish_inv [OF inv] by (auto simp: finish_weak_def split: weak_producer.splits push_pc.splits prod.splits)
next
  case W_Call_Pop
  then show ?thesis
    using mv worker_control_inv [OF inv, of "WC C_Start"] by (auto split: weak_consumer.splits pop_pc.splits)
next
  case (W_Pop t)
  then show ?thesis using mv pop_inv [OF inv] by (auto split: weak_consumer.splits)
next
  case (W_Watch_Tail t)
  then obtain r where c: "w_cons s = WC (C_Done r)" "c_load Relaxed Tail_At (w_tail s) t (\<lambda>_. w_cons s) s = Some s'"
    using mv by (auto split: weak_consumer.splits pop_pc.splits)
  show ?thesis
    by (rule watch_inv [OF inv _ c(2) tail_views(1)]) (use c(1) history_lengths [OF inv] in auto)
next
  case (W_Watch_Head t)
  then obtain r where c: "w_cons s = WC (C_Done r)" "c_load Relaxed Head_At (w_head s) t (\<lambda>_. w_cons s) s = Some s'"
    using mv by (auto split: weak_consumer.splits pop_pc.splits)
  show ?thesis
    by (rule watch_inv [OF inv _ c(2) tail_views(2)]) (use c(1) history_lengths [OF inv] in auto)
next
  case (W_Check t)
  from mv W_Check consider
      (flag) r where "w_cons s = WC (C_Done r)" "check_flag ord t s = Some s'"
    | (tail) "w_cons s = WC_Flagged" "c_load Relaxed Tail_At (w_tail s) t WC_Len s = Some s'"
    | (head) tail where "w_cons s = WC_Len tail" "check_empty t tail s = Some s'"
    by (auto split: weak_consumer.splits pop_pc.splits)
  then show ?thesis
  proof cases
    case flag
    show ?thesis
      by (rule watch_inv [OF inv _ flag(2) [unfolded check_flag_def] tail_views(3)])
        (use flag(1) assms(2) in \<open>auto split: if_splits\<close>)
  next
    case tail
    show ?thesis
      by (rule watch_inv [OF inv _ tail(2) tail_views(1)]) (use tail(1) history_lengths [OF inv] in auto)
  next
    case head
    show ?thesis
      by (rule watch_inv [OF inv _ head(2) [unfolded check_empty_def] tail_views(2)])
        (use head(1) history_lengths [OF inv] in \<open>auto split: if_splits\<close>)
  qed
qed

section \<open>The way out of the worker\<close>

definition exit_ok :: "u32 \<Rightarrow> weak_state \<Rightarrow> bool" where
  "exit_ok b s \<longleftrightarrow>
     (w_cons s = WC_Flagged \<longrightarrow> w_prod s = WP_Finished \<and> length (w_sent s) \<le> w_cview s Tail_At) \<and>
     (\<forall>tail. w_cons s = WC_Len tail \<longrightarrow> w_prod s = WP_Finished \<and> tail = b + of_nat (length (w_sent s))) \<and>
     (w_cons s = WC_Exited \<longrightarrow> w_prod s = WP_Finished \<and> w_got s = w_sent s)"

lemma push_frame: "push_weak t pc s = Some s' \<Longrightarrow> w_flag s' = w_flag s \<and> w_cons s' = w_cons s \<and> w_prod s' \<noteq> WP_Finished"
  by (cases pc) (auto simp: p_load_def Let_def split: if_splits prod.splits)

lemma pop_frame: "pop_weak t pc s = Some s' \<Longrightarrow> w_flag s' = w_flag s \<and> w_prod s' = w_prod s \<and> w_sent s' = w_sent s \<and> (\<exists>pc. w_cons s' = WC pc)"
  by (cases pc) (auto simp: c_load_def Let_def split: if_splits prod.splits)

text \<open>A move is one of the generator, which is not finished, or one of the worker.\<close>

lemma move_frame:
  assumes "do_weak ord mv s = Some s'"
  shows "w_prod s \<noteq> WP_Finished \<and> w_cons s' = w_cons s \<and> (mv \<noteq> W_Finish \<longrightarrow> w_flag s' = w_flag s \<and> w_prod s' \<noteq> WP_Finished) \<or>
    w_prod s' = w_prod s \<and> w_flag s' = w_flag s \<and> w_sent s' = w_sent s \<and> mv \<noteq> W_Finish \<and>
      ((\<exists>t. mv = W_Check t) \<or> (\<exists>pc. w_cons s' = WC pc))"
proof (cases mv)
  case (W_Push t)
  then show ?thesis using assms push_frame by (auto split: weak_producer.splits)
next
  case (W_Pop t)
  then show ?thesis using assms pop_frame by (auto split: weak_consumer.splits)
next
  case (W_Check t)
  then show ?thesis
    using assms by (auto simp: c_load_def check_flag_def check_empty_def split: weak_consumer.splits pop_pc.splits)
qed (use assms in \<open>auto simp: p_load_def c_load_def finish_weak_def Let_def split: weak_producer.splits weak_consumer.splits
      push_pc.splits pop_pc.splits prod.splits\<close>)

lemma flag_move:
  assumes "flag_ok s" and "weak_inv b s" and "do_weak ord mv s = Some s'"
  shows "flag_ok s'"
proof (cases "mv = W_Finish")
  case True
  then show ?thesis
    using assms
    by (auto simp: flag_ok_def finish_weak_def store_at_def Let_def weak_inv_def producer_knows_def
        split: weak_producer.splits push_pc.splits)
next
  case False
  then show ?thesis using move_frame [OF assms(3)] assms(1) by (auto simp: flag_ok_def)
qed

lemma exit_move:
  assumes "exit_ok b s" and "flag_ok s" and "weak_inv b s" and "do_weak Acquire mv s = Some s'"
  shows "exit_ok b s'"
proof (cases "\<exists>t. mv = W_Check t")
  case False
  then show ?thesis using move_frame [OF assms(4)] assms(1) unfolding exit_ok_def by (metis weak_consumer.distinct)
next
  case True
  then obtain t where mv: "mv = W_Check t" by blast
  from assms(4) mv consider
      (flag) r where "w_cons s = WC (C_Done r)" "check_flag Acquire t s = Some s'"
    | (tail) "w_cons s = WC_Flagged" "c_load Relaxed Tail_At (w_tail s) t WC_Len s = Some s'"
    | (head) tail where "w_cons s = WC_Len tail" "check_empty t tail s = Some s'"
    by (auto split: weak_consumer.splits pop_pc.splits)
  then show ?thesis
  proof cases
    case flag
    then obtain x v where l: "load_at Acquire Flag_At (w_flag s) t (w_cview s) = Some (x, v)"
      and s': "s' = s\<lparr>w_cview := v, w_cons := if x = 1 then WC_Flagged else WC (C_Done None)\<rparr>"
      by (auto simp: check_flag_def c_load_def)
    from l have t: "t < length (w_flag s)" "x = fst (w_flag s ! t)" "snd (w_flag s ! t) \<le> v" by (auto elim: load_at_SomeE)
    then show ?thesis
      using assms(2) le_funD [OF t(3), of Tail_At]
      by (auto simp: exit_ok_def s' flag_ok_def nth_Cons' less_Suc_eq split: if_splits)
  next
    case tail
    then obtain x v where l: "load_at Relaxed Tail_At (w_tail s) t (w_cview s) = Some (x, v)"
      and s': "s' = s\<lparr>w_cview := v, w_cons := WC_Len x\<rparr>" by (auto simp: c_load_def)
    have h: "index_history b Slot_At (length (w_sent s)) (w_tail s)" using assms(3) by (simp add: weak_inv_def memory_ok_def)
    have "t = length (w_sent s)" using index_value(1,3) [OF h l] assms(1) tail(1) by (simp add: exit_ok_def)
    then show ?thesis using index_value(2) [OF h l] assms(1) tail(1) by (simp add: exit_ok_def s')
  next
    case head
    then obtain x v where l: "load_at Relaxed Head_At (w_head s) t (w_cview s) = Some (x, v)"
      and s': "s' = s\<lparr>w_cview := v, w_cons := if unat (tail - x) = 0 then WC_Exited else WC (C_Done None)\<rparr>"
      by (auto simp: check_empty_def c_load_def)
    let ?n = "length (w_sent s)" and ?g = "length (w_got s)"
    note i = assms(3) [unfolded weak_inv_def memory_ok_def producer_knows_def consumer_knows_def]
    have h: "index_history b Reads_At ?g (w_head s)" using i by simp
    have x: "x = b + of_nat ?g" using index_value(1,2,3) [OF h l] i by (metis order_antisym order_trans)
    have fin: "w_prod s = WP_Finished" "tail = b + of_nat ?n" using assms(1) head(1) by (simp_all add: exit_ok_def)
    have top: "w_pview s \<le> latest b s" "w_cview s \<le> latest b s" using i by (simp_all add: views_of_def)
    have "length (written s) \<le> w_pview s Head_At + QUEUE_CAP" "reads_done s \<le> w_cview s Tail_At" using i by blast+
    then have "?g \<le> ?n" "?n \<le> ?g + QUEUE_CAP"
      using le_funD [OF top(1), of Head_At] le_funD [OF top(2), of Tail_At] by (simp_all add: written_def reads_done_def)
    then have "unat (tail - x) = ?n - ?g" unfolding fin(2) x by (rule index_distance)
    moreover have "w_got s = take ?g (w_sent s)" using i by blast
    ultimately have "unat (tail - x) = 0 \<Longrightarrow> w_got s = w_sent s" by (metis diff_is_0_eq take_all)
    then show ?thesis using fin(1) by (simp add: exit_ok_def s')
  qed
qed

lemma weak_reachable_inv:
  assumes "weak_reachable ord b s"
  shows "weak_inv b s \<and> flag_ok s \<and> (ord = Acquire \<longrightarrow> exit_ok b s)"
  using assms
proof induction
  case weak_start
  then show ?case using weak_inv_start [of b] by (simp add: flag_ok_def exit_ok_def weak_init_def)
next
  case (weak_next s mv s')
  have "w_flag s \<noteq> []" using weak_next by (auto simp: flag_ok_def split: if_splits)
  then show ?case using weak_next move_inv flag_move exit_move by blast
qed

section \<open>Properties\<close>

text \<open>
  C5: The accept queue is correct with the orderings in the code: whatever messages the loads of the
  generator and of the worker return, no access to a slot is a data race, and what the worker has
  popped is a prefix of what the generator has pushed, at most \<open>QUEUE_CAP\<close> behind it; this includes the
  wrapping of the indices, which may start anywhere.
\<close>

theorem ring_is_safe_below_sc:
  assumes "weak_reachable SHUTDOWN_LOAD b s"
  shows "\<not> w_race s \<and> (\<exists>queued. w_sent s = w_got s @ queued \<and> length queued \<le> QUEUE_CAP)"
proof -
  note i = conjunct1 [OF weak_reachable_inv [OF assms], unfolded weak_inv_def memory_ok_def producer_knows_def consumer_knows_def]
  have "w_pview s \<le> latest b s" using i by (simp add: views_of_def)
  then have "length (w_sent s) \<le> length (w_got s) + QUEUE_CAP"
    using le_funD [of "w_pview s" "latest b s" Head_At] i by (simp add: written_def)
  moreover have "w_sent s = w_got s @ drop (length (w_got s)) (w_sent s)" using i by (metis append_take_drop_id)
  ultimately show ?thesis using i by (intro conjI exI [of _ "drop (length (w_got s)) (w_sent s)"]) simp_all
qed

theorem ring_is_safe_below_sc_witness:
  "\<exists>s. weak_run SHUTDOWN_LOAD lost_run (weak_init 0) = Some s \<and> \<not> w_race s \<and> w_sent s = [sample_desc 1]"
proof -
  from lost_run_ends obtain s where s: "weak_run Relaxed lost_run (weak_init 0) = Some s" "w_sent s = [sample_desc 1]" by blast
  have "weak_reachable SHUTDOWN_LOAD 0 s" unfolding SHUTDOWN_LOAD_def by (rule weak_run_reachable [OF weak_start s(1)])
  then show ?thesis using ring_is_safe_below_sc [of 0 s] s by (simp add: SHUTDOWN_LOAD_def)
qed

text \<open>
  C6: The shutdown flag needs an acquire load: with the relaxed load of the code there is a run in which
  the generator has finished and the worker has left with a connection still in its queue; with
  an acquire load the worker leaves only when it has popped everything that was ever pushed.
\<close>

theorem shutdown_flag_needs_acquire:
  "(\<exists>s. weak_reachable SHUTDOWN_LOAD 0 s \<and> w_cons s = WC_Exited \<and> w_prod s = WP_Finished \<and> w_got s \<noteq> w_sent s) \<and>
   (\<forall>b s. weak_reachable Acquire b s \<and> w_cons s = WC_Exited \<longrightarrow> w_prod s = WP_Finished \<and> w_got s = w_sent s)"
proof
  show "\<exists>s. weak_reachable SHUTDOWN_LOAD 0 s \<and> w_cons s = WC_Exited \<and> w_prod s = WP_Finished \<and> w_got s \<noteq> w_sent s"
    using lost_run_ends weak_run_reachable [OF weak_start] unfolding SHUTDOWN_LOAD_def by fastforce
  show "\<forall>b s. weak_reachable Acquire b s \<and> w_cons s = WC_Exited \<longrightarrow> w_prod s = WP_Finished \<and> w_got s = w_sent s"
    using weak_reachable_inv by (auto simp: exit_ok_def)
qed

text \<open>The same schedule, but the worker, which cannot miss the push any more, pops before it leaves.\<close>

theorem shutdown_flag_needs_acquire_witness:
  "\<exists>s. weak_run Acquire [W_Call_Push (sample_desc 1), W_Push 0, W_Push 0, W_Push 0, W_Push 0, W_Finish, W_Check 1, W_Check 1,
      W_Check 0, W_Call_Pop, W_Pop 0, W_Pop 1, W_Pop 0, W_Pop 0, W_Check 1, W_Check 1, W_Check 1] (weak_init 0) = Some s \<and>
    w_cons s = WC_Exited \<and> w_got s = w_sent s \<and> w_sent s = [sample_desc 1]"
proof -
  let ?mvs = "[W_Call_Push (sample_desc 1), W_Push 0, W_Push 0, W_Push 0, W_Push 0, W_Finish, W_Check 1, W_Check 1,
      W_Check 0, W_Call_Pop, W_Pop 0, W_Pop 1, W_Pop 0, W_Pop 0, W_Check 1, W_Check 1, W_Check 1]"
  have "\<exists>s. weak_run Acquire ?mvs (weak_init 0) = Some s \<and> w_cons s = WC_Exited \<and> w_sent s = [sample_desc 1]"
    by (simp add: weak_init_def p_load_def c_load_def load_at_def store_at_def plain_write_def plain_read_def check_flag_def
        check_empty_def finish_weak_def QUEUE_CAP_def Let_def)
  then obtain s where s: "weak_run Acquire ?mvs (weak_init 0) = Some s" "w_cons s = WC_Exited" "w_sent s = [sample_desc 1]"
    by blast
  have "weak_reachable Acquire 0 s" by (rule weak_run_reachable [OF weak_start s(1)])
  then show ?thesis using shutdown_flag_needs_acquire s by blast
qed

end
