(* ===== verification/Sim_Report.thy ===== *)
theory Sim_Report
  imports Sim_Drain Sim_Process
begin

text \<open>
  The report of the simulation against its processes: \<open>main.rs\<close> prints counters of the generator, of
  the shared memory and of the merged files, three sources that no code compares. Here they are
  followed through every interleaving of \<open>Sim_System\<close> and shown to account for each other.
\<close>

section \<open>The generator's counters\<close>

definition dispatched_to :: "nat \<Rightarrow> (conn_desc \<times> nat \<times> bool) list \<Rightarrow> nat" where
  "dispatched_to w entries = length (filter (\<lambda>(d, target, ok). target = w) entries)"

definition dropped_at :: "nat \<Rightarrow> (conn_desc \<times> nat \<times> bool) list \<Rightarrow> nat" where
  "dropped_at w entries = length (filter (\<lambda>(d, target, ok). \<not> ok \<and> target = w) entries)"

lemma log_counts [simp]:
  "dispatched_to w [] = 0" "dropped_at w [] = 0"
  "dispatched_to w (xs @ ys) = dispatched_to w xs + dispatched_to w ys" "dropped_at w (xs @ ys) = dropped_at w xs + dropped_at w ys"
  "dispatched_to w [(d, target, ok)] = (if target = w then 1 else 0)"
  "dropped_at w [(d, target, ok)] = (if \<not> ok \<and> target = w then 1 else 0)"
  by (simp_all add: dispatched_to_def dropped_at_def)

lemma dispatched_split: "dispatched_to w entries = length (delivered w entries) + dropped_at w entries"
  by (induction entries) (auto simp: dispatched_to_def dropped_at_def delivered_def)

text \<open>A connection is counted as dispatched before its push, and as dropped after it.\<close>

fun pushing :: "gen_pc \<Rightarrow> nat option" where
  "pushing (G_Push target d) = Some target"
| "pushing _ = None"

fun dropping :: "gen_pc \<Rightarrow> nat option" where
  "dropping (G_Full target) = Some target"
| "dropping _ = None"

definition gen_counts :: "shared_state \<Rightarrow> gen_proc \<Rightarrow> (conn_desc \<times> nat \<times> bool) list \<Rightarrow> bool" where
  "gen_counts m g entries \<longleftrightarrow>
     length (dispatched_per_worker (gp_stats g)) = NUM_WORKERS \<and>
     (\<forall>w<NUM_WORKERS.
       dispatched_per_worker (gp_stats g) ! w = of_nat (dispatched_to w entries + (if pushing (gp_pc g) = Some w then 1 else 0)) \<and>
       sh_drops m ! w + (if dropping (gp_pc g) = Some w then 1 else 0) = of_nat (dropped_at w entries))"

lemma gen_step_counts:
  assumes "gen_step cfg p seed interval (m, g) (m', g') entries" and "shared_ok m" and "gen_ok cfg interval g before"
    and "gen_counts m g before"
  shows "gen_counts m' g' (before @ entries) \<and> sh_wst m' = sh_wst m"
proof -
  have len: "length (sh_drops m) = NUM_WORKERS" using assms(2) by (simp add: shared_ok_def)
  show ?thesis
    using assms(1)
  proof (cases rule: gen_step_cases)
    case (arrive now)
    then show ?thesis using assms(4) by (auto simp: gen_counts_def nth_list_update)
  next
    case (drop target)
    then have "target < NUM_WORKERS" using assms(3) by (simp add: gen_ok_def Let_def)
    then show ?thesis using drop assms(4) len by (auto simp: gen_counts_def next_conn_def nth_list_update)
  qed (use assms(4) in \<open>auto simp: gen_counts_def next_conn_def request_shutdown_def\<close>)
qed

section \<open>The worker's rows and its slot\<close>

definition own_rows :: "nat \<Rightarrow> sim_proc \<Rightarrow> bool" where
  "own_rows w pr \<longleftrightarrow> (\<forall>row\<in>set (sw_conns (sp_state pr)). row_worker_id row = w)"

definition open_counted :: "nat \<Rightarrow> shared_state \<Rightarrow> sim_proc \<Rightarrow> bool" where
  "open_counted w m pr \<longleftrightarrow> accumulated_conns (slots (sh_wst m) ! w) = of_nat (length (sw_open_conns (sp_state pr)))"

lemma on_slot_other: "v \<noteq> w \<Longrightarrow> own_slot v (on_slot w f s) = own_slot v s"
  by (simp add: on_slot_def upd_slot_def)

lemma close_expired_other: "v \<noteq> w \<Longrightarrow> own_slot v (close_expired w now cs s) = own_slot v s"
  by (induction cs arbitrary: s) (auto simp: on_slot_other split: prod.split)

lemma serve_one_slots:
  assumes "serve_one w p d dequeue_ns done_ns s = Some s'" and "shared_ok (sw_shared s)" and "w < NUM_WORKERS"
  shows "v \<noteq> w \<Longrightarrow> own_slot v s' = own_slot v s"
    and "accumulated_conns (own_slot w s') = accumulated_conns (own_slot w s) + 1"
    and "length (sw_open_conns s') = Suc (length (sw_open_conns s))"
    and "\<exists>row. sw_conns s' = sw_conns s @ [row] \<and> row_worker_id row = w"
  using assms by (auto simp: serve_one_def Let_def on_slot_other own_slot_on_slot slot_op_defs)

lemma follow_one_slots:
  assumes "follow_one w p b cid dequeue_ns done_ns s = Some s'" and "shared_ok (sw_shared s)" and "w < NUM_WORKERS"
  shows "v \<noteq> w \<Longrightarrow> own_slot v s' = own_slot v s"
    and "accumulated_conns (own_slot w s') = accumulated_conns (own_slot w s)"
    and "sw_open_conns s' = sw_open_conns s"
    and "\<exists>row. sw_conns s' = sw_conns s @ [row] \<and> row_worker_id row = w"
  using assms by (auto simp: follow_one_def Let_def on_slot_other own_slot_on_slot slot_op_defs)

lemma sim_step_counts:
  assumes "sim_step w cfg p (m, pr) (m', pr')" and "shared_ok m" and "w < NUM_WORKERS"
    and "own_rows w pr" and "open_counted w m pr"
  shows "own_rows w pr' \<and> open_counted w m' pr' \<and> (\<forall>v. v \<noteq> w \<longrightarrow> slots (sh_wst m') ! v = slots (sh_wst m) ! v)"
  using assms(1)
proof (cases rule: sim_step_cases)
  case (closes now)
  have "counted w (length (sw_open_conns (sp_state pr))) ((view m pr)\<lparr>sw_open_conns := []\<rparr>)"
    using assms(2,5) by (simp add: counted_def open_counted_def)
  note c = close_expired_counted [OF this assms(3), of now] close_expired_other [of _ w now]
  show ?thesis
    using closes assms(4) c close_expired_parts [of "(view m pr)\<lparr>sw_open_conns := []\<rparr>" w now "sw_open_conns (sp_state pr)"]
    by (simp add: leave_eq own_rows_def open_counted_def counted_def)
next
  case (fires t)
  then show ?thesis
    using assms(4,5) by (simp add: leave_eq own_rows_def open_counted_def fire_burst_parts)
next
  case (serves d ds dequeue_ns done_ns s)
  have "shared_ok (sw_shared (view m pr))" using assms(2) by simp
  note c = serve_one_slots [OF serves(3) this assms(3)]
  show ?thesis using serves(1) assms(4,5) c by (auto simp: leave_eq own_rows_def open_counted_def)
next
  case (follows_up cid ids b dequeue_ns done_ns s)
  have "shared_ok (sw_shared (view m pr))" using assms(2) by simp
  note c = follow_one_slots [OF follows_up(4) this assms(3)]
  show ?thesis using follows_up(1) assms(4,5) c by (auto simp: leave_eq own_rows_def open_counted_def)
qed (use assms in \<open>auto simp: leave_eq own_rows_def open_counted_def on_slot_other own_slot_on_slot slot_op_defs
      view_def [of m pr] view_def [of "m\<lparr>sh_msel := _\<rparr>" pr] view_def [of "m\<lparr>sh_queues := _\<rparr>" pr]\<close>)

section \<open>Along every run\<close>

definition counts_inv :: "sim_sys \<Rightarrow> bool" where
  "counts_inv S \<longleftrightarrow> gen_counts (ss_mem S) (ss_gen S) (ss_log S) \<and>
     (\<forall>w<NUM_WORKERS. own_rows w (ss_procs S ! w) \<and> open_counted w (ss_mem S) (ss_procs S ! w))"

lemma counts_start: "counts_inv (sys_start cfg)"
  by (simp add: counts_inv_def sys_start_def gen_counts_def fresh_gen_def gen_start_def zeroed_state_def own_rows_def
      open_counted_def fresh_worker_def sim_start_def worker_slot_new_def)

lemma counts_step:
  assumes "sys_step cfg p seed interval S S'" and "sys_inv cfg interval S" and "counts_inv S"
  shows "counts_inv S'"
  using assms(1)
proof cases
  case (generator m g entries)
  have ok: "shared_ok (ss_mem S)" "gen_ok cfg interval (ss_gen S) (ss_log S)" using assms(2) by (simp_all add: sys_inv_def)
  have "gen_counts (ss_mem S) (ss_gen S) (ss_log S)" using assms(3) by (simp add: counts_inv_def)
  from gen_step_counts [OF generator(2) ok this] show ?thesis
    using generator(1) assms(3) by (simp add: counts_inv_def open_counted_def)
next
  case (worker w m pr)
  have ok: "shared_ok (ss_mem S)" "length (ss_procs S) = NUM_WORKERS" using assms(2) by (simp_all add: sys_inv_def)
  have "own_rows w (ss_procs S ! w)" "open_counted w (ss_mem S) (ss_procs S ! w)"
    using assms(3) worker(2) by (simp_all add: counts_inv_def)
  note c = sim_step_counts [OF worker(3) ok(1) worker(2) this]
  have "sh_drops m = sh_drops (ss_mem S)" using sim_step_frame [OF worker(3) ok(1) worker(2)] by simp
  then have "gen_counts m (ss_gen S) (ss_log S)" using assms(3) by (simp add: counts_inv_def gen_counts_def)
  moreover have "own_rows v (ss_procs S' ! v) \<and> open_counted v m (ss_procs S' ! v)" if "v < NUM_WORKERS" for v
  proof (cases "v = w")
    case False
    then show ?thesis using c assms(3) worker(1) that by (simp add: counts_inv_def open_counted_def)
  qed (use c worker(1,2) ok(2) in simp)
  ultimately show ?thesis using worker(1) by (simp add: counts_inv_def)
qed

lemma counts_reachable: "sys_reachable cfg p seed interval S \<Longrightarrow> counts_inv S"
  by (induction rule: sys_reachable.induct) (auto intro: counts_start counts_step dest: sys_reachable_inv)

section \<open>Properties\<close>

lemma rows_split: "length (sw_conns s) = length (accept_keys s) + length (follow_ids s)"
proof -
  have "length (filter (\<lambda>row. row_kind_of row = Accept_Row) rows) + length (filter (\<lambda>row. row_kind_of row = Burst_Row) rows) =
      length rows" for rows
    by (induction rows) (auto intro: row_kind.exhaust)
  from this [of "sw_conns s"] show ?thesis by (simp add: accept_keys_def follow_ids_def)
qed

lemma dropped_total:
  "\<forall>(d, target, ok)\<in>set entries. target < n \<Longrightarrow>
    (\<Sum>w<n. dropped_at w entries) = length (filter (\<lambda>(d, target, ok). \<not> ok) entries)"
proof (induction entries)
  case (Cons e entries)
  obtain d target ok where e: "e = (d, target, ok)" using prod_cases3 by blast
  have "dropped_at w (e # entries) = (if \<not> ok \<and> target = w then 1 else 0) + dropped_at w entries" for w
    by (simp add: e dropped_at_def)
  then have "(\<Sum>w<n. dropped_at w (e # entries)) = (if \<not> ok \<and> target < n then 1 else 0) + (\<Sum>w<n. dropped_at w entries)"
    by (cases ok) (simp_all add: sum.distrib)
  then show ?case using Cons e by auto
qed simp

text \<open>
  C7: The simulation's report accounts for every connection: in every interleaving of the generator and
  the workers, once all have finished, the printed counters of generator, shared memory and merged
  files agree. Each worker's dispatched connections are those delivered to it and those its full queue
  dropped; its completed rows are the delivered connections and its follow-ups; its open count is the
  number of connections it still holds; and completed and dropped together are what was generated,
  one connection per interval, and the follow-ups.
\<close>

theorem report_accounts_for_every_connection:
  fixes S :: sim_sys and report :: run_report
  defines "report \<equiv> make_report (map (conn_shard \<circ> (\<lambda>w. sp_state (ss_procs S ! w))) [0..<NUM_WORKERS]) None
    (gp_stats (ss_gen S)) (ss_mem S)"
  assumes "sys_reachable cfg p seed interval S" and "0 < interval" and "gp_pc (ss_gen S) = G_Done" and "all_exited S"
  shows "let n = ceil_div (duration_of cfg) interval; worker = \<lambda>w. sp_state (ss_procs S ! w);
      drops = \<Sum>w<NUM_WORKERS. dropped_at w (ss_log S)
    in rp_generated report = of_nat n \<and> rp_dropped report = of_nat drops \<and>
      rp_completed report + drops = n + (\<Sum>w<NUM_WORKERS. length (follow_ids (worker w))) \<and>
      (\<forall>w<NUM_WORKERS. let delivered = length (delivered w (ss_log S)); dropped = dropped_at w (ss_log S) in
        rp_dispatched report ! w = of_nat (delivered + dropped) \<and> rp_drops report ! w = of_nat dropped \<and>
        rp_completed_per_worker report ! w = of_nat (delivered + length (follow_ids (worker w))) \<and>
        rp_open_at_exit report ! w = of_nat (length (sw_open_conns (worker w))))"
proof -
  let ?worker = "\<lambda>w. sp_state (ss_procs S ! w)"
  note n = finished_run [OF assms(2,4,3)]
  have counts: "gen_counts (ss_mem S) (ss_gen S) (ss_log S)"
    "\<And>w. w < NUM_WORKERS \<Longrightarrow> own_rows w (ss_procs S ! w) \<and> open_counted w (ss_mem S) (ss_procs S ! w)"
    using counts_reachable [OF assms(2)] by (simp_all add: counts_inv_def)
  have "\<forall>w<NUM_WORKERS. \<forall>row\<in>set (sw_conns (?worker w)). row_worker_id row = w" using counts(2) by (simp add: own_rows_def)
  note rows = report_counts_rows [OF this, of "gp_stats (ss_gen S)" "ss_mem S", folded report_def]
  have len: "length (sw_conns (?worker w)) = length (delivered w (ss_log S)) + length (follow_ids (?worker w))"
    if "w < NUM_WORKERS" for w
    using exited_worker(1) [OF assms(2) that] assms(5) that rows_split [of "?worker w"] by (simp add: all_exited_def)
  have targets: "\<forall>(d, target, ok)\<in>set (ss_log S). target < NUM_WORKERS" using n(2) by (simp add: gen_ok_def Let_def)
  have log: "(\<Sum>w<NUM_WORKERS. length (delivered w (ss_log S))) + (\<Sum>w<NUM_WORKERS. dropped_at w (ss_log S)) =
      ceil_div (duration_of cfg) interval"
    using delivered_total [OF targets] dropped_total [OF targets] n(1) by simp
  have "rp_generated report = of_nat (ceil_div (duration_of cfg) interval)"
    "rp_dropped report = of_nat (\<Sum>w<NUM_WORKERS. dropped_at w (ss_log S))"
    using n assms(4) dropped_total [OF targets] by (simp_all add: report_def make_report_def gen_ok_def Let_def)
  moreover have "rp_completed report + (\<Sum>w<NUM_WORKERS. dropped_at w (ss_log S)) =
      ceil_div (duration_of cfg) interval + (\<Sum>w<NUM_WORKERS. length (follow_ids (?worker w)))"
  proof -
    have "rp_completed report = (\<Sum>w<NUM_WORKERS. length (sw_conns (?worker w)))"
      using rows by (simp add: interv_sum_list_conv_sum_set_nat atLeast0LessThan)
    also have "\<dots> = (\<Sum>w<NUM_WORKERS. length (delivered w (ss_log S))) + (\<Sum>w<NUM_WORKERS. length (follow_ids (?worker w)))"
      unfolding sum.distrib [symmetric] by (rule sum.cong) (simp_all add: len)
    finally show ?thesis using log by simp
  qed
  moreover have "rp_dispatched report ! w = of_nat (length (delivered w (ss_log S)) + dropped_at w (ss_log S))"
    "rp_drops report ! w = of_nat (dropped_at w (ss_log S))"
    "rp_completed_per_worker report ! w = of_nat (length (delivered w (ss_log S)) + length (follow_ids (?worker w)))"
    "rp_open_at_exit report ! w = of_nat (length (sw_open_conns (?worker w)))"
    if "w < NUM_WORKERS" for w
    using counts(1) counts(2) [OF that] that assms(4) rows len [OF that]
    by (simp_all add: report_def make_report_def gen_counts_def dispatched_split open_counted_def Let_def)
  ultimately show ?thesis unfolding Let_def by blast
qed

theorem report_accounts_for_every_connection_witness:
  "\<exists>S. sys_reachable one_shot Sim_Dispatcher.Hermes 7 1 S \<and> all_exited S \<and>
    rp_generated (make_report (map (conn_shard \<circ> (\<lambda>w. sp_state (ss_procs S ! w))) [0..<NUM_WORKERS]) None
      (gp_stats (ss_gen S)) (ss_mem S)) = 1"
proof -
  obtain S where s: "sys_reachable one_shot Sim_Dispatcher.Hermes 7 1 S" "gp_pc (ss_gen S) = G_Done"
    using one_shot_done by blast
  obtain S' where s': "sys_reachable one_shot Sim_Dispatcher.Hermes 7 1 S'" "all_exited S'" "gp_pc (ss_gen S') = G_Done"
    using finishes [OF s] s(2) by metis
  have "ceil_div (duration_of one_shot) 1 = 1" by (simp add: ceil_div_def one_shot_def)
  then show ?thesis
    using report_accounts_for_every_connection [OF s'(1) _ s'(3,2)] s'(1,2) by (auto simp: Let_def)
qed

end
