(* ===== verification/Unit_Tests.thy ===== *)
theory Unit_Tests
  imports Sim_Scheduler Sim_Dispatcher
begin

text \<open>
  The unit tests of the repository, run on the model: the test modules of the two \<open>scheduler.rs\<close>, of
  \<open>dispatcher.rs\<close> and of \<open>shm.rs\<close>, each test as a proposition, the conjunction of what it asserts. The
  tests of the schedulers read the clock; they are shown to pass whatever it says, but for one reading
  of \<open>test_hung_worker_filtered_stage1\<close>, whose stale timestamp is then zero, the mark of a worker that has
  not started.
\<close>

section \<open>Scheduler of the eBPF version\<close>

definition make_snapshots :: "(i64 \<times> i64 \<times> i64) list \<Rightarrow> worker_snapshot list" where
  "make_snapshots entries = map (\<lambda>(t, events, conns).
     \<lparr>snap_last_loop_entry = t, snap_pending_events = events, snap_accumulated_conns = conns\<rparr>) entries"

text \<open>The tests read the clock; \<open>now\<close> is what they read.\<close>

definition test_all_idle_all_survive :: "i64 \<Rightarrow> bool" where
  "test_all_idle_all_survive now =
     (let snaps = make_snapshots [(now, 0, 0), (now, 0, 0), (now, 0, 0), (now, 0, 0)];
          res = schedule_from_snapshots snaps now HANG_THRESHOLD_NS
      in after_stage1 res = 4 \<and> after_stage3 res = 4 \<and> bitmap res = 0b1111)"

definition test_hung_worker_filtered_stage1 :: "i64 \<Rightarrow> bool" where
  "test_hung_worker_filtered_stage1 now =
     (let old = now - HANG_THRESHOLD_NS - 1;
          snaps = make_snapshots [(old, 0, 0), (now, 0, 0), (now, 0, 0), (now, 0, 0)];
          res = schedule_from_snapshots snaps now HANG_THRESHOLD_NS
      in after_stage1 res = 3 \<and> bitmap res AND 1 = 0)"

definition test_cold_start_zero_timestamp_treated_as_alive :: "i64 \<Rightarrow> bool" where
  "test_cold_start_zero_timestamp_treated_as_alive now =
     (let snaps = make_snapshots [(0, 0, 0), (now, 0, 0), (now, 0, 0), (now, 0, 0)];
          res = schedule_from_snapshots snaps now HANG_THRESHOLD_NS
      in after_stage1 res = 4)"

definition test_high_conn_worker_filtered_stage2 :: "i64 \<Rightarrow> bool" where
  "test_high_conn_worker_filtered_stage2 now =
     (let snaps = make_snapshots [(now, 0, 1), (now, 0, 1), (now, 0, 1), (now, 0, 100)];
          res = schedule_from_snapshots snaps now HANG_THRESHOLD_NS
      in bitmap res AND push_bit 3 1 = 0 \<and> after_stage2 res = 3)"

definition test_high_events_worker_filtered_stage3 :: "i64 \<Rightarrow> bool" where
  "test_high_events_worker_filtered_stage3 now =
     (let snaps = make_snapshots [(now, 0, 0), (now, 0, 0), (now, 50, 0), (now, 0, 0)];
          res = schedule_from_snapshots snaps now HANG_THRESHOLD_NS
      in bitmap res AND push_bit 2 1 = 0)"

definition test_theta_floor_keeps_equal_zero_loads :: bool where
  "test_theta_floor_keeps_equal_zero_loads =
     (let candidates = [0..<4]; result = filter_below_baseline candidates (\<lambda>_. 0) in length result = 4)"

definition test_theta_scales_with_average :: bool where
  "test_theta_scales_with_average =
     (let loads = [10, 10, 10, 14]; candidates = [0..<4]; result = filter_below_baseline candidates (\<lambda>i. loads ! i)
      in length result = 4)"

section \<open>Scheduler of the simulation\<close>

definition sim_make_snapshots :: "(i64 \<times> i64 \<times> i64) list \<Rightarrow> worker_snapshot list" where
  "sim_make_snapshots entries = map (\<lambda>(t, events, conns).
     \<lparr>snap_last_loop_entry = t, snap_pending_events = events, snap_accumulated_conns = conns\<rparr>) entries"

definition sim_test_all_idle_all_survive :: "i64 \<Rightarrow> bool" where
  "sim_test_all_idle_all_survive now =
     (let snaps = sim_make_snapshots [(now, 0, 0), (now, 0, 0), (now, 0, 0), (now, 0, 0)];
          res = sim_schedule_from_snapshots snaps now SIM_HANG_THRESHOLD_NS
      in after_stage1 res = 4 \<and> after_stage3 res = 4 \<and> bitmap res = 0b1111)"

definition sim_test_hung_worker_filtered_stage1 :: "i64 \<Rightarrow> bool" where
  "sim_test_hung_worker_filtered_stage1 now =
     (let old = now - SIM_HANG_THRESHOLD_NS - 1;
          snaps = sim_make_snapshots [(old, 0, 0), (now, 0, 0), (now, 0, 0), (now, 0, 0)];
          res = sim_schedule_from_snapshots snaps now SIM_HANG_THRESHOLD_NS
      in after_stage1 res = 3 \<and> bitmap res AND 1 = 0)"

definition sim_test_cold_start_zero_timestamp_treated_as_alive :: "i64 \<Rightarrow> bool" where
  "sim_test_cold_start_zero_timestamp_treated_as_alive now =
     (let snaps = sim_make_snapshots [(0, 0, 0), (now, 0, 0), (now, 0, 0), (now, 0, 0)];
          res = sim_schedule_from_snapshots snaps now SIM_HANG_THRESHOLD_NS
      in after_stage1 res = 4)"

definition sim_test_high_conn_worker_filtered_stage2 :: "i64 \<Rightarrow> bool" where
  "sim_test_high_conn_worker_filtered_stage2 now =
     (let snaps = sim_make_snapshots [(now, 0, 1), (now, 0, 1), (now, 0, 1), (now, 0, 100)];
          res = sim_schedule_from_snapshots snaps now SIM_HANG_THRESHOLD_NS
      in bitmap res AND push_bit 3 1 = 0 \<and> after_stage2 res = 3)"

definition sim_test_high_events_worker_filtered_stage3 :: "i64 \<Rightarrow> bool" where
  "sim_test_high_events_worker_filtered_stage3 now =
     (let snaps = sim_make_snapshots [(now, 0, 0), (now, 0, 0), (now, 50, 0), (now, 0, 0)];
          res = sim_schedule_from_snapshots snaps now SIM_HANG_THRESHOLD_NS
      in bitmap res AND push_bit 2 1 = 0)"

definition sim_test_theta_floor_keeps_equal_zero_loads :: bool where
  "sim_test_theta_floor_keeps_equal_zero_loads =
     (let candidates = [0..<4]; result = sim_filter_below_baseline candidates (\<lambda>_. 0) in length result = 4)"

definition sim_test_theta_scales_with_average :: bool where
  "sim_test_theta_scales_with_average =
     (let loads = [10, 10, 10, 14]; candidates = [0..<4]; result = sim_filter_below_baseline candidates (\<lambda>i. loads ! i)
      in length result = 4)"

section \<open>Dispatcher\<close>

definition test_reciprocal_scale_stays_in_range :: bool where
  "test_reciprocal_scale_stays_in_range =
     (\<forall>hash\<in>set [0, 1, 0xffffffff, 0x123456789abcdef0, - 1]. unat (sim_reciprocal_scale hash (of_nat NUM_WORKERS)) < NUM_WORKERS)"

definition test_find_nth_set_bit :: bool where
  "test_find_nth_set_bit \<longleftrightarrow> sim_find_nth_set_bit 0b1101 0 = 0 \<and> sim_find_nth_set_bit 0b1101 1 = 2 \<and> sim_find_nth_set_bit 0b1101 2 = 3"

definition hashed_workers :: "u64 \<Rightarrow> nat set" where
  "hashed_workers bm = set (map (\<lambda>h. dispatch_hermes bm (of_nat h * 0x9e3779b97f4a7c15)) [0..<1000])"

definition test_hermes_dispatch_stays_within_candidates :: bool where
  "test_hermes_dispatch_stays_within_candidates =
     (let workers = hashed_workers 0b0101 in 0 \<in> workers \<and> 2 \<in> workers \<and> 1 \<notin> workers \<and> 3 \<notin> workers)"

definition test_hermes_single_candidate_falls_back_to_hash :: bool where
  "test_hermes_single_candidate_falls_back_to_hash = (let workers = hashed_workers 0b0100 in 1 < card workers)"

definition test_empty_bitmap_falls_back_to_hash :: bool where
  "test_empty_bitmap_falls_back_to_hash = (let worker = dispatch_hermes 0 42 in worker < NUM_WORKERS)"

definition test_lifo_prefers_last_registered_idle_worker :: bool where
  "test_lifo_prefers_last_registered_idle_worker =
     (let state = zeroed_state;
          busy = state\<lparr>sh_wst := upd_slot (NUM_WORKERS - 1) (\<lambda>s. s\<lparr>pending_events := 3\<rparr>) (sh_wst state)\<rparr>
      in dispatch_lifo state = NUM_WORKERS - 1 \<and> dispatch_lifo busy = NUM_WORKERS - 2)"

definition push_to :: "conn_desc \<Rightarrow> nat \<Rightarrow> shared_state \<Rightarrow> shared_state" where
  "push_to desc i sh = sh\<lparr>sh_queues := (sh_queues sh)[i := snd (push (sh_queues sh ! i) desc)]\<rparr>"

definition test_lifo_all_busy_picks_shortest_backlog :: bool where
  "test_lifo_all_busy_picks_shortest_backlog =
     (let desc = \<lparr>conn_id = 0, desc_hash = 0, arrival_ns = 0, service_us = 0, lifetime_ms = 0\<rparr>;
          state = fold (\<lambda>i sh. (push_to desc i ^^ (i + 2)) sh) [0..<NUM_WORKERS] zeroed_state
      in dispatch_lifo state = 0)"

section \<open>Accept queue\<close>

definition test_queue_push_pop_roundtrip :: bool where
  "test_queue_push_pop_roundtrip =
     (let q = sh_queues zeroed_state ! 0;
          desc = \<lparr>conn_id = 7, desc_hash = 42, arrival_ns = 1, service_us = 100, lifetime_ms = 5\<rparr>;
          (ok, q1) = push q desc;
          (popped, q2) = pop q1
      in queue_is_empty q \<and> ok \<and> queue_len q1 = 1 \<and>
         (case popped of Some d \<Rightarrow> conn_id d = 7 \<and> desc_hash d = 42 | None \<Rightarrow> False) \<and> fst (pop q2) = None)"

fun push_asserted :: "conn_desc \<Rightarrow> nat \<Rightarrow> conn_queue \<Rightarrow> bool \<times> conn_queue" where
  "push_asserted desc 0 q = (True, q)"
| "push_asserted desc (Suc n) q = (let (ok, q) = push q desc; (oks, q) = push_asserted desc n q in (ok \<and> oks, q))"

definition test_queue_full_rejects :: bool where
  "test_queue_full_rejects =
     (let desc = \<lparr>conn_id = 0, desc_hash = 0, arrival_ns = 0, service_us = 0, lifetime_ms = 0\<rparr>;
          (oks, q) = push_asserted desc QUEUE_CAP (sh_queues zeroed_state ! 1);
          (ok, q) = push q desc
      in oks \<and> \<not> ok \<and> queue_len q = QUEUE_CAP)"

fun cycle_asserted :: "conn_desc \<Rightarrow> nat list \<Rightarrow> conn_queue \<Rightarrow> bool \<times> conn_queue" where
  "cycle_asserted desc [] q = (True, q)"
| "cycle_asserted desc (i # is) q =
     (let (ok, q) = push q (desc\<lparr>conn_id := of_nat i\<rparr>);
          (popped, q) = pop q;
          (oks, q) = cycle_asserted desc is q
      in (ok \<and> (case popped of Some d \<Rightarrow> conn_id d = of_nat i | None \<Rightarrow> False) \<and> oks, q))"

definition test_queue_wraps_indices :: bool where
  "test_queue_wraps_indices =
     (let desc = \<lparr>conn_id = 1, desc_hash = 0, arrival_ns = 0, service_us = 0, lifetime_ms = 0\<rparr>;
          (oks, q) = cycle_asserted desc [0..<QUEUE_CAP * 3] (sh_queues zeroed_state ! 2)
      in oks \<and> queue_is_empty q)"

section \<open>The tests pass\<close>

lemma filter_below_baseline_metric:
  "(\<And>i. i \<in> set xs \<Longrightarrow> f i = g i) \<Longrightarrow> filter_below_baseline xs f = filter_below_baseline xs g"
  by (simp add: filter_below_baseline_def Let_def cong: map_cong filter_cong)

lemma test_metrics:
  "\<forall>i\<in>set xs. i < length es \<Longrightarrow>
    filter_below_baseline xs (\<lambda>i. snap_accumulated_conns (make_snapshots es ! i)) = filter_below_baseline xs ((!) (map (snd \<circ> snd) es))"
  "\<forall>i\<in>set xs. i < length es \<Longrightarrow>
    filter_below_baseline xs (\<lambda>i. snap_pending_events (make_snapshots es ! i)) = filter_below_baseline xs ((!) (map (fst \<circ> snd) es))"
  by (auto intro!: filter_below_baseline_metric simp: make_snapshots_def split: prod.split)

lemma test_loads:
  "filter_below_baseline [0, 1, 2, 3] ((!) [0, 0, 0, 0]) = [0, 1, 2, 3]" "filter_below_baseline [1, 2, 3] ((!) [0, 0, 0, 0]) = [1, 2, 3]"
  "filter_below_baseline [0, 1, 2] ((!) [0, 0, 0, 0]) = [0, 1, 2]" "filter_below_baseline [0, 1, 2, 3] ((!) [1, 1, 1, 100]) = [0, 1, 2]"
  "filter_below_baseline [0, 1, 2, 3] ((!) [0, 0, 50, 0]) = [0, 1, 3]"
  "filter_below_baseline [0, 1, 2, 3] ((!) [10, 10, 10, 14]) = [0, 1, 2, 3]" "filter_below_baseline [0, 1, 2, 3] (\<lambda>_. 0) = [0, 1, 2, 3]"
  by code_simp+

lemma test_alive: "0 <s HANG_THRESHOLD_NS" "\<not> HANG_THRESHOLD_NS + 1 <s HANG_THRESHOLD_NS" "HANG_THRESHOLD_NS + 1 \<noteq> 0"
  "\<not> 1 + HANG_THRESHOLD_NS <s HANG_THRESHOLD_NS"
  by (simp_all add: HANG_THRESHOLD_NS_def word_sless_alt)

lemma stage1_of_tests:
  "stage1 (make_snapshots [a, b, c, d]) now T [0..<NUM_WORKERS] =
    filter (\<lambda>i. let t = [fst a, fst b, fst c, fst d] ! i in t = 0 \<or> now - t <s T) [0, 1, 2, 3]"
  by (simp add: stage1_def looks_alive_def make_snapshots_def workers_upt Let_def split: prod.split)

lemmas test_model = schedule_from_snapshots_def stage1_of_tests test_metrics test_loads test_alive Let_def

lemma scheduler_tests_pass:
  "test_all_idle_all_survive now"
  "test_hung_worker_filtered_stage1 now \<longleftrightarrow> now \<noteq> HANG_THRESHOLD_NS + 1"
  "test_cold_start_zero_timestamp_treated_as_alive now"
  "test_high_conn_worker_filtered_stage2 now"
  "test_high_events_worker_filtered_stage3 now"
  test_theta_floor_keeps_equal_zero_loads
  test_theta_scales_with_average
proof -
  show "test_all_idle_all_survive now" by (simp add: test_all_idle_all_survive_def test_model del: One_nat_def)
  show "test_hung_worker_filtered_stage1 now \<longleftrightarrow> now \<noteq> HANG_THRESHOLD_NS + 1"
    by (cases "now = HANG_THRESHOLD_NS + 1") (simp_all add: test_hung_worker_filtered_stage1_def test_model algebra_simps del: One_nat_def)
  show "test_cold_start_zero_timestamp_treated_as_alive now"
    by (simp add: test_cold_start_zero_timestamp_treated_as_alive_def test_model del: One_nat_def)
  show "test_high_conn_worker_filtered_stage2 now" by (simp add: test_high_conn_worker_filtered_stage2_def test_model del: One_nat_def)
  show "test_high_events_worker_filtered_stage3 now" by (simp add: test_high_events_worker_filtered_stage3_def test_model del: One_nat_def)
  have "[0..<4] = [0, 1, 2, 3 :: nat]" by (simp add: upt_rec)
  then show test_theta_floor_keeps_equal_zero_loads test_theta_scales_with_average
    by (simp_all add: test_theta_floor_keeps_equal_zero_loads_def test_theta_scales_with_average_def test_model del: One_nat_def)
qed

lemma sim_schedule_from_snapshots_eq: "sim_schedule_from_snapshots = schedule_from_snapshots"
  by (simp add: fun_eq_iff sim_schedule_from_snapshots_def schedule_from_snapshots_def sim_filter_eq stage1_def looks_alive_def)

lemma sim_make_snapshots_eq: "sim_make_snapshots = make_snapshots"
  by (simp add: fun_eq_iff sim_make_snapshots_def make_snapshots_def)

lemmas sim_test_eqs = sim_schedule_from_snapshots_eq sim_make_snapshots_eq sim_filter_eq sim_threshold_eq

text \<open>The simulation's copies of the tests are the same propositions.\<close>

lemma sim_tests_eq:
  "sim_test_all_idle_all_survive = test_all_idle_all_survive"
  "sim_test_hung_worker_filtered_stage1 = test_hung_worker_filtered_stage1"
  "sim_test_cold_start_zero_timestamp_treated_as_alive = test_cold_start_zero_timestamp_treated_as_alive"
  "sim_test_high_conn_worker_filtered_stage2 = test_high_conn_worker_filtered_stage2"
  "sim_test_high_events_worker_filtered_stage3 = test_high_events_worker_filtered_stage3"
  "sim_test_theta_floor_keeps_equal_zero_loads = test_theta_floor_keeps_equal_zero_loads"
  "sim_test_theta_scales_with_average = test_theta_scales_with_average"
  by (simp_all add: fun_eq_iff sim_test_eqs sim_test_all_idle_all_survive_def test_all_idle_all_survive_def
      sim_test_hung_worker_filtered_stage1_def test_hung_worker_filtered_stage1_def
      sim_test_cold_start_zero_timestamp_treated_as_alive_def test_cold_start_zero_timestamp_treated_as_alive_def
      sim_test_high_conn_worker_filtered_stage2_def test_high_conn_worker_filtered_stage2_def
      sim_test_high_events_worker_filtered_stage3_def test_high_events_worker_filtered_stage3_def
      sim_test_theta_floor_keeps_equal_zero_loads_def test_theta_floor_keeps_equal_zero_loads_def
      sim_test_theta_scales_with_average_def test_theta_scales_with_average_def)

lemma hashed_within: "w \<in> hashed_workers bm \<Longrightarrow> \<exists>h. w = dispatch_hermes bm h"
  by (auto simp: hashed_workers_def)

lemma hashed_intro: "h < 1000 \<Longrightarrow> dispatch_hermes bm (of_nat h * 0x9e3779b97f4a7c15) \<in> hashed_workers bm"
  by (auto simp: hashed_workers_def)

lemma dispatcher_tests_pass:
  test_reciprocal_scale_stays_in_range test_find_nth_set_bit test_hermes_dispatch_stays_within_candidates
  test_hermes_single_candidate_falls_back_to_hash test_empty_bitmap_falls_back_to_hash
proof -
  show test_reciprocal_scale_stays_in_range
    using reuseport_hash_less unfolding test_reciprocal_scale_stays_in_range_def reuseport_hash_def by blast
  show test_find_nth_set_bit unfolding test_find_nth_set_bit_def by code_simp
  show test_empty_bitmap_falls_back_to_hash by (simp add: test_empty_bitmap_falls_back_to_hash_def dispatch_hermes_less)
  have h: "dispatch_hermes 5 0 = 0" "dispatch_hermes 5 (2 * 0x9e3779b97f4a7c15) = 2"
    "dispatch_hermes 4 0 = 0" "dispatch_hermes 4 (2 * 0x9e3779b97f4a7c15) = 3"
    by code_simp+
  have bits: "set_bits (5 :: u64) NUM_WORKERS = [0, 2]" by code_simp
  have "(5 :: u64) < 2 ^ NUM_WORKERS" by (simp add: NUM_WORKERS_def)
  moreover have "2 \<le> length [0, 2 :: nat]" by simp
  ultimately have "bit (5 :: u64) (dispatch_hermes 5 x)" for x
    using dispatch_hermes_picks_candidate [of 5 x, unfolded bits] by metis
  moreover have "\<not> bit (5 :: u64) 1" "\<not> bit (5 :: u64) 3" by simp_all
  ultimately have "1 \<notin> hashed_workers 5" "3 \<notin> hashed_workers 5" using hashed_within by metis+
  then show test_hermes_dispatch_stays_within_candidates
    using hashed_intro [of 0 5] hashed_intro [of 2 5] h by (simp add: test_hermes_dispatch_stays_within_candidates_def)
  have "{0, 3} \<subseteq> hashed_workers 4" using hashed_intro [of 0 4] hashed_intro [of 2 4] h by simp
  moreover have "finite (hashed_workers 4)" by (simp add: hashed_workers_def)
  ultimately have "card {0, 3 :: nat} \<le> card (hashed_workers 4)" by (intro card_mono)
  then show test_hermes_single_candidate_falls_back_to_hash
    by (simp add: test_hermes_single_candidate_falls_back_to_hash_def)
qed

lemma fresh_queue: "i < NUM_WORKERS \<Longrightarrow> sh_queues zeroed_state ! i = zeroed_queue"
  by (simp add: zeroed_state_def)

lemma push_asserted_fills:
  assumes "queue_inv q" and "length (queue_list q) + n \<le> QUEUE_CAP" and "push_asserted desc n q = (oks, q')"
  shows "oks \<and> queue_inv q' \<and> length (queue_list q') = length (queue_list q) + n"
  using assms
proof (induction n arbitrary: q oks)
  case (Suc n)
  obtain ok q1 where p: "push q desc = (ok, q1)" by fastforce
  obtain oks' where r: "push_asserted desc n q1 = (oks', q')" "oks = (ok \<and> oks')"
    using Suc.prems(3) p by (auto split: prod.splits)
  have "queue_inv q1 \<and> queue_list q1 = queue_list q @ [desc] \<and> ok"
    using ring.enq_cases [OF Suc.prems(1), of desc] Suc.prems(2) p by simp
  then show ?case using Suc.IH [of q1 oks'] Suc.prems(2) r by simp
qed simp

lemma cycle_asserted_empty:
  assumes "queue_inv q" and "queue_list q = []" and "cycle_asserted desc is q = (oks, q')"
  shows "oks \<and> queue_list q' = []"
  using assms
proof (induction "is" arbitrary: q oks)
  case (Cons i "is")
  obtain ok q1 where p: "push q (desc\<lparr>conn_id := of_nat i\<rparr>) = (ok, q1)" by fastforce
  obtain popped q2 where d: "pop q1 = (popped, q2)" by fastforce
  obtain oks' where r: "cycle_asserted desc is q2 = (oks', q')"
    "oks = (ok \<and> (case popped of Some d \<Rightarrow> conn_id d = of_nat i | None \<Rightarrow> False) \<and> oks')"
    using Cons.prems(3) p d by (auto split: prod.splits)
  have 1: "queue_inv q1 \<and> queue_list q1 = [desc\<lparr>conn_id := of_nat i\<rparr>] \<and> ok"
    using ring.enq_cases [OF Cons.prems(1), of "desc\<lparr>conn_id := of_nat i\<rparr>"] Cons.prems(2) p by simp
  then have "queue_inv q2 \<and> queue_list q2 = [] \<and> popped = Some (desc\<lparr>conn_id := of_nat i\<rparr>)"
    using ring.deq_cases [of q1] d by simp
  then show ?case using Cons.IH [of q2 oks'] r 1 by simp
qed simp

lemma queue_tests_pass: test_queue_push_pop_roundtrip test_queue_full_rejects test_queue_wraps_indices
proof -
  have z: "sh_queues zeroed_state ! 0 = zeroed_queue" "sh_queues zeroed_state ! 1 = zeroed_queue" "sh_queues zeroed_state ! 2 = zeroed_queue"
    by (simp_all add: fresh_queue NUM_WORKERS_def)
  let ?c = "\<lparr>conn_id = 7, desc_hash = 42, arrival_ns = 1, service_us = 100, lifetime_ms = 5\<rparr>"
  obtain ok q1 where "push zeroed_queue ?c = (ok, q1)" by fastforce
  moreover obtain popped q2 where "pop q1 = (popped, q2)" by fastforce
  ultimately have p: "push zeroed_queue ?c = (ok, q1)" "pop q1 = (popped, q2)" .
  have 1: "queue_inv q1" "queue_list q1 = [?c]" "ok" using ring.enq_cases [of zeroed_queue ?c] p(1) by simp_all
  then have 2: "queue_inv q2" "queue_list q2 = []" "popped = Some ?c" using ring.deq_cases [of q1] p(2) by simp_all
  then have "fst (pop q2) = None" using ring.deq_cases [of q2] by simp
  moreover have "queue_len q1 = 1" unfolding length_queue_list [symmetric] 1(2) by simp
  ultimately show test_queue_push_pop_roundtrip
    using p 1 2 z(1) by (simp add: test_queue_push_pop_roundtrip_def queue_is_empty_def)
  let ?d = "\<lparr>conn_id = 0, desc_hash = 0, arrival_ns = 0, service_us = 0, lifetime_ms = 0\<rparr>"
  obtain oks q where f: "push_asserted ?d QUEUE_CAP zeroed_queue = (oks, q)" by fastforce
  from push_asserted_fills [OF _ _ f] have q: "oks" "queue_inv q" "length (queue_list q) = QUEUE_CAP" by simp_all
  then have full: "queue_len q = QUEUE_CAP" "push q ?d = (False, q)" using ring.enq_full [of q ?d] by simp_all
  show test_queue_full_rejects
    unfolding test_queue_full_rejects_def Let_def z f prod.case full using q(1) by blast
  let ?e = "\<lparr>conn_id = 1, desc_hash = 0, arrival_ns = 0, service_us = 0, lifetime_ms = 0\<rparr>"
  obtain oks q where f: "cycle_asserted ?e [0..<QUEUE_CAP * 3] zeroed_queue = (oks, q)" by fastforce
  from cycle_asserted_empty [OF _ _ f] have "oks" "queue_list q = []" by simp_all
  then show test_queue_wraps_indices
    unfolding test_queue_wraps_indices_def Let_def z f prod.case queue_is_empty_def length_queue_list [symmetric] by simp
qed

text \<open>Pushing \<open>n\<close> times to an empty queue leaves \<open>n\<close> in it.\<close>

lemma push_to_once:
  assumes "i < NUM_WORKERS" and "shared_ok sh" and "queue_len (sh_queues sh ! i) < QUEUE_CAP"
  shows "shared_ok (push_to desc i sh)" and "queue_len (sh_queues (push_to desc i sh) ! i) = Suc (queue_len (sh_queues sh ! i))"
    and "j \<noteq> i \<Longrightarrow> sh_queues (push_to desc i sh) ! j = sh_queues sh ! j"
proof -
  note e = ring.enq_cases [OF shared_ok_queue [OF assms(2,1)], of desc]
  show "shared_ok (push_to desc i sh)" using e assms(2) by (simp add: push_to_def shared_ok_upd_queue)
  have "length (queue_list (snd (push (sh_queues sh ! i) desc))) = Suc (queue_len (sh_queues sh ! i))" using e assms(3) by simp
  then show "queue_len (sh_queues (push_to desc i sh) ! i) = Suc (queue_len (sh_queues sh ! i))"
    using assms(1,2) by (simp add: push_to_def shared_ok_def)
qed (simp add: push_to_def)

lemma push_to_times:
  assumes "i < NUM_WORKERS" and "shared_ok sh" and "queue_len (sh_queues sh ! i) + n \<le> QUEUE_CAP"
  shows "shared_ok ((push_to desc i ^^ n) sh) \<and>
    queue_len (sh_queues ((push_to desc i ^^ n) sh) ! i) = queue_len (sh_queues sh ! i) + n \<and>
    (\<forall>j. j \<noteq> i \<longrightarrow> sh_queues ((push_to desc i ^^ n) sh) ! j = sh_queues sh ! j)"
  using assms(3)
proof (induction n)
  case (Suc n)
  then show ?case using push_to_once [OF assms(1), of "(push_to desc i ^^ n) sh"] by simp
qed (use assms(2) in simp)

definition backlogs :: "conn_desc \<Rightarrow> nat \<Rightarrow> shared_state" where
  "backlogs desc n = fold (\<lambda>i sh. (push_to desc i ^^ (i + 2)) sh) [0..<n] zeroed_state"

lemma backlogs_len:
  assumes "n \<le> NUM_WORKERS"
  shows "shared_ok (backlogs desc n) \<and>
    (\<forall>i<NUM_WORKERS. queue_len (sh_queues (backlogs desc n) ! i) = (if i < n then i + 2 else 0))"
  using assms
proof (induction n)
  case (Suc n)
  have "shared_ok (backlogs desc n)" "queue_len (sh_queues (backlogs desc n) ! n) = 0" using Suc by simp_all
  with push_to_times [of n "backlogs desc n" "n + 2" desc] show ?case
    using Suc by (auto simp: backlogs_def NUM_WORKERS_def QUEUE_CAP_def less_Suc_eq simp del: funpow.simps)
qed (simp add: backlogs_def zeroed_state_ok fresh_queue)

lemma lifo_tests_pass: test_lifo_prefers_last_registered_idle_worker test_lifo_all_busy_picks_shortest_backlog
proof -
  let ?busy = "zeroed_state\<lparr>sh_wst := upd_slot (NUM_WORKERS - 1) (\<lambda>s. s\<lparr>pending_events := 3\<rparr>) (sh_wst zeroed_state)\<rparr>"
  have n: "NUM_WORKERS - 1 = 3" "NUM_WORKERS - 2 = 2" "NUM_WORKERS = 4" by (simp_all add: NUM_WORKERS_def)
  have "is_idle zeroed_state 3" "is_idle ?busy 2" "\<not> is_idle ?busy 3"
    by (simp_all add: is_idle_def fresh_queue n queue_is_empty_def upd_slot_def zeroed_state_def worker_slot_new_def)
  then have "dispatch_lifo zeroed_state = 3" "dispatch_lifo ?busy = 2"
    by (simp_all only: dispatch_lifo_def workers_upt rev.simps append.simps find.simps if_True if_False option.case)
  then show test_lifo_prefers_last_registered_idle_worker
    by (simp add: test_lifo_prefers_last_registered_idle_worker_def Let_def n)
  let ?d = "\<lparr>conn_id = 0, desc_hash = 0, arrival_ns = 0, service_us = 0, lifetime_ms = 0\<rparr>"
  have len: "i < NUM_WORKERS \<Longrightarrow> queue_len (sh_queues (backlogs ?d NUM_WORKERS) ! i) = i + 2" for i
    using backlogs_len [of NUM_WORKERS ?d] by simp
  then have "\<not> (\<exists>i<NUM_WORKERS. is_idle (backlogs ?d NUM_WORKERS) i)" by (auto simp: is_idle_def queue_is_empty_def)
  moreover define w where "w = dispatch_lifo (backlogs ?d NUM_WORKERS)"
  ultimately have "w < NUM_WORKERS \<and> queue_len (sh_queues (backlogs ?d NUM_WORKERS) ! w) \<le> queue_len (sh_queues (backlogs ?d NUM_WORKERS) ! 0)"
    using dispatch_lifo_cases [of "backlogs ?d NUM_WORKERS"] NUM_WORKERS_pos unfolding w_def [symmetric]
    by (metis order_less_imp_le order_refl)
  then have "dispatch_lifo (backlogs ?d NUM_WORKERS) = 0" using len [of w] len [of 0] by (simp add: w_def)
  then show test_lifo_all_busy_picks_shortest_backlog
    by (simp add: test_lifo_all_busy_picks_shortest_backlog_def Let_def backlogs_def)
qed

end
