(* ===== verification/Spec2Isabelle.thy ===== *)
theory Spec2Isabelle
  imports Prelude Float64 Std_Time Status_Table Load_Filter Scheduler Wire_Protocol Kernel_Dispatch
    Sim_Queue Sim_Spsc Sim_Shared Sim_Dispatcher Sim_Workload Bench_Workload Workloads_Agree Sim_Generator
    Loader Worker_Io Worker_Loop Sim_Worker Latency Rust_Text Balance Tick_Csv Launcher
    Hermes_Process Sim_Metrics Sim_Main
    Sim_Status_Table Sim_Scheduler Versions_Agree
    Bench_Client Bench_Main Front_Ends Cluster Cluster_Inv Cluster_Safety Cluster_Progress Worker_Scripts Cluster_Turn End_To_End
    Buffered_Lines Collector Console_Text Bench_Process Sim_Process Sim_System Sim_Conservation Sim_Drain Sim_Turn
    Weak_Memory Sim_Weak_Queue Sim_Weak_Safety Sim_Report Unit_Tests
begin

text \<open>
  Verification development for Micro-Hermes, a userspace-directed load balancer. Worker processes
  run an event loop and publish three metrics each in a shared Worker Status Table; at the end of
  every loop a worker runs Algorithm 1 over the table and writes a bitmap of candidate workers
  into the map \<open>M_Sel\<close>; an eBPF program attached to the \<open>SO_REUSEPORT\<close> group runs Algorithm 2 on
  every inbound connection and selects one of the candidates. The repository has two versions:
  the eBPF version (\<open>hermes\<close>, \<open>hermes-ebpf\<close>, \<open>hermes-common\<close>, with the load generator
  \<open>hermes-bench\<close>) and a simulation in which the parent process stands in for the kernel
  (\<open>userspace_simulation\<close>).

  The theories, in the order of the code:

  \<^item> \<open>Prelude\<close>: machine integers (a Rust integer is a word, an \<open>i64\<close> is read with \<open>sint\<close> and its
    arithmetic wraps), bitmaps as sets of worker ids, \<open>min_by_key\<close>, \<open>Reverse\<close>, \<open>copy_from_slice\<close>,
    loops over events and their contract \<open>guarded_steps\<close>.
  \<^item> \<open>Float64\<close>: binary64 arithmetic, each operation the exact result rounded once, ties to even.
    \<open>Std_Time\<close>: durations in nanoseconds.
  \<^item> \<open>Rust_Text\<close>: printing and parsing of integers, splitting, joining and the lines of a file; the
    locale \<open>text_field\<close> is what a reader of comma-separated lines needs of the writer of a column.
  \<^item> \<open>Status_Table\<close> (\<open>hermes/src/wst.rs\<close>): slots, snapshots, the
    atomic updates of a slot.
  \<^item> \<open>Load_Filter\<close> and \<open>Scheduler\<close> (\<open>hermes/src/scheduler.rs\<close>): the three stages of Algorithm 1. The
    specification \<open>candidates_spec\<close> uses unbounded integers and exact rationals; the code is shown
    to implement it, although it decides in floating point.
  \<^item> \<open>Kernel_Dispatch\<close> (\<open>hermes-ebpf/src/main.rs\<close>): Algorithm 2. The map lookup and the helper
    \<open>select_reuseport\<close> are parameters. What it needs of a publisher is the locale
    \<open>bitmap_publisher\<close>, which \<open>Scheduler\<close> interprets with the scheduler's output.
  \<^item> \<open>Wire_Protocol\<close> (\<open>hermes-common/src/lib.rs\<close>): requests and responses as bytes; the locale
    \<open>wire_codec\<close> is what both ends rely on.
  \<^item> \<open>Loader\<close> (\<open>hermes/src/loader.rs\<close>): the policies, the listening sockets and the socket map.
  \<^item> \<open>Launcher\<close> (\<open>hermes/src/main.rs\<close> and the loading of the eBPF object in \<open>loader.rs\<close>): the settings,
    the forks, what each child keeps open, shutdown, and the order of the loading steps.
    \<open>Hermes_Process\<close> puts it together as a process: the options, the failures before the sockets, of
    which none leaves a worker or a socket behind, the arguments of every worker and how a worker's
    process ends.
  \<^item> \<open>Balance\<close> and \<open>Tick_Csv\<close> (\<open>hermes/src/metrics.rs\<close>): the standard deviation with its correctly
    rounded square root, the lines of the tick file and its buffered writer. \<open>Buffered_Lines\<close>: files
    written line by line and flushed after every so many rows; the locale \<open>flushed_lines\<close> says what
    a kill can cost.
  \<^item> \<open>Worker_Io\<close> and \<open>Worker_Loop\<close> (\<open>hermes/src/worker.rs\<close>): accepting, reading, serving and writing
    on top of the system calls, and the event loop around them.
  \<^item> \<open>Cluster\<close>, \<open>Cluster_Inv\<close>, \<open>Cluster_Safety\<close> and \<open>Cluster_Progress\<close>: the loops of all workers
    interleaved at every access to the shared table and to \<open>M_Sel\<close>, a snapshot being twelve single
    loads, with an invariant over all interleavings and what follows for the table, for every
    publication and for the connections the kernel steers. A call of \<open>epoll_wait\<close> takes time and
    returns empty only after its timeout. The handler of a connection's event is one step: only
    its last call touches shared memory. \<open>Cluster_Progress\<close>: every answer of the kernel has a step, and
    a turn has boundedly many. \<open>Worker_Scripts\<close> bounds the calls inside the handler and, with
    \<open>Cluster_Turn\<close>, shows that what a worker does between two loop tops is one turn of
    \<open>Worker_Loop\<close>, which publishes what the turn publishes.
  \<^item> \<open>Sim_Queue\<close>, \<open>Sim_Spsc\<close> and \<open>Sim_Shared\<close> (\<open>userspace_simulation/src/shm.rs\<close>): the accept queue as a
    ring buffer, once as operations (the locale \<open>bounded_fifo\<close>) and once as the interleaving of
    the memory accesses of its two processes, and the shared memory around it.
  \<^item> \<open>Sim_Dispatcher\<close>, \<open>Sim_Generator\<close> and \<open>Sim_Worker\<close>: the dispatch mechanisms, the generator and the
    worker process of the simulation. The locale \<open>steering\<close> is what the generator needs of a
    dispatch mechanism.
  \<^item> \<open>Sim_System\<close>, \<open>Sim_Conservation\<close> and \<open>Sim_Drain\<close>: generator and workers of the simulation
    interleaved over the shared memory, the snapshots load by load; no connection is lost, served twice or out of turn, and
    every run comes to rest. \<open>Sim_Turn\<close>: the turns of \<open>Sim_Worker\<close>, with the others acting at the turn's
    hooks, are runs of these steps.
  \<^item> \<open>Weak_Memory\<close>, \<open>Sim_Weak_Queue\<close> and \<open>Sim_Weak_Safety\<close>: the accept queue and the shutdown flag with the
    memory orderings of the code, on a machine where a load may return old values. The queue stays
    first-in first-out and free of data races; the flag's relaxed load is too weak.
  \<^item> \<open>Sim_Report\<close>: the counters the simulation prints, followed through every interleaving, account
    for every connection.
  \<^item> \<open>Sim_Metrics\<close> and \<open>Sim_Main\<close> (\<open>userspace_simulation/src/metrics.rs\<close>, \<open>main.rs\<close>): the rows as lines,
    the merge of the workers' files, the summary, and the parent process around generator, the wait
    for the children and report. \<open>Sim_Process\<close>: the whole process from its environment to both
    consoles, ended early when the shared memory, the directory or a fork fails; a run's report is
    shown to count exactly what the workers recorded.
  \<^item> \<open>Sim_Status_Table\<close>, \<open>Sim_Scheduler\<close> and \<open>Versions_Agree\<close> (\<open>userspace_simulation/src/wst.rs\<close>,
    \<open>scheduler.rs\<close>): the simulation's copies of the table and of Algorithm 1, and that both versions choose the same worker from the same table.
  \<^item> \<open>Sim_Workload\<close>, \<open>Bench_Workload\<close> and \<open>Workloads_Agree\<close> (the two \<open>workload.rs\<close>): the traffic
    profiles and that they describe the same traffic.
  \<^item> \<open>Latency\<close> and \<open>Bench_Client\<close> (\<open>hermes-bench/src/client.rs\<close>, \<open>main.rs\<close>): the load generator's
    connections, the rows they report and the summary over the rows, whose percentile ranks are
    computed in floating point and shown to be exact up to \<open>2 ^ 40\<close> rows, and the file of rows.
    \<open>Collector\<close>: the task that counts and writes the rows, with its errors and flushes.
  \<^item> \<open>Bench_Main\<close> and \<open>Front_Ends\<close> (\<open>hermes-bench/src/main.rs\<close>): the choice of the profile and the loop
    that spawns the connections, each compared with what a run of the simulation's generator puts
    into the queues.
    \<open>Bench_Process\<close>: the whole process from the options to the printed line. \<open>Console_Text\<close>: the
    numbers both front ends print.
  \<^item> \<open>End_To_End\<close>: the requests the load generator writes, through any cutting of their bytes, to the
    work they make the selected worker do and back into the rows the load generator reports.
  \<^item> \<open>Unit_Tests\<close>: the repository's own unit tests, as propositions over the model, and that they hold.

  This root theory holds the properties that span components: from the status table over the
  bitmap and the eBPF program to the socket a connection reaches.

  How state and environment are modelled. A struct is a record, an enum a datatype. What comes from
  outside the repository is an argument: clock readings, results of system calls (scripts of
  \<open>(ret, errno)\<close> pairs, consumed one per call; a routine is \<open>None\<close> when its script ends before it
  returns), and the effect of the other processes on the shared memory (functions applied at
  fixed points of a loop). The hypotheses on them are named: \<open>event_ok\<close> and \<open>fresh_accepts\<close> (epoll
  reports registered descriptors, accept returns unused ones), \<open>leaves_slot\<close> (a worker writes its
  own slot only, which \<open>Cluster_Turn\<close> proves of the interleaved workers), \<open>write_results_ok\<close>,
  \<open>keeps_queue\<close>, \<open>arrives_from\<close> (the rows are those the tasks send, and a channel keeps the order of
  each sender), \<open>task_env_ok\<close> (\<open>read_exact\<close> fails or fills the buffer, and the deadline of a task comes),
  \<open>cuts_ok\<close> (bytes arrive complete and in order), \<open>children_exit\<close> (\<open>waitpid\<close> returns once the shutdown
  is requested, as \<open>Sim_Drain\<close> shows the workers' loops to end then), \<open>answers_ok\<close> and \<open>may_answer\<close>
  (the kernel's promises of \<open>worker_step\<close> and the timeout of \<open>epoll_wait\<close>). A panic or an error return
  is a value of a sum or option type.

  Bounds. The exactness of the load filter holds for loads that are not negative and add up to at
  most \<open>2 ^ 51\<close>; clock readings are not negative; the deviation is compared with the exact variance
  for loads within \<open>2 ^ 22\<close>. The ring indices and the counters wrap. Loops are structural or have a
  termination proof; the generator's loop is a partial function, shown to return for every rate up
  to \<open>10 ^ 9\<close> connections per second and shown not to return when its interval rounds to zero. No fuel is used.

  What is not modelled. Memory orderings, except for the accept queue and the shutdown flag of the
  simulation: everywhere else whole accesses are interleaved, and nowhere does a load read a store
  that has not happened yet; log lines and the text of panics; the parsing of the command lines by
  \<open>clap\<close>, of which the options and their defaults are modelled; the delivery of signals, of which the
  readings of the flag are a script and a call of \<open>kill\<close> or \<open>waitpid\<close> of the eBPF version's parent an
  entry of its log, since the code ignores their results; the asynchronous runtime under the client tasks of
  \<open>hermes-bench\<close>, whose connects, reads, writes and timers are parameters; what \<open>aya\<close> does within a
  step of the loading, of which only success or failure is a parameter; the build scripts.
\<close>

section \<open>The kernel program under the scheduler's bitmap\<close>

text \<open>\<open>select_reuseport\<close> on the socket map: the kernel's error for an empty element is \<open>ENOENT\<close>.\<close>

definition socket_lookup :: "(u32 \<rightharpoonup> int) \<Rightarrow> sk_ctx \<Rightarrow> u32 \<Rightarrow> nat + int" where
  "socket_lookup m ctx worker_id = (case m worker_id of Some fd \<Rightarrow> Inr fd | None \<Rightarrow> Inl 2)"

text \<open>
  From the table to the kernel: while the bitmap published for a table is in force, the eBPF
  program never steers a connection to a worker that was hung when the bitmap was computed.
\<close>

lemma hung_worker_not_selected:
  assumes "clocks_ok (snapshot_all w) now" and "i < NUM_WORKERS" and "hung now threshold (snapshot_all w ! i)"
  shows "try_select (Some (bitmap (schedule w now threshold))) ctx \<noteq> Some (of_nat i)"
  using scheduler_out.select_only_candidates [of "(w, now, threshold)" i ctx] hung_not_published [OF assms] assms(2)
  by simp

lemma hung_worker_not_selected_witness:
  "try_select (Some (bitmap (schedule sample_table 900000000 HANG_THRESHOLD_NS)))
     \<lparr>ip_protocol = 6, ctx_hash = 77\<rparr> \<noteq> Some (of_nat 1)"
  by (rule hung_worker_not_selected [OF sample_table_ok(2)])
    (simp_all add: hung_def nth_snapshot_all slot_snapshot_def sample_table_def
      HANG_THRESHOLD_NS_def NUM_WORKERS_def)

text \<open>
  C3: From the table to the socket: with the sockets of a successful Hermes setup, when at least two
  workers survive the three stages, the eBPF program steers every TCP connection to the listener
  of a worker the specification of Algorithm 1 accepts.
\<close>

theorem connection_reaches_candidate:
  assumes "setup_policy Loader.Hermes port aya_error net = Some (Inr st, net')"
    and "table_ok (snapshot_all w)" and "clocks_ok (snapshot_all w) now"
    and "2 \<le> after_stage3 (schedule w now threshold)" and "ip_protocol ctx = IPPROTO_TCP"
  shows "\<exists>i \<in> set (candidates_spec (snapshot_all w) now threshold). i < NUM_WORKERS \<and>
    hermes_select (socket_lookup (m_socket st)) (Some (bitmap (schedule w now threshold))) ctx =
      (SK_PASS, Some (listen_fds st ! i))"
proof -
  have c: "set_bits (bitmap (schedule w now threshold)) 64 = candidates_spec (snapshot_all w) now threshold"
    using survivors_meet_spec [OF assms(2,3)] by (simp add: schedule_def set_bits_schedule)
  moreover have "2 \<le> length (set_bits (bitmap (schedule w now threshold)) 64)"
    using assms(4) schedule_stage_counts(1) by (simp add: schedule_def set_bits_schedule)
  ultimately obtain i where i: "i \<in> set (candidates_spec (snapshot_all w) now threshold)"
    "try_select (Some (bitmap (schedule w now threshold))) ctx = Some (of_nat i)"
    using scheduler_out.select_candidate [OF assms(5), of "(w, now, threshold)"] by auto
  then have "i < NUM_WORKERS" by (simp add: candidates_spec_def Let_def)
  moreover have "m_socket st (of_nat i) = Some (listen_fds st ! i)"
    using hermes_setup_sockets [OF assms(1) \<open>i < NUM_WORKERS\<close>] .
  ultimately show ?thesis
    using i by (intro bexI [of _ i]) (simp_all add: hermes_select_def socket_lookup_def)
qed

theorem connection_reaches_candidate_witness:
  "\<exists>st net' i. setup_policy Loader.Hermes 9000 None (sample_net (replicate 4 (0, 0))) = Some (Inr st, net') \<and>
    i \<in> set (candidates_spec (snapshot_all sample_table) 900000000 HANG_THRESHOLD_NS) \<and>
    hermes_select (socket_lookup (m_socket st)) (Some (bitmap (schedule sample_table 900000000 HANG_THRESHOLD_NS)))
      \<lparr>ip_protocol = 6, ctx_hash = 77\<rparr> = (SK_PASS, Some (listen_fds st ! i))"
proof -
  obtain st net' where s: "setup_policy Loader.Hermes 9000 None (sample_net (replicate 4 (0, 0))) = Some (Inr st, net')"
    using sample_setup by blast
  have "after_stage3 (schedule sample_table 900000000 HANG_THRESHOLD_NS) = 2" by code_simp
  with connection_reaches_candidate [OF s sample_table_ok, of HANG_THRESHOLD_NS "\<lparr>ip_protocol = 6, ctx_hash = 77\<rparr>"] s
  show ?thesis by (auto simp: IPPROTO_TCP_def)
qed

end
